(* ===== verification/Prelude.thy ===== *)
theory Prelude
  imports Main "HOL-Library.Word"
begin

text \<open>
  Shared vocabulary of the development.

  A Rust function that touches shared memory becomes a function of type
  \<open>('s, 'a) comp\<close>: it takes the state and returns either a fault or a value, together with
  the state it leaves behind. \<open>ret\<close>, \<open>bnd\<close> and \<open>raise\<close> are the unit, the sequencing
  operator and the abrupt end of such computations; a panic, a failed assertion, a read through a
  dangling pointer and an exhausted retry bound are the values of \<open>fault\<close>.

  The collection \<open>exec\<close> gathers the equations that run a computation on a state; \<open>lift_simps\<close>
  the ones that only rearrange sequencing.
\<close>

named_theorems exec

named_theorems lift_simps

type_synonym usize = "64 word"

datatype fault =
    UseAfterFree
  | Dangling
  | IndexOutOfBounds
  | ExpectNone
  | AssertFailed
  | DebugAssertFailed
  | Unreachable
  | OutOfMemory
  | OutOfFuel

type_synonym ('s, 'a) comp = "'s \<Rightarrow> (fault + 'a) \<times> 's"

definition ret :: "'a \<Rightarrow> ('s, 'a) comp" where
  "ret x = (\<lambda>s. (Inr x, s))"

definition raise :: "fault \<Rightarrow> ('s, 'a) comp" where
  "raise e = (\<lambda>s. (Inl e, s))"

definition bnd :: "('s, 'a) comp \<Rightarrow> ('a \<Rightarrow> ('s, 'b) comp) \<Rightarrow> ('s, 'b) comp" where
  "bnd m f = (\<lambda>s. case m s of (Inl e, s') \<Rightarrow> (Inl e, s') | (Inr x, s') \<Rightarrow> f x s')"

text \<open>Rust's \<open>assert!\<close>, \<open>debug_assert!\<close> and \<open>Option::expect\<close>.\<close>

definition assert_that :: "bool \<Rightarrow> ('s, unit) comp" where
  "assert_that b = (if b then ret () else raise AssertFailed)"

definition debug_assert :: "bool \<Rightarrow> ('s, unit) comp" where
  "debug_assert b = (if b then ret () else raise DebugAssertFailed)"

definition expect :: "'a option \<Rightarrow> ('s, 'a) comp" where
  "expect x = (case x of None \<Rightarrow> raise ExpectNone | Some v \<Rightarrow> ret v)"

text \<open>A \<open>for\<close> loop over a fixed sequence.\<close>

fun for_each :: "'i list \<Rightarrow> ('i \<Rightarrow> ('s, unit) comp) \<Rightarrow> ('s, unit) comp" where
  "for_each [] f = ret ()"
| "for_each (i # is) f = bnd (f i) (\<lambda>_. for_each is f)"

lemma ret_exec [exec, simp]: "ret x s = (Inr x, s)"
  by (simp add: ret_def)

lemma raise_exec [exec, simp]: "raise e s = (Inl e, s)"
  by (simp add: raise_def)

lemma bnd_exec_Inr [exec]: "m s = (Inr x, s') \<Longrightarrow> bnd m f s = f x s'"
  by (simp add: bnd_def)

lemma bnd_exec_Inl [exec]: "m s = (Inl e, s') \<Longrightarrow> bnd m f s = (Inl e, s')"
  by (simp add: bnd_def)

lemma bnd_ret_left [lift_simps, simp]: "bnd (ret x) f = f x"
  by (simp add: bnd_def fun_eq_iff)

lemma bnd_ret_right [lift_simps, simp]: "bnd m ret = m"
  by (auto simp: bnd_def fun_eq_iff split: prod.splits sum.splits)

lemma bnd_assoc [lift_simps]: "bnd (bnd m f) g = bnd m (\<lambda>x. bnd (f x) g)"
  by (auto simp: bnd_def fun_eq_iff split: prod.splits sum.splits)

lemma bnd_raise [lift_simps, simp]: "bnd (raise e) f = raise e"
  by (simp add: bnd_def fun_eq_iff)

lemma assert_that_True [lift_simps, simp]: "b \<Longrightarrow> assert_that b = ret ()"
  by (simp add: assert_that_def)

lemma assert_that_False [lift_simps, simp]: "\<not> b \<Longrightarrow> assert_that b = raise AssertFailed"
  by (simp add: assert_that_def)

lemma debug_assert_True [lift_simps, simp]: "b \<Longrightarrow> debug_assert b = ret ()"
  by (simp add: debug_assert_def)

lemma debug_assert_False [lift_simps, simp]: "\<not> b \<Longrightarrow> debug_assert b = raise DebugAssertFailed"
  by (simp add: debug_assert_def)

lemma expect_Some [lift_simps, simp]: "expect (Some v) = ret v"
  by (simp add: expect_def)

lemma expect_None [lift_simps, simp]: "expect None = raise ExpectNone"
  by (simp add: expect_def)

text \<open>A computation that succeeds and one that faults, as predicates.\<close>

definition returns :: "('s, 'a) comp \<Rightarrow> 's \<Rightarrow> 'a \<Rightarrow> 's \<Rightarrow> bool" where
  "returns m s x s' \<longleftrightarrow> m s = (Inr x, s')"

lemma returns_bnd [intro]:
  "returns m s x s' \<Longrightarrow> returns (f x) s' y s'' \<Longrightarrow> returns (bnd m f) s y s''"
  by (simp add: returns_def bnd_def)

end
