(* ===== verification/RefCnt.thy ===== *)
theory RefCnt
  imports Prelude
begin

text \<open>
  Reference counted pointers: \<^verbatim>\<open>src/ref_cnt.rs\<close> and \<^verbatim>\<open>src/weak.rs\<close>.

  The heap maps the address of an allocation to its two counters and its value, as the standard
  library's \<open>Arc\<close> and \<open>Rc\<close> keep them; an allocation goes away when both counters are zero.
  The trait \<open>RefCnt\<close> is a record of its required operations (a dictionary), with the provided
  methods \<open>inc\<close> and \<open>dec\<close> as definitions over any such record, and one record per \<open>impl\<close>
  of the source: \<open>Arc\<close>, \<open>Rc\<close>, \<open>Option<T>\<close>, \<open>Pin<Arc>\<close>, \<open>Pin<Rc>\<close>, \<open>Weak\<close>, \<open>rc::Weak\<close>.

  The locale \<open>ref_cnt\<close> states the contract the trait's documentation asks of every
  implementation; it is interpreted for all of the above.
\<close>

section \<open>The heap\<close>

record 'v cell =
  strong :: nat
  weak :: nat
  payload :: 'v

type_synonym 'v heap = "usize \<Rightarrow> 'v cell option"

definition strong_rc :: "'v heap \<Rightarrow> usize \<Rightarrow> nat" where
  "strong_rc h p = (if p = 0 then 0 else case h p of None \<Rightarrow> 0 | Some c \<Rightarrow> strong c)"

definition weak_rc :: "'v heap \<Rightarrow> usize \<Rightarrow> nat" where
  "weak_rc h p = (if p = 0 then 0 else case h p of None \<Rightarrow> 0 | Some c \<Rightarrow> weak c)"

definition value_at :: "'v heap \<Rightarrow> usize \<Rightarrow> 'v option" where
  "value_at h p = map_option payload (h p)"

definition put_cell :: "usize \<Rightarrow> 'v cell \<Rightarrow> 'v heap \<Rightarrow> 'v heap" where
  "put_cell p c h = (if strong c = 0 \<and> weak c = 0 then h(p := None) else h(p \<mapsto> c))"

definition strong_up :: "usize \<Rightarrow> 'v heap \<Rightarrow> 'v heap" where
  "strong_up p h = (case h p of None \<Rightarrow> h | Some c \<Rightarrow> h(p \<mapsto> c\<lparr>strong := strong c + 1\<rparr>))"

definition strong_down :: "usize \<Rightarrow> 'v heap \<Rightarrow> 'v heap" where
  "strong_down p h = (case h p of None \<Rightarrow> h | Some c \<Rightarrow> put_cell p (c\<lparr>strong := strong c - 1\<rparr>) h)"

definition weak_up :: "usize \<Rightarrow> 'v heap \<Rightarrow> 'v heap" where
  "weak_up p h = (case h p of None \<Rightarrow> h | Some c \<Rightarrow> h(p \<mapsto> c\<lparr>weak := weak c + 1\<rparr>))"

definition weak_down :: "usize \<Rightarrow> 'v heap \<Rightarrow> 'v heap" where
  "weak_down p h = (case h p of None \<Rightarrow> h | Some c \<Rightarrow> put_cell p (c\<lparr>weak := weak c - 1\<rparr>) h)"

text \<open>Counting on a possibly null pointer: null has no allocation behind it.\<close>

definition unless_null :: "(usize \<Rightarrow> 'v heap \<Rightarrow> 'v heap) \<Rightarrow> usize \<Rightarrow> 'v heap \<Rightarrow> 'v heap" where
  "unless_null f p h = (if p = 0 then h else f p h)"

section \<open>The trait\<close>

record ('t, 'v) RefCnt =
  into_ptr :: "'t \<Rightarrow> usize"
  as_ptr :: "'t \<Rightarrow> usize"
  from_ptr :: "usize \<Rightarrow> 't"
  clone :: "'t \<Rightarrow> 'v heap \<Rightarrow> fault + 'v heap"
  drop_value :: "'t \<Rightarrow> 'v heap \<Rightarrow> fault + 'v heap"

text \<open>
  The provided methods: \<open>inc\<close> clones and forgets the clone, \<open>dec\<close> revives the raw pointer and
  drops it. They return the pointer and the new heap.
\<close>

definition inc :: "('t, 'v) RefCnt \<Rightarrow> 't \<Rightarrow> 'v heap \<Rightarrow> fault + (usize \<times> 'v heap)" where
  "inc T me h = (case clone T me h of Inl e \<Rightarrow> Inl e | Inr h' \<Rightarrow> Inr (into_ptr T me, h'))"

definition dec :: "('t, 'v) RefCnt \<Rightarrow> usize \<Rightarrow> 'v heap \<Rightarrow> fault + 'v heap" where
  "dec T ptr h = drop_value T (from_ptr T ptr) h"

section \<open>Implementations\<close>

datatype arc = Arc usize

fun arc_into_raw :: "arc \<Rightarrow> usize" where
  "arc_into_raw (Arc p) = p"

definition arc_from_raw :: "usize \<Rightarrow> arc" where
  "arc_from_raw p = Arc p"

definition arc_clone :: "arc \<Rightarrow> 'v heap \<Rightarrow> fault + 'v heap" where
  "arc_clone me h =
     (if strong_rc h (arc_into_raw me) = 0 then Inl UseAfterFree else Inr (strong_up (arc_into_raw me) h))"

definition arc_drop :: "arc \<Rightarrow> 'v heap \<Rightarrow> fault + 'v heap" where
  "arc_drop me h =
     (if strong_rc h (arc_into_raw me) = 0 then Inl UseAfterFree else Inr (strong_down (arc_into_raw me) h))"

text \<open>
  \<open>as_ptr\<close> reads a shallow copy of the \<open>Arc\<close>, turns it into a raw pointer, and closes the
  bracket with \<open>from_raw\<close> and \<open>forget\<close>: no count changes.
\<close>

definition arc_as_ptr :: "arc \<Rightarrow> usize" where
  "arc_as_ptr me = (let ptr = arc_into_raw me; _ = arc_from_raw ptr in ptr)"

definition arc_RefCnt :: "(arc, 'v) RefCnt" where
  "arc_RefCnt = \<lparr>into_ptr = arc_into_raw, as_ptr = arc_as_ptr, from_ptr = arc_from_raw,
                 clone = arc_clone, drop_value = arc_drop\<rparr>"

datatype rc = Rc usize

fun rc_into_raw :: "rc \<Rightarrow> usize" where
  "rc_into_raw (Rc p) = p"

definition rc_from_raw :: "usize \<Rightarrow> rc" where
  "rc_from_raw p = Rc p"

definition rc_clone :: "rc \<Rightarrow> 'v heap \<Rightarrow> fault + 'v heap" where
  "rc_clone me h =
     (if strong_rc h (rc_into_raw me) = 0 then Inl UseAfterFree else Inr (strong_up (rc_into_raw me) h))"

definition rc_drop :: "rc \<Rightarrow> 'v heap \<Rightarrow> fault + 'v heap" where
  "rc_drop me h =
     (if strong_rc h (rc_into_raw me) = 0 then Inl UseAfterFree else Inr (strong_down (rc_into_raw me) h))"

definition rc_as_ptr :: "rc \<Rightarrow> usize" where
  "rc_as_ptr me = (let ptr = rc_into_raw me; _ = rc_from_raw ptr in ptr)"

definition rc_RefCnt :: "(rc, 'v) RefCnt" where
  "rc_RefCnt = \<lparr>into_ptr = rc_into_raw, as_ptr = rc_as_ptr, from_ptr = rc_from_raw,
                clone = rc_clone, drop_value = rc_drop\<rparr>"

text \<open>\<open>Option<T>\<close>: \<open>None\<close> is the null pointer.\<close>

definition option_into_ptr :: "('t, 'v) RefCnt \<Rightarrow> 't option \<Rightarrow> usize" where
  "option_into_ptr T me = (case map_option (into_ptr T) me of None \<Rightarrow> 0 | Some p \<Rightarrow> p)"

definition option_as_ptr :: "('t, 'v) RefCnt \<Rightarrow> 't option \<Rightarrow> usize" where
  "option_as_ptr T me = (case map_option (as_ptr T) me of None \<Rightarrow> 0 | Some p \<Rightarrow> p)"

definition option_from_ptr :: "('t, 'v) RefCnt \<Rightarrow> usize \<Rightarrow> 't option" where
  "option_from_ptr T ptr = (if ptr = 0 then None else Some (from_ptr T ptr))"

definition option_clone :: "('t, 'v) RefCnt \<Rightarrow> 't option \<Rightarrow> 'v heap \<Rightarrow> fault + 'v heap" where
  "option_clone T me h = (case me of None \<Rightarrow> Inr h | Some x \<Rightarrow> clone T x h)"

definition option_drop :: "('t, 'v) RefCnt \<Rightarrow> 't option \<Rightarrow> 'v heap \<Rightarrow> fault + 'v heap" where
  "option_drop T me h = (case me of None \<Rightarrow> Inr h | Some x \<Rightarrow> drop_value T x h)"

definition option_RefCnt :: "('t, 'v) RefCnt \<Rightarrow> ('t option, 'v) RefCnt" where
  "option_RefCnt T = \<lparr>into_ptr = option_into_ptr T, as_ptr = option_as_ptr T,
     from_ptr = option_from_ptr T, clone = option_clone T, drop_value = option_drop T\<rparr>"

text \<open>\<open>Pin<Arc<T>>\<close> and \<open>Pin<Rc<T>>\<close>: the pointer inside the pin.\<close>

datatype 't pin = Pin 't

fun pin_into_inner :: "'t pin \<Rightarrow> 't" where
  "pin_into_inner (Pin x) = x"

definition pin_arc_RefCnt :: "(arc pin, 'v) RefCnt" where
  "pin_arc_RefCnt =
     \<lparr>into_ptr = (\<lambda>me. arc_into_raw (pin_into_inner me)),
      as_ptr = (\<lambda>me. let ptr = arc_into_raw (pin_into_inner me); _ = arc_from_raw ptr in ptr),
      from_ptr = (\<lambda>ptr. Pin (arc_from_raw ptr)),
      clone = (\<lambda>me. arc_clone (pin_into_inner me)),
      drop_value = (\<lambda>me. arc_drop (pin_into_inner me))\<rparr>"

definition pin_rc_RefCnt :: "(rc pin, 'v) RefCnt" where
  "pin_rc_RefCnt =
     \<lparr>into_ptr = (\<lambda>me. rc_into_raw (pin_into_inner me)),
      as_ptr = (\<lambda>me. let ptr = rc_into_raw (pin_into_inner me); _ = rc_from_raw ptr in ptr),
      from_ptr = (\<lambda>ptr. Pin (rc_from_raw ptr)),
      clone = (\<lambda>me. rc_clone (pin_into_inner me)),
      drop_value = (\<lambda>me. rc_drop (pin_into_inner me))\<rparr>"

text \<open>
  \<open>Weak<T>\<close>: \<open>WeakNew\<close> is the value of \<open>Weak::new()\<close>, which points to no allocation;
  \<open>WeakTo p\<close> is a weak pointer to the allocation at \<open>p\<close>. \<open>Weak::ptr_eq\<close> against
  \<open>Weak::new()\<close> tells them apart.
\<close>

datatype weak_ptr = WeakNew | WeakTo usize

definition weak_ptr_eq_new :: "weak_ptr \<Rightarrow> bool" where
  "weak_ptr_eq_new me \<longleftrightarrow> me = WeakNew"

fun weak_raw :: "weak_ptr \<Rightarrow> usize" where
  "weak_raw WeakNew = 0"
| "weak_raw (WeakTo p) = p"

definition weak_clone :: "weak_ptr \<Rightarrow> 'v heap \<Rightarrow> fault + 'v heap" where
  "weak_clone me h = (case me of WeakNew \<Rightarrow> Inr h
     | WeakTo p \<Rightarrow> if weak_rc h p = 0 then Inl UseAfterFree else Inr (weak_up p h))"

definition weak_drop :: "weak_ptr \<Rightarrow> 'v heap \<Rightarrow> fault + 'v heap" where
  "weak_drop me h = (case me of WeakNew \<Rightarrow> Inr h
     | WeakTo p \<Rightarrow> if weak_rc h p = 0 then Inl UseAfterFree else Inr (weak_down p h))"

definition weak_RefCnt :: "(weak_ptr, 'v) RefCnt" where
  "weak_RefCnt =
     \<lparr>into_ptr = (\<lambda>me. if weak_ptr_eq_new me then 0 else weak_raw me),
      as_ptr = (\<lambda>me. if weak_ptr_eq_new me then 0 else weak_raw me),
      from_ptr = (\<lambda>ptr. if ptr = 0 then WeakNew else WeakTo ptr),
      clone = weak_clone, drop_value = weak_drop\<rparr>"

datatype rc_weak_ptr = RcWeakNew | RcWeakTo usize

definition rc_weak_ptr_eq_new :: "rc_weak_ptr \<Rightarrow> bool" where
  "rc_weak_ptr_eq_new me \<longleftrightarrow> me = RcWeakNew"

fun rc_weak_raw :: "rc_weak_ptr \<Rightarrow> usize" where
  "rc_weak_raw RcWeakNew = 0"
| "rc_weak_raw (RcWeakTo p) = p"

definition rc_weak_clone :: "rc_weak_ptr \<Rightarrow> 'v heap \<Rightarrow> fault + 'v heap" where
  "rc_weak_clone me h = (case me of RcWeakNew \<Rightarrow> Inr h
     | RcWeakTo p \<Rightarrow> if weak_rc h p = 0 then Inl UseAfterFree else Inr (weak_up p h))"

definition rc_weak_drop :: "rc_weak_ptr \<Rightarrow> 'v heap \<Rightarrow> fault + 'v heap" where
  "rc_weak_drop me h = (case me of RcWeakNew \<Rightarrow> Inr h
     | RcWeakTo p \<Rightarrow> if weak_rc h p = 0 then Inl UseAfterFree else Inr (weak_down p h))"

definition rc_weak_RefCnt :: "(rc_weak_ptr, 'v) RefCnt" where
  "rc_weak_RefCnt =
     \<lparr>into_ptr = (\<lambda>me. if rc_weak_ptr_eq_new me then 0 else rc_weak_raw me),
      as_ptr = (\<lambda>me. if rc_weak_ptr_eq_new me then 0 else rc_weak_raw me),
      from_ptr = (\<lambda>ptr. if ptr = 0 then RcWeakNew else RcWeakTo ptr),
      clone = rc_weak_clone, drop_value = rc_weak_drop\<rparr>"

section \<open>The contract\<close>

text \<open>
  A raw pointer of the type is live when it is the null of a nullable type or its count is
  positive. The locale fixes the count the implementation maintains (\<open>cnt\<close>) and its two
  movements (\<open>up\<close>, \<open>down\<close>) on the heap.
\<close>

definition live_ptr :: "bool \<Rightarrow> ('v heap \<Rightarrow> usize \<Rightarrow> nat) \<Rightarrow> 'v heap \<Rightarrow> usize \<Rightarrow> bool" where
  "live_ptr nullable cnt h p \<longleftrightarrow> (p = 0 \<and> nullable) \<or> (p \<noteq> 0 \<and> 0 < cnt h p)"

text \<open>The pointer \<open>x\<close> has the raw form \<open>p\<close>, whether it is read or given away, and \<open>p\<close> turns back into \<open>x\<close>.\<close>

definition round_trips :: "('t, 'v) RefCnt \<Rightarrow> 't \<Rightarrow> usize \<Rightarrow> bool" where
  "round_trips T x p \<longleftrightarrow> into_ptr T x = p \<and> as_ptr T x = p \<and> from_ptr T p = x"

text \<open>Moreover, a reference taken out in the raw form counts by \<open>up\<close>, and giving it back in the raw form restores the
  heap.\<close>

definition counted_form :: "('t, 'v) RefCnt \<Rightarrow> 't \<Rightarrow> usize \<Rightarrow> (usize \<Rightarrow> 'v heap \<Rightarrow> 'v heap) \<Rightarrow> 'v heap \<Rightarrow> bool" where
  "counted_form T x p up h \<longleftrightarrow> round_trips T x p \<and> inc T x h = Inr (p, up p h) \<and> dec T p (up p h) = Inr h"

locale ref_cnt =
  fixes T :: "('t, 'v) RefCnt"
    and cnt :: "'v heap \<Rightarrow> usize \<Rightarrow> nat"
    and up :: "usize \<Rightarrow> 'v heap \<Rightarrow> 'v heap"
    and down :: "usize \<Rightarrow> 'v heap \<Rightarrow> 'v heap"
    and valid :: "'t \<Rightarrow> bool"
    and nullable :: bool
  assumes as_ptr_eq: "as_ptr T x = into_ptr T x"
    and from_into: "valid x \<Longrightarrow> from_ptr T (into_ptr T x) = x"
    and into_from: "p \<noteq> 0 \<or> nullable \<Longrightarrow> into_ptr T (from_ptr T p) = p"
    and valid_from: "p \<noteq> 0 \<or> nullable \<Longrightarrow> valid (from_ptr T p)"
    and into_null: "valid x \<Longrightarrow> \<not> nullable \<Longrightarrow> into_ptr T x \<noteq> 0"
    and clone_live: "valid x \<Longrightarrow> live_ptr nullable cnt h (into_ptr T x) \<Longrightarrow>
          clone T x h = Inr (up (into_ptr T x) h)"
    and clone_dead: "valid x \<Longrightarrow> \<not> live_ptr nullable cnt h (into_ptr T x) \<Longrightarrow>
          clone T x h = Inl UseAfterFree"
    and drop_live: "valid x \<Longrightarrow> live_ptr nullable cnt h (into_ptr T x) \<Longrightarrow>
          drop_value T x h = Inr (down (into_ptr T x) h)"
    and drop_dead: "valid x \<Longrightarrow> \<not> live_ptr nullable cnt h (into_ptr T x) \<Longrightarrow>
          drop_value T x h = Inl UseAfterFree"
    and cnt_null: "cnt h 0 = 0"
    and cnt_up: "live_ptr nullable cnt h p \<Longrightarrow>
          cnt (up p h) q = cnt h q + (if q = p \<and> p \<noteq> 0 then 1 else 0)"
    and cnt_down: "live_ptr nullable cnt h p \<Longrightarrow>
          cnt (down p h) q = cnt h q - (if q = p \<and> p \<noteq> 0 then 1 else 0)"
    and down_up: "live_ptr nullable cnt h p \<Longrightarrow> down p (up p h) = h"
    and value_up: "value_at (up p h) q = value_at h q"
    and value_down: "q \<noteq> p \<or> 1 < cnt h p \<Longrightarrow> value_at (down p h) q = value_at h q"
begin

abbreviation live :: "'v heap \<Rightarrow> usize \<Rightarrow> bool" where
  "live h p \<equiv> live_ptr nullable cnt h p"

lemma live_not_null: "live h p \<Longrightarrow> p \<noteq> 0 \<or> nullable"
  by (auto simp: live_ptr_def)

lemma live_up: "live h p \<Longrightarrow> live (up p h) q \<longleftrightarrow> live h q"
  by (auto simp: live_ptr_def cnt_up[unfolded live_ptr_def])

lemma live_valid: "live h p \<Longrightarrow> valid (from_ptr T p) \<and> into_ptr T (from_ptr T p) = p"
  using live_not_null valid_from into_from by blast

lemma raw_round_trip: "valid x \<Longrightarrow> round_trips T x (into_ptr T x)"
  by (simp add: round_trips_def as_ptr_eq from_into)

lemma inc_live: "live h p \<Longrightarrow> inc T (from_ptr T p) h = Inr (p, up p h)"
  using live_valid clone_live by (simp add: inc_def)

lemma inc_dead: "p \<noteq> 0 \<or> nullable \<Longrightarrow> \<not> live h p \<Longrightarrow> inc T (from_ptr T p) h = Inl UseAfterFree"
  by (simp add: inc_def clone_dead into_from valid_from)

lemma dec_live: "live h p \<Longrightarrow> dec T p h = Inr (down p h)"
  using live_valid drop_live by (simp add: dec_def)

lemma dec_dead: "p \<noteq> 0 \<or> nullable \<Longrightarrow> \<not> live h p \<Longrightarrow> dec T p h = Inl UseAfterFree"
  by (simp add: dec_def drop_dead into_from valid_from)

text \<open>Incrementing and then decrementing a count cancel each other out.\<close>

lemma inc_dec_cancel:
  assumes "live h p"
  shows "case inc T (from_ptr T p) h of Inl e \<Rightarrow> False | Inr (q, h') \<Rightarrow> dec T q h' = Inr h"
  using assms by (simp add: inc_live dec_live live_up down_up)

lemma raw_counted: "valid x \<Longrightarrow> live h (into_ptr T x) \<Longrightarrow> counted_form T x (into_ptr T x) up h"
  using inc_dec_cancel[of h "into_ptr T x"] inc_live[of h "into_ptr T x"]
  by (simp add: counted_form_def raw_round_trip from_into)

lemma live_funpow_up: "live h p \<Longrightarrow> live ((up p ^^ k) h) q \<longleftrightarrow> live h q"
proof (induction k arbitrary: q)
  case (Suc k)
  then have "live ((up p ^^ k) h) p" by simp
  then show ?case using Suc by (simp add: live_up)
qed simp

lemma cnt_funpow_up:
  "live h p \<Longrightarrow> cnt ((up p ^^ k) h) q = cnt h q + (if q = p \<and> p \<noteq> 0 then k else 0)"
  by (induction k) (simp_all add: cnt_up live_funpow_up)

lemma value_funpow_up: "value_at ((up p ^^ k) h) q = value_at h q"
  by (induction k) (simp_all add: value_up)

end

text \<open>A type whose pointers are never null; \<open>Option\<close> of it uses the null pointer for \<open>None\<close>.\<close>

locale nonnull_ref_cnt = ref_cnt T cnt up down valid nullable
  for T :: "('t, 'v) RefCnt" and cnt and up and down and valid and nullable +
  assumes not_nullable: "\<not> nullable"

definition option_valid :: "('t \<Rightarrow> bool) \<Rightarrow> 't option \<Rightarrow> bool" where
  "option_valid valid x \<longleftrightarrow> (case x of None \<Rightarrow> True | Some y \<Rightarrow> valid y)"

context nonnull_ref_cnt
begin

lemma option_ref_cnt:
  "ref_cnt (option_RefCnt T) cnt (unless_null up) (unless_null down) (option_valid valid) True"
proof
  fix x :: "'t option" and h :: "'v heap" and p q :: usize
  show "as_ptr (option_RefCnt T) x = into_ptr (option_RefCnt T) x"
    by (simp add: option_RefCnt_def option_as_ptr_def option_into_ptr_def as_ptr_eq split: option.splits)
  show "option_valid valid x \<Longrightarrow> from_ptr (option_RefCnt T) (into_ptr (option_RefCnt T) x) = x"
    using into_null not_nullable
    by (auto simp: option_valid_def option_RefCnt_def option_from_ptr_def option_into_ptr_def from_into
        split: option.splits)
  show "p \<noteq> 0 \<or> True \<Longrightarrow> into_ptr (option_RefCnt T) (from_ptr (option_RefCnt T) p) = p"
    by (simp add: option_RefCnt_def option_from_ptr_def option_into_ptr_def into_from)
  show "p \<noteq> 0 \<or> True \<Longrightarrow> option_valid valid (from_ptr (option_RefCnt T) p)"
    by (simp add: option_valid_def option_RefCnt_def option_from_ptr_def valid_from)
  show "option_valid valid x \<Longrightarrow> live_ptr True cnt h (into_ptr (option_RefCnt T) x) \<Longrightarrow>
      clone (option_RefCnt T) x h = Inr (unless_null up (into_ptr (option_RefCnt T) x) h)"
    using into_null[OF _ not_nullable]
    by (auto simp: option_valid_def option_RefCnt_def option_into_ptr_def option_clone_def
        unless_null_def live_ptr_def clone_live split: option.splits)
  show "option_valid valid x \<Longrightarrow> \<not> live_ptr True cnt h (into_ptr (option_RefCnt T) x) \<Longrightarrow>
      clone (option_RefCnt T) x h = Inl UseAfterFree"
    using not_nullable
    by (auto simp: option_valid_def option_RefCnt_def option_into_ptr_def option_clone_def
        live_ptr_def clone_dead split: option.splits)
  show "option_valid valid x \<Longrightarrow> live_ptr True cnt h (into_ptr (option_RefCnt T) x) \<Longrightarrow>
      drop_value (option_RefCnt T) x h = Inr (unless_null down (into_ptr (option_RefCnt T) x) h)"
    using into_null[OF _ not_nullable]
    by (auto simp: option_valid_def option_RefCnt_def option_into_ptr_def option_drop_def
        unless_null_def live_ptr_def drop_live split: option.splits)
  show "option_valid valid x \<Longrightarrow> \<not> live_ptr True cnt h (into_ptr (option_RefCnt T) x) \<Longrightarrow>
      drop_value (option_RefCnt T) x h = Inl UseAfterFree"
    using not_nullable
    by (auto simp: option_valid_def option_RefCnt_def option_into_ptr_def option_drop_def
        live_ptr_def drop_dead split: option.splits)
  show "cnt h 0 = 0" by (rule cnt_null)
  show "live_ptr True cnt h p \<Longrightarrow>
      cnt (unless_null up p h) q = cnt h q + (if q = p \<and> p \<noteq> 0 then 1 else 0)"
    by (auto simp: unless_null_def live_ptr_def cnt_up)
  show "live_ptr True cnt h p \<Longrightarrow>
      cnt (unless_null down p h) q = cnt h q - (if q = p \<and> p \<noteq> 0 then 1 else 0)"
    by (auto simp: unless_null_def live_ptr_def cnt_down)
  show "live_ptr True cnt h p \<Longrightarrow> unless_null down p (unless_null up p h) = h"
    by (auto simp: unless_null_def live_ptr_def down_up)
  show "value_at (unless_null up p h) q = value_at h q"
    by (simp add: unless_null_def value_up)
  show "q \<noteq> p \<or> 1 < cnt h p \<Longrightarrow> value_at (unless_null down p h) q = value_at h q"
    by (simp add: unless_null_def value_down)
qed simp

end

sublocale nonnull_ref_cnt \<subseteq> opt: ref_cnt "option_RefCnt T" cnt "unless_null up" "unless_null down"
  "option_valid valid" True
  by (rule option_ref_cnt)

section \<open>The implementations meet the contract\<close>

lemmas strong_defs = strong_rc_def strong_up_def strong_down_def put_cell_def value_at_def

lemmas weak_defs = weak_rc_def weak_up_def weak_down_def put_cell_def value_at_def

lemma strong_rc_null [simp]: "strong_rc h 0 = 0"
  by (simp add: strong_rc_def)

lemma weak_rc_null [simp]: "weak_rc h 0 = 0"
  by (simp add: weak_rc_def)

lemma strong_rc_up: "0 < strong_rc h p \<Longrightarrow> strong_rc (strong_up p h) q = strong_rc h q + (if q = p then 1 else 0)"
  by (auto simp: strong_defs split: option.splits if_splits)

lemma strong_rc_down: "0 < strong_rc h p \<Longrightarrow> strong_rc (strong_down p h) q = strong_rc h q - (if q = p then 1 else 0)"
  by (auto simp: strong_defs split: option.splits if_splits)

lemma strong_down_up: "0 < strong_rc h p \<Longrightarrow> strong_down p (strong_up p h) = h"
  by (auto simp: strong_defs fun_eq_iff split: option.splits if_splits)

lemma strong_value_up: "value_at (strong_up p h) q = value_at h q"
  by (auto simp: strong_defs split: option.splits)

lemma strong_value_down: "q \<noteq> p \<or> 1 < strong_rc h p \<Longrightarrow> value_at (strong_down p h) q = value_at h q"
  by (auto simp: strong_defs split: option.splits if_splits)

lemma weak_rc_up: "0 < weak_rc h p \<Longrightarrow> weak_rc (weak_up p h) q = weak_rc h q + (if q = p then 1 else 0)"
  by (auto simp: weak_defs split: option.splits if_splits)

lemma weak_rc_down: "0 < weak_rc h p \<Longrightarrow> weak_rc (weak_down p h) q = weak_rc h q - (if q = p then 1 else 0)"
  by (auto simp: weak_defs split: option.splits if_splits)

lemma weak_down_up: "0 < weak_rc h p \<Longrightarrow> weak_down p (weak_up p h) = h"
  by (auto simp: weak_defs fun_eq_iff split: option.splits if_splits)

lemma weak_value_up: "value_at (weak_up p h) q = value_at h q"
  by (auto simp: weak_defs split: option.splits)

lemma weak_value_down: "q \<noteq> p \<or> 1 < weak_rc h p \<Longrightarrow> value_at (weak_down p h) q = value_at h q"
  by (auto simp: weak_defs split: option.splits if_splits)

lemmas strong_laws = strong_rc_up strong_rc_down strong_down_up strong_value_up strong_value_down

lemmas weak_laws = weak_rc_up weak_rc_down weak_down_up weak_value_up weak_value_down

text \<open>
  Each implementation over an allocation comes down to the same counting: the value is a bare
  address, cloned and dropped through one of the two counters.
\<close>

lemma nonnull_ref_cntI:
  assumes "\<And>x. as_ptr T x = into_ptr T x"
    and "\<And>x. from_ptr T (into_ptr T x) = x"
    and "\<And>p. into_ptr T (from_ptr T p) = p"
    and "\<And>x h. clone T x h = (if strong_rc h (into_ptr T x) = 0 then Inl UseAfterFree
            else Inr (strong_up (into_ptr T x) h))"
    and "\<And>x h. drop_value T x h = (if strong_rc h (into_ptr T x) = 0 then Inl UseAfterFree
            else Inr (strong_down (into_ptr T x) h))"
    and "\<And>x. valid x \<longleftrightarrow> into_ptr T x \<noteq> 0"
  shows "nonnull_ref_cnt T strong_rc strong_up strong_down valid False"
  by unfold_locales (auto simp: assms live_ptr_def strong_laws)

lemma weak_ref_cntI:
  assumes "\<And>x. as_ptr T x = into_ptr T x"
    and "\<And>x. valid x \<Longrightarrow> from_ptr T (into_ptr T x) = x"
    and "\<And>p. into_ptr T (from_ptr T p) = p"
    and "\<And>p. valid (from_ptr T p)"
    and "\<And>x h. valid x \<Longrightarrow> clone T x h = (if into_ptr T x = 0 then Inr h
            else if weak_rc h (into_ptr T x) = 0 then Inl UseAfterFree else Inr (weak_up (into_ptr T x) h))"
    and "\<And>x h. valid x \<Longrightarrow> drop_value T x h = (if into_ptr T x = 0 then Inr h
            else if weak_rc h (into_ptr T x) = 0 then Inl UseAfterFree else Inr (weak_down (into_ptr T x) h))"
  shows "ref_cnt T weak_rc (unless_null weak_up) (unless_null weak_down) valid True"
  by unfold_locales (auto simp: assms live_ptr_def unless_null_def weak_laws)

definition arc_valid :: "arc \<Rightarrow> bool" where
  "arc_valid me \<longleftrightarrow> arc_into_raw me \<noteq> 0"

definition rc_valid :: "rc \<Rightarrow> bool" where
  "rc_valid me \<longleftrightarrow> rc_into_raw me \<noteq> 0"

definition pin_valid :: "('t \<Rightarrow> bool) \<Rightarrow> 't pin \<Rightarrow> bool" where
  "pin_valid valid me \<longleftrightarrow> valid (pin_into_inner me)"

fun weak_valid :: "weak_ptr \<Rightarrow> bool" where
  "weak_valid WeakNew \<longleftrightarrow> True"
| "weak_valid (WeakTo p) \<longleftrightarrow> p \<noteq> 0"

fun rc_weak_valid :: "rc_weak_ptr \<Rightarrow> bool" where
  "rc_weak_valid RcWeakNew \<longleftrightarrow> True"
| "rc_weak_valid (RcWeakTo p) \<longleftrightarrow> p \<noteq> 0"

interpretation arc: nonnull_ref_cnt arc_RefCnt strong_rc strong_up strong_down
  arc_valid False
proof (rule nonnull_ref_cntI)
  show "from_ptr arc_RefCnt (into_ptr arc_RefCnt x) = x" for x
    by (cases x) (simp add: arc_RefCnt_def arc_from_raw_def)
qed (simp_all add: arc_RefCnt_def arc_as_ptr_def arc_from_raw_def arc_clone_def arc_drop_def arc_valid_def pin_valid_def)

interpretation rc: nonnull_ref_cnt rc_RefCnt strong_rc strong_up strong_down
  rc_valid False
proof (rule nonnull_ref_cntI)
  show "from_ptr rc_RefCnt (into_ptr rc_RefCnt x) = x" for x
    by (cases x) (simp add: rc_RefCnt_def rc_from_raw_def)
qed (simp_all add: rc_RefCnt_def rc_as_ptr_def rc_from_raw_def rc_clone_def rc_drop_def rc_valid_def pin_valid_def)

interpretation pin_arc: nonnull_ref_cnt pin_arc_RefCnt strong_rc strong_up strong_down
  "pin_valid arc_valid" False
proof (rule nonnull_ref_cntI)
  show "from_ptr pin_arc_RefCnt (into_ptr pin_arc_RefCnt x) = x" for x
    by (cases x; cases "pin_into_inner x") (simp add: pin_arc_RefCnt_def arc_from_raw_def)
qed (simp_all add: pin_arc_RefCnt_def arc_from_raw_def arc_clone_def arc_drop_def arc_valid_def pin_valid_def)

interpretation pin_rc: nonnull_ref_cnt pin_rc_RefCnt strong_rc strong_up strong_down
  "pin_valid rc_valid" False
proof (rule nonnull_ref_cntI)
  show "from_ptr pin_rc_RefCnt (into_ptr pin_rc_RefCnt x) = x" for x
    by (cases x; cases "pin_into_inner x") (simp add: pin_rc_RefCnt_def rc_from_raw_def)
qed (simp_all add: pin_rc_RefCnt_def rc_from_raw_def rc_clone_def rc_drop_def rc_valid_def pin_valid_def)

interpretation weak: ref_cnt weak_RefCnt weak_rc "unless_null weak_up" "unless_null weak_down" weak_valid True
proof (rule weak_ref_cntI)
  show "weak_valid x \<Longrightarrow> from_ptr weak_RefCnt (into_ptr weak_RefCnt x) = x" for x
    by (cases x) (simp_all add: weak_RefCnt_def weak_ptr_eq_new_def)
  show "weak_valid x \<Longrightarrow> clone weak_RefCnt x h = (if into_ptr weak_RefCnt x = 0 then Inr h
      else if weak_rc h (into_ptr weak_RefCnt x) = 0 then Inl UseAfterFree
      else Inr (weak_up (into_ptr weak_RefCnt x) h))" for x h
    by (cases x) (simp_all add: weak_RefCnt_def weak_ptr_eq_new_def weak_clone_def)
  show "weak_valid x \<Longrightarrow> drop_value weak_RefCnt x h = (if into_ptr weak_RefCnt x = 0 then Inr h
      else if weak_rc h (into_ptr weak_RefCnt x) = 0 then Inl UseAfterFree
      else Inr (weak_down (into_ptr weak_RefCnt x) h))" for x h
    by (cases x) (simp_all add: weak_RefCnt_def weak_ptr_eq_new_def weak_drop_def)
qed (simp_all add: weak_RefCnt_def weak_ptr_eq_new_def)

interpretation rc_weak: ref_cnt rc_weak_RefCnt weak_rc "unless_null weak_up" "unless_null weak_down"
  rc_weak_valid True
proof (rule weak_ref_cntI)
  show "rc_weak_valid x \<Longrightarrow> from_ptr rc_weak_RefCnt (into_ptr rc_weak_RefCnt x) = x" for x
    by (cases x) (simp_all add: rc_weak_RefCnt_def rc_weak_ptr_eq_new_def)
  show "rc_weak_valid x \<Longrightarrow> clone rc_weak_RefCnt x h = (if into_ptr rc_weak_RefCnt x = 0 then Inr h
      else if weak_rc h (into_ptr rc_weak_RefCnt x) = 0 then Inl UseAfterFree
      else Inr (weak_up (into_ptr rc_weak_RefCnt x) h))" for x h
    by (cases x) (simp_all add: rc_weak_RefCnt_def rc_weak_ptr_eq_new_def rc_weak_clone_def)
  show "rc_weak_valid x \<Longrightarrow> drop_value rc_weak_RefCnt x h = (if into_ptr rc_weak_RefCnt x = 0 then Inr h
      else if weak_rc h (into_ptr rc_weak_RefCnt x) = 0 then Inl UseAfterFree
      else Inr (weak_down (into_ptr rc_weak_RefCnt x) h))" for x h
    by (cases x) (simp_all add: rc_weak_RefCnt_def rc_weak_ptr_eq_new_def rc_weak_drop_def)
qed (simp_all add: rc_weak_RefCnt_def rc_weak_ptr_eq_new_def)

text \<open>The raw form of a value that is not null, and which values are valid.\<close>

lemmas raw_values = arc_RefCnt_def rc_RefCnt_def pin_arc_RefCnt_def pin_rc_RefCnt_def weak_RefCnt_def rc_weak_RefCnt_def
  option_RefCnt_def option_into_ptr_def weak_ptr_eq_new_def rc_weak_ptr_eq_new_def arc_valid_def rc_valid_def pin_valid_def
  option_valid_def

end
