(* ===== verification/Machine.thy ===== *)
theory Machine
  imports RefCnt
begin

text \<open>
  The shared memory and the thread that runs on it.

  The structs of \<^verbatim>\<open>src/debt/\<close> become records. A \<open>Node\<close> lives at an address; the static
  \<open>LIST_HEAD\<close> and the \<open>next\<close> fields chain the nodes. A \<open>&'static Debt\<close> is a \<open>Debt\<close>:
  which node and which of its slots. Every \<open>ArcSwapAny\<close> is an entry of \<open>storage\<close>, the address
  of its \<open>AtomicPtr\<close> mapped to the pointer inside.

  A \<open>world\<close> is the shared memory as one thread sees it: its thread-local \<open>LocalNode\<close>,
  whether its thread-local storage is still alive, and the interference of the other threads.
  Every atomic access first lets the next element of \<open>sched\<close> act on the shared memory; an
  empty \<open>sched\<close> is a thread that runs alone. \<open>weak_cas\<close> lists the spurious failures the
  processor injects into \<open>compare_exchange_weak\<close>, and \<open>fuel\<close> bounds the retry loops.
  Memory orderings are not distinguished: every access is taken in one total order, which is what
  the SeqCst accesses of the source ask for.
\<close>

section \<open>Structs of the debt list\<close>

text \<open>\<open>debt/helping.rs: Slots\<close>. The field \<open>handover\<close> is the address of the node's own
  envelope, whose contents are in \<open>envelopes\<close>.\<close>

record HelpingSlots =
  control :: usize
  slot :: usize
  active_addr :: usize
  handover :: usize
  space_offer :: usize

text \<open>\<open>debt/list.rs: Node\<close>.\<close>

record Node =
  fast :: "usize list"
  helping :: HelpingSlots
  in_use :: usize
  next_node :: usize
  active_writers :: usize

text \<open>\<open>debt/list.rs: LocalNode\<close>, with \<open>fast.offset\<close> and \<open>helping.generation\<close> inlined.\<close>

record LocalNode =
  node :: "usize option"
  offset :: usize
  generation :: usize

text \<open>A reference to a debt slot.\<close>

datatype Debt = FastDebt usize nat | HelpingDebt usize

section \<open>Shared memory and world\<close>

text \<open>
  \<open>box_supply\<close> holds the addresses the allocator will hand out for \<open>Box<Node>\<close>, each with the
  address of the envelope inside that box; \<open>arc_supply\<close> those for \<open>Arc::new\<close>.
  \<open>node_cnt\<close> counts the nodes pushed so far; it bounds a walk along the chain. \<open>rw_readers\<close> and
  \<open>rw_writer\<close> are the states of the \<open>RwLock<()>\<close>s that serve as strategies, each named by the
  address of the storage it belongs to.
\<close>

record 'v shared =
  heap :: "'v heap"
  envelopes :: "usize \<Rightarrow> usize option"
  storage :: "usize \<Rightarrow> usize option"
  nodes :: "usize \<Rightarrow> Node option"
  list_head :: usize
  node_cnt :: nat
  box_supply :: "(usize \<times> usize) list"
  arc_supply :: "usize list"
  rw_readers :: "usize \<Rightarrow> nat"
  rw_writer :: "usize \<Rightarrow> bool"

record 'v world =
  sh :: "'v shared"
  loc :: LocalNode
  tls_alive :: bool
  sched :: "('v shared \<Rightarrow> 'v shared) list"
  weak_cas :: "bool list"
  fuel :: nat

type_synonym ('v, 'a) prog = "('v world, 'a) comp"

section \<open>Atomic access\<close>

definition interfere :: "'v world \<Rightarrow> 'v world" where
  "interfere w = (case sched w of [] \<Rightarrow> w | g # gs \<Rightarrow> w\<lparr>sh := g (sh w), sched := gs\<rparr>)"

definition atomic :: "('v shared \<Rightarrow> fault + ('a \<times> 'v shared)) \<Rightarrow> ('v, 'a) prog" where
  "atomic f w =
     (let w1 = interfere w
      in case f (sh w1) of Inl e \<Rightarrow> (Inl e, w1) | Inr (x, s) \<Rightarrow> (Inr x, w1\<lparr>sh := s\<rparr>))"

text \<open>One atomic access to a field of the node at \<open>n\<close>: a load, or a read-modify-write.\<close>

definition node_read :: "usize \<Rightarrow> (Node \<Rightarrow> 'a) \<Rightarrow> ('v, 'a) prog" where
  "node_read n f =
     atomic (\<lambda>s. case nodes s n of None \<Rightarrow> Inl Dangling | Some nd \<Rightarrow> Inr (f nd, s))"

definition node_rmw :: "usize \<Rightarrow> (Node \<Rightarrow> 'a \<times> Node) \<Rightarrow> ('v, 'a) prog" where
  "node_rmw n f =
     atomic (\<lambda>s. case nodes s n of None \<Rightarrow> Inl Dangling
       | Some nd \<Rightarrow> (case f nd of (x, nd') \<Rightarrow> Inr (x, s\<lparr>nodes := (nodes s)(n \<mapsto> nd')\<rparr>)))"

text \<open>The slot behind a \<open>Debt\<close>; indexing an array out of range panics.\<close>

fun slot_rmw :: "Debt \<Rightarrow> (usize \<Rightarrow> 'a \<times> usize) \<Rightarrow> ('v, 'a) prog" where
  "slot_rmw (FastDebt n i) f =
     atomic (\<lambda>s. case nodes s n of None \<Rightarrow> Inl Dangling
       | Some nd \<Rightarrow>
           if i < length (fast nd)
           then (case f (fast nd ! i) of (x, v) \<Rightarrow>
                   Inr (x, s\<lparr>nodes := (nodes s)(n \<mapsto> nd\<lparr>fast := (fast nd)[i := v]\<rparr>)\<rparr>))
           else Inl IndexOutOfBounds)"
| "slot_rmw (HelpingDebt n) f =
     node_rmw n (\<lambda>nd. case f (slot (helping nd)) of (x, v) \<Rightarrow>
                   (x, nd\<lparr>helping := (helping nd)\<lparr>slot := v\<rparr>\<rparr>))"

definition slot_load :: "Debt \<Rightarrow> ('v, usize) prog" where
  "slot_load d = slot_rmw d (\<lambda>v. (v, v))"

definition slot_swap :: "Debt \<Rightarrow> usize \<Rightarrow> ('v, usize) prog" where
  "slot_swap d p = slot_rmw d (\<lambda>v. (v, p))"

text \<open>\<open>compare_exchange\<close>: the flag says whether the exchange happened.\<close>

definition slot_cas :: "Debt \<Rightarrow> usize \<Rightarrow> usize \<Rightarrow> ('v, bool) prog" where
  "slot_cas d old new = slot_rmw d (\<lambda>v. if v = old then (True, new) else (False, v))"

text \<open>The pointer inside a storage.\<close>

definition storage_rmw :: "usize \<Rightarrow> (usize \<Rightarrow> 'a \<times> usize) \<Rightarrow> ('v, 'a) prog" where
  "storage_rmw a f =
     atomic (\<lambda>s. case storage s a of None \<Rightarrow> Inl Dangling
       | Some p \<Rightarrow> (case f p of (x, q) \<Rightarrow> Inr (x, s\<lparr>storage := (storage s)(a \<mapsto> q)\<rparr>)))"

definition storage_load :: "usize \<Rightarrow> ('v, usize) prog" where
  "storage_load a = storage_rmw a (\<lambda>p. (p, p))"

definition storage_swap :: "usize \<Rightarrow> usize \<Rightarrow> ('v, usize) prog" where
  "storage_swap a q = storage_rmw a (\<lambda>p. (p, q))"

definition storage_cas :: "usize \<Rightarrow> usize \<Rightarrow> usize \<Rightarrow> ('v, usize \<times> bool) prog" where
  "storage_cas a old new = storage_rmw a (\<lambda>p. if p = old then ((p, True), new) else ((p, False), p))"

text \<open>Whether the next \<open>compare_exchange_weak\<close> fails although the values match.\<close>

definition spurious :: "('v, bool) prog" where
  "spurious w = (case weak_cas w of [] \<Rightarrow> (Inr False, w) | b # bs \<Rightarrow> (Inr b, w\<lparr>weak_cas := bs\<rparr>))"

definition storage_cas_weak :: "usize \<Rightarrow> usize \<Rightarrow> usize \<Rightarrow> ('v, bool) prog" where
  "storage_cas_weak a old new =
     bnd spurious (\<lambda>fails.
     storage_rmw a (\<lambda>p. if p = old \<and> \<not> fails then (True, new) else (False, p)))"

text \<open>Counting operations of a \<open>RefCnt\<close> type, as one atomic access to the heap.\<close>

definition inc_value :: "('t, 'v) RefCnt \<Rightarrow> 't \<Rightarrow> ('v, usize) prog" where
  "inc_value T x =
     atomic (\<lambda>s. case inc T x (heap s) of Inl e \<Rightarrow> Inl e | Inr (p, h) \<Rightarrow> Inr (p, s\<lparr>heap := h\<rparr>))"

definition dec_ptr :: "('t, 'v) RefCnt \<Rightarrow> usize \<Rightarrow> ('v, unit) prog" where
  "dec_ptr T p =
     atomic (\<lambda>s. case dec T p (heap s) of Inl e \<Rightarrow> Inl e | Inr h \<Rightarrow> Inr ((), s\<lparr>heap := h\<rparr>))"

definition drop_val :: "('t, 'v) RefCnt \<Rightarrow> 't \<Rightarrow> ('v, unit) prog" where
  "drop_val T x =
     atomic (\<lambda>s. case drop_value T x (heap s) of Inl e \<Rightarrow> Inl e | Inr h \<Rightarrow> Inr ((), s\<lparr>heap := h\<rparr>))"

definition clone_val :: "('t, 'v) RefCnt \<Rightarrow> 't \<Rightarrow> ('v, 't) prog" where
  "clone_val T x =
     atomic (\<lambda>s. case clone T x (heap s) of Inl e \<Rightarrow> Inl e | Inr h \<Rightarrow> Inr (x, s\<lparr>heap := h\<rparr>))"

text \<open>\<open>Arc::new\<close>: the allocator picks the next address of its supply.\<close>

definition arc_new :: "'v \<Rightarrow> ('v, arc) prog" where
  "arc_new v =
     atomic (\<lambda>s. case arc_supply s of [] \<Rightarrow> Inl OutOfMemory
       | p # ps \<Rightarrow> Inr (Arc p, s\<lparr>arc_supply := ps,
            heap := (heap s)(p \<mapsto> \<lparr>strong = 1, weak = 0, payload = v\<rparr>)\<rparr>))"

text \<open>Thread-local cells need no atomicity.\<close>

definition get_loc :: "('v, LocalNode) prog" where
  "get_loc w = (Inr (loc w), w)"

definition modify_loc :: "(LocalNode \<Rightarrow> LocalNode) \<Rightarrow> ('v, unit) prog" where
  "modify_loc f w = (Inr (), w\<lparr>loc := f (loc w)\<rparr>)"

definition get_fuel :: "('v, nat) prog" where
  "get_fuel w = (Inr (fuel w), w)"

section \<open>Running alone\<close>

text \<open>Equations for a thread that meets no interference; they drive all sequential proofs.\<close>

definition solo :: "'v world \<Rightarrow> bool" where
  "solo w \<longleftrightarrow> sched w = []"

lemma solo_update [simp]:
  "solo (w\<lparr>sh := s\<rparr>) = solo w" "solo (w\<lparr>loc := l\<rparr>) = solo w"
  "solo (w\<lparr>weak_cas := bs\<rparr>) = solo w" "solo (w\<lparr>tls_alive := b\<rparr>) = solo w"
  by (simp_all add: solo_def)

text \<open>How many spurious failures the processor still has in store.\<close>

definition spurious_left :: "'v world \<Rightarrow> nat" where
  "spurious_left w = length (filter (\<lambda>b. b) (weak_cas w))"

lemma takeWhile_filter_length: "length (takeWhile P xs) \<le> length (filter P xs)"
  by (induction xs) auto

lemma filter_dropWhile_length: "length (filter Q (tl (dropWhile P xs))) \<le> length (filter Q xs)"
  by (induction xs) (auto intro: le_SucI)

lemma bnd_apply [exec]:
  "bnd m f s = (case m s of (Inl e, s') \<Rightarrow> (Inl e, s') | (Inr x, s') \<Rightarrow> f x s')"
  by (simp add: bnd_def)

lemma interfere_solo [simp]: "solo w \<Longrightarrow> interfere w = w"
  by (simp add: solo_def interfere_def)

lemma atomic_solo [exec]:
  "solo w \<Longrightarrow> atomic f w =
     (case f (sh w) of Inl e \<Rightarrow> (Inl e, w) | Inr (x, s) \<Rightarrow> (Inr x, w\<lparr>sh := s\<rparr>))"
  by (simp add: atomic_def)

lemma node_read_solo [exec]:
  "solo w \<Longrightarrow> nodes (sh w) n = Some nd \<Longrightarrow> node_read n f w = (Inr (f nd), w)"
  by (simp add: node_read_def atomic_solo)

lemma node_rmw_solo [exec]:
  "solo w \<Longrightarrow> nodes (sh w) n = Some nd \<Longrightarrow> f nd = (x, nd') \<Longrightarrow>
   node_rmw n f w = (Inr x, w\<lparr>sh := (sh w)\<lparr>nodes := (nodes (sh w))(n \<mapsto> nd')\<rparr>\<rparr>)"
  by (simp add: node_rmw_def atomic_solo)

text \<open>The value of a slot and the memory after a slot is overwritten.\<close>

fun slot_get :: "'v shared \<Rightarrow> Debt \<Rightarrow> usize option" where
  "slot_get s (FastDebt n i) =
     (case nodes s n of None \<Rightarrow> None | Some nd \<Rightarrow> if i < length (fast nd) then Some (fast nd ! i) else None)"
| "slot_get s (HelpingDebt n) = map_option (\<lambda>nd. slot (helping nd)) (nodes s n)"

fun node_set_slot :: "Debt \<Rightarrow> usize \<Rightarrow> Node \<Rightarrow> Node" where
  "node_set_slot (FastDebt n i) v nd = nd\<lparr>fast := (fast nd)[i := v]\<rparr>"
| "node_set_slot (HelpingDebt n) v nd = nd\<lparr>helping := (helping nd)\<lparr>slot := v\<rparr>\<rparr>"

fun debt_node :: "Debt \<Rightarrow> usize" where
  "debt_node (FastDebt n i) = n"
| "debt_node (HelpingDebt n) = n"

definition slot_set :: "Debt \<Rightarrow> usize \<Rightarrow> 'v shared \<Rightarrow> 'v shared" where
  "slot_set d v s = s\<lparr>nodes := (nodes s)(debt_node d := map_option (node_set_slot d v) (nodes s (debt_node d)))\<rparr>"

lemma slot_rmw_step:
  assumes "slot_get (sh (interfere w)) d = Some v" and "f v = (x, v')"
  shows "slot_rmw d f w = (Inr x, (interfere w)\<lparr>sh := slot_set d v' (sh (interfere w))\<rparr>)"
  using assms
  by (cases d) (auto simp: atomic_def node_rmw_def slot_set_def Let_def split: option.splits if_splits)

lemma slot_rmw_solo [exec]:
  "solo w \<Longrightarrow> slot_get (sh w) d = Some v \<Longrightarrow> f v = (x, v') \<Longrightarrow>
   slot_rmw d f w = (Inr x, w\<lparr>sh := slot_set d v' (sh w)\<rparr>)"
  by (simp add: slot_rmw_step)

lemma slot_get_set [simp]:
  "slot_get s d = Some v \<Longrightarrow> slot_get (slot_set d v' s) d = Some v'"
  by (cases d) (auto simp: slot_set_def split: option.splits if_splits)

lemma slot_get_set_other [simp]: "d \<noteq> e \<Longrightarrow> slot_get (slot_set d v s) e = slot_get s e"
  by (cases d; cases e) (auto simp: slot_set_def option.map_comp comp_def split: option.splits if_splits)

lemma node_set_slot_same: "slot_get s d = Some v \<Longrightarrow> nodes s (debt_node d) = Some nd \<Longrightarrow> node_set_slot d v nd = nd"
  by (cases d) (auto split: if_splits)

lemma slot_set_same [simp]: "slot_get s d = Some v \<Longrightarrow> slot_set d v s = s"
proof -
  assume a: "slot_get s d = Some v"
  then obtain nd where nd: "nodes s (debt_node d) = Some nd"
    by (cases d) (auto split: option.splits)
  have "(nodes s)(debt_node d \<mapsto> nd) = nodes s"
    using nd by (simp add: fun_upd_idem)
  then show ?thesis using nd node_set_slot_same[OF a nd] by (simp add: slot_set_def)
qed

lemma node_set_slot_twice [simp]: "node_set_slot d v' (node_set_slot d v nd) = node_set_slot d v' nd"
  by (cases d) auto

lemma slot_set_set [simp]: "slot_set d v' (slot_set d v s) = slot_set d v' s"
  by (simp add: slot_set_def option.map_comp comp_def)

lemma slot_set_frame [simp]:
  "heap (slot_set d v s) = heap s" "storage (slot_set d v s) = storage s"
  "list_head (slot_set d v s) = list_head s" "node_cnt (slot_set d v s) = node_cnt s"
  "envelopes (slot_set d v s) = envelopes s" "box_supply (slot_set d v s) = box_supply s"
  "arc_supply (slot_set d v s) = arc_supply s" "rw_readers (slot_set d v s) = rw_readers s"
  "rw_writer (slot_set d v s) = rw_writer s"
  by (simp_all add: slot_set_def)

lemma slot_load_solo [exec]:
  "solo w \<Longrightarrow> slot_get (sh w) d = Some v \<Longrightarrow> slot_load d w = (Inr v, w)"
  by (simp add: slot_load_def slot_rmw_solo)

lemma slot_swap_solo [exec]:
  "solo w \<Longrightarrow> slot_get (sh w) d = Some v \<Longrightarrow> slot_swap d p w = (Inr v, w\<lparr>sh := slot_set d p (sh w)\<rparr>)"
  by (simp add: slot_swap_def slot_rmw_solo)

lemma slot_cas_solo [exec]:
  "solo w \<Longrightarrow> slot_get (sh w) d = Some v \<Longrightarrow>
   slot_cas d old new w = (Inr (v = old), w\<lparr>sh := if v = old then slot_set d new (sh w) else sh w\<rparr>)"
  by (auto simp: slot_cas_def slot_rmw_solo)

lemma storage_rmw_solo [exec]:
  "solo w \<Longrightarrow> storage (sh w) a = Some p \<Longrightarrow> f p = (x, q) \<Longrightarrow>
   storage_rmw a f w = (Inr x, w\<lparr>sh := (sh w)\<lparr>storage := (storage (sh w))(a \<mapsto> q)\<rparr>\<rparr>)"
  by (simp add: storage_rmw_def atomic_solo)

lemma storage_load_solo [exec]:
  "solo w \<Longrightarrow> storage (sh w) a = Some p \<Longrightarrow> storage_load a w = (Inr p, w)"
  by (simp add: storage_load_def storage_rmw_solo fun_upd_idem)

lemma storage_swap_solo [exec]:
  "solo w \<Longrightarrow> storage (sh w) a = Some p \<Longrightarrow>
   storage_swap a q w = (Inr p, w\<lparr>sh := (sh w)\<lparr>storage := (storage (sh w))(a \<mapsto> q)\<rparr>\<rparr>)"
  by (simp add: storage_swap_def storage_rmw_solo)

lemma storage_cas_solo [exec]:
  "solo w \<Longrightarrow> storage (sh w) a = Some p \<Longrightarrow>
   storage_cas a old new w = (Inr (p, p = old),
     w\<lparr>sh := (if p = old then (sh w)\<lparr>storage := (storage (sh w))(a \<mapsto> new)\<rparr> else sh w)\<rparr>)"
  by (simp add: storage_cas_def storage_rmw_solo fun_upd_idem)

lemma storage_rmw_keep: "solo w \<Longrightarrow> storage (sh w) a = Some p \<Longrightarrow> storage_rmw a (Pair x) w = (Inr x, w)"
  using storage_rmw_solo[of w a p "Pair x" x p] by (simp add: fun_upd_idem)

lemma storage_cas_weak_fail [exec]:
  assumes "solo w" and "storage (sh w) a = Some p" and "p \<noteq> old \<or> (\<exists>bs. weak_cas w = True # bs)"
  shows "storage_cas_weak a old new w = (Inr False, w\<lparr>weak_cas := tl (weak_cas w)\<rparr>)"
proof (cases "\<exists>bs. weak_cas w = True # bs")
  case True
  then show ?thesis
    using assms by (auto simp: storage_cas_weak_def bnd_apply spurious_def storage_rmw_keep)
next
  case False
  have "p \<noteq> old" using False assms(3) by blast
  then show ?thesis
    using assms(1,2)
    by (cases "weak_cas w") (auto simp: storage_cas_weak_def bnd_apply spurious_def storage_rmw_solo
        storage_rmw_keep fun_upd_idem)
qed

lemma storage_cas_weak_ok [exec]:
  "solo w \<Longrightarrow> storage (sh w) a = Some old \<Longrightarrow> \<nexists>bs. weak_cas w = True # bs \<Longrightarrow>
   storage_cas_weak a old new w =
     (Inr True, w\<lparr>weak_cas := tl (weak_cas w), sh := (sh w)\<lparr>storage := (storage (sh w))(a \<mapsto> new)\<rparr>\<rparr>)"
  by (auto simp: storage_cas_weak_def bnd_apply spurious_def storage_rmw_solo split: list.splits)

lemma loc_exec [exec]:
  "get_loc w = (Inr (loc w), w)" "modify_loc f w = (Inr (), w\<lparr>loc := f (loc w)\<rparr>)"
  "get_fuel w = (Inr (fuel w), w)"
  by (simp_all add: get_loc_def modify_loc_def get_fuel_def)

text \<open>The counting operations of any type that meets the contract.\<close>

context ref_cnt
begin

lemma inc_value_solo:
  "solo w \<Longrightarrow> live (heap (sh w)) p \<Longrightarrow>
   inc_value T (from_ptr T p) w = (Inr p, w\<lparr>sh := (sh w)\<lparr>heap := up p (heap (sh w))\<rparr>\<rparr>)"
  by (simp add: inc_value_def atomic_solo inc_live)

lemma dec_ptr_solo:
  "solo w \<Longrightarrow> live (heap (sh w)) p \<Longrightarrow>
   dec_ptr T p w = (Inr (), w\<lparr>sh := (sh w)\<lparr>heap := down p (heap (sh w))\<rparr>\<rparr>)"
  by (simp add: dec_ptr_def atomic_solo dec_live)

lemma drop_val_solo:
  "solo w \<Longrightarrow> valid x \<Longrightarrow> live (heap (sh w)) (into_ptr T x) \<Longrightarrow>
   drop_val T x w = (Inr (), w\<lparr>sh := (sh w)\<lparr>heap := down (into_ptr T x) (heap (sh w))\<rparr>\<rparr>)"
  by (simp add: drop_val_def atomic_solo drop_live)

lemma drop_val_from_ptr_solo:
  assumes "solo w" and "live (heap (sh w)) p"
  shows "drop_val T (from_ptr T p) w = (Inr (), w\<lparr>sh := (sh w)\<lparr>heap := down p (heap (sh w))\<rparr>\<rparr>)"
  using assms live_valid[OF assms(2)] by (simp add: drop_val_solo)

end

end
