(* ===== verification/Debt.thy ===== *)
theory Debt
  imports Machine
begin

text \<open>
  One debt slot: \<open>Debt::NONE\<close> and \<open>Debt::pay\<close> of \<^verbatim>\<open>src/debt/mod.rs\<close>. (\<open>Debt::pay_all\<close>,
  which walks the whole list, is in \<open>PayAll\<close>.)
\<close>

definition NONE :: usize where
  "NONE = 3"

definition pay :: "Debt \<Rightarrow> usize \<Rightarrow> ('v, bool) prog" where
  "pay d ptr = slot_cas d ptr NONE"

lemma pay_solo [exec]:
  "solo w \<Longrightarrow> slot_get (sh w) d = Some v \<Longrightarrow>
   pay d ptr w = (Inr (v = ptr), w\<lparr>sh := if v = ptr then slot_set d NONE (sh w) else sh w\<rparr>)"
  by (simp add: pay_def slot_cas_solo)

text \<open>
  Under interference, \<open>pay\<close> acts on whatever the other threads left in the slot: it either
  finds the pointer and clears the slot, or leaves the memory exactly as it found it.
\<close>

lemma pay_interfered:
  assumes "slot_get (sh (interfere w)) d = Some v"
  shows "pay d ptr w = (Inr (v = ptr),
           (interfere w)\<lparr>sh := if v = ptr then slot_set d NONE (sh (interfere w)) else sh (interfere w)\<rparr>)"
  using assms by (auto simp: pay_def slot_cas_def slot_rmw_step)

end
