(* ===== verification/FastSlots.thy ===== *)
theory FastSlots
  imports Debt
begin

text \<open>
  The fast slots, \<^verbatim>\<open>src/debt/fast.rs\<close>: eight debts per node, claimed by round robin.
  The slots of a node are its list \<open>fast\<close>; the \<open>Local\<close> of this file is the field \<open>offset\<close>
  of \<open>LocalNode\<close>.
\<close>

definition DEBT_SLOT_CNT :: nat where
  "DEBT_SLOT_CNT = 8"

definition fast_default :: "usize list" where
  "fast_default = replicate DEBT_SLOT_CNT NONE"

text \<open>The loop of \<open>Slots::get_debt\<close>, over the remaining values of the loop variable.\<close>

fun fast_scan :: "usize \<Rightarrow> usize \<Rightarrow> usize \<Rightarrow> nat list \<Rightarrow> ('v, Debt option) prog" where
  "fast_scan n ptr off [] = ret None"
| "fast_scan n ptr off (i # is) =
     (let j = unat ((of_nat i + off) mod of_nat DEBT_SLOT_CNT) in
      bnd (slot_load (FastDebt n j)) (\<lambda>v.
      if v = NONE then
        bnd (slot_swap (FastDebt n j) ptr) (\<lambda>old.
        bnd (debug_assert (NONE = old)) (\<lambda>_.
        bnd (modify_loc (\<lambda>l. l\<lparr>offset := of_nat j + 1\<rparr>)) (\<lambda>_.
        ret (Some (FastDebt n j)))))
      else fast_scan n ptr off is))"

definition fast_get_debt :: "usize \<Rightarrow> usize \<Rightarrow> ('v, Debt option) prog" where
  "fast_get_debt n ptr =
     bnd get_loc (\<lambda>l. fast_scan n ptr (offset l) [0..<DEBT_SLOT_CNT])"

section \<open>What a claim does\<close>

text \<open>The slot the round robin picks: the first free one in rotated order.\<close>

definition rotated :: "nat \<Rightarrow> nat list" where
  "rotated k = map (\<lambda>i. (i + k) mod DEBT_SLOT_CNT) [0..<DEBT_SLOT_CNT]"

definition fast_pick :: "usize list \<Rightarrow> usize \<Rightarrow> nat option" where
  "fast_pick vs off = find (\<lambda>j. vs ! j = NONE) (rotated (unat off))"

lemma rotated_set: "set (rotated k) = {..<DEBT_SLOT_CNT}"
proof
  show "{..<DEBT_SLOT_CNT} \<subseteq> set (rotated k)"
  proof
    fix j assume "j \<in> {..<DEBT_SLOT_CNT}"
    then have j: "j < 8" by (simp add: DEBT_SLOT_CNT_def)
    let ?i = "(j + (8 - k mod 8)) mod 8"
    have "(?i + k) mod 8 = (j + (8 - k mod 8) + k mod 8) mod 8"
      by (simp only: mod_add_left_eq mod_add_right_eq)
    also have "j + (8 - k mod 8) + k mod 8 = j + 8"
      using mod_less_divisor[of 8 k] by linarith
    finally have "j = (?i + k) mod 8" using j by simp
    moreover have "?i \<in> set [0..<8]" by simp
    ultimately have "j \<in> (\<lambda>i. (i + k) mod 8) ` set [0..<8]" by blast
    then show "j \<in> set (rotated k)"
      by (simp only: rotated_def DEBT_SLOT_CNT_def set_map)
  qed
qed (auto simp: rotated_def DEBT_SLOT_CNT_def)

lemma unat_slot_index: "unat ((of_nat i + off) mod (of_nat DEBT_SLOT_CNT :: usize)) = (i + unat off) mod DEBT_SLOT_CNT"
proof -
  have "unat (of_nat i + off :: usize) = (i + unat off) mod 2 ^ 64"
    by (simp add: unat_word_ariths unat_of_nat mod_simps)
  moreover have "(i + unat off) mod 2 ^ 64 mod 8 = (i + unat off) mod 8"
    by (rule mod_mod_cancel) simp
  ultimately show ?thesis by (simp add: DEBT_SLOT_CNT_def unat_mod)
qed

lemma fast_scan_solo:
  assumes "solo w" and "nodes (sh w) n = Some nd" and "length (fast nd) = DEBT_SLOT_CNT"
  shows "fast_scan n ptr off is w =
    (case find (\<lambda>j. fast nd ! j = NONE) (map (\<lambda>i. (i + unat off) mod DEBT_SLOT_CNT) is) of
       None \<Rightarrow> (Inr None, w)
     | Some j \<Rightarrow> (Inr (Some (FastDebt n j)),
         w\<lparr>sh := slot_set (FastDebt n j) ptr (sh w), loc := (loc w)\<lparr>offset := of_nat j + 1\<rparr>\<rparr>))"
proof (induction "is")
  case (Cons i "is")
  let ?j = "(i + unat off) mod DEBT_SLOT_CNT"
  have "slot_get (sh w) (FastDebt n ?j) = Some (fast nd ! ?j)"
    using assms by (simp add: DEBT_SLOT_CNT_def)
  then show ?case
    using Cons assms by (simp add: Let_def unat_slot_index bnd_apply slot_load_solo slot_swap_solo loc_exec)
qed simp

lemma fast_get_debt_solo:
  assumes "solo w" and "nodes (sh w) n = Some nd" and "length (fast nd) = DEBT_SLOT_CNT"
  shows "fast_get_debt n ptr w =
    (case fast_pick (fast nd) (offset (loc w)) of
       None \<Rightarrow> (Inr None, w)
     | Some j \<Rightarrow> (Inr (Some (FastDebt n j)),
         w\<lparr>sh := slot_set (FastDebt n j) ptr (sh w), loc := (loc w)\<lparr>offset := of_nat j + 1\<rparr>\<rparr>))"
  unfolding fast_get_debt_def
  by (simp only: bnd_apply loc_exec prod.case sum.case fast_scan_solo[OF assms] fast_pick_def rotated_def)

lemma fast_pick_None: "length vs = DEBT_SLOT_CNT \<Longrightarrow> fast_pick vs off = None \<longleftrightarrow> NONE \<notin> set vs"
  by (auto simp: fast_pick_def find_None_iff rotated_set in_set_conv_nth)

lemma fast_pick_Some:
  "length vs = DEBT_SLOT_CNT \<Longrightarrow> fast_pick vs off = Some j \<Longrightarrow> j < DEBT_SLOT_CNT \<and> vs ! j = NONE"
  using rotated_set by (auto simp: fast_pick_def find_Some_iff) (metis lessThan_iff nth_mem)

end
