(* ===== verification/HelpingSlots.thy ===== *)
theory HelpingSlots
  imports Debt
begin

unbundle bit_operations_syntax

text \<open>
  The helping strategy, \<^verbatim>\<open>src/debt/helping.rs\<close>: the control word of a node, the generation a
  reader publishes there, the envelope with a ready-made value a writer puts in its place, and the
  exchange of envelopes between the two.
\<close>

definition REPLACEMENT_TAG :: usize where "REPLACEMENT_TAG = 1"

definition GEN_TAG :: usize where "GEN_TAG = 2"

definition TAG_MASK :: usize where "TAG_MASK = 3"

definition IDLE :: usize where "IDLE = 0"

definition helping_default :: "usize \<Rightarrow> HelpingSlots" where
  "helping_default envelope =
     \<lparr>control = IDLE, slot = NONE, active_addr = 0, handover = envelope, space_offer = 0\<rparr>"

text \<open>\<open>Slots::init\<close>, once the slots are in place in memory.\<close>

definition helping_init :: "HelpingSlots \<Rightarrow> HelpingSlots" where
  "helping_init hs = hs\<lparr>space_offer := handover hs\<rparr>"

section \<open>Atomic fields\<close>

definition control_load :: "usize \<Rightarrow> ('v, usize) prog" where
  "control_load n = node_read n (\<lambda>nd. control (helping nd))"

definition control_swap :: "usize \<Rightarrow> usize \<Rightarrow> ('v, usize) prog" where
  "control_swap n v =
     node_rmw n (\<lambda>nd. (control (helping nd), nd\<lparr>helping := (helping nd)\<lparr>control := v\<rparr>\<rparr>))"

definition control_cas :: "usize \<Rightarrow> usize \<Rightarrow> usize \<Rightarrow> ('v, usize \<times> bool) prog" where
  "control_cas n old new =
     node_rmw n (\<lambda>nd. let c = control (helping nd) in
       if c = old then ((c, True), nd\<lparr>helping := (helping nd)\<lparr>control := new\<rparr>\<rparr>) else ((c, False), nd))"

definition active_addr_load :: "usize \<Rightarrow> ('v, usize) prog" where
  "active_addr_load n = node_read n (\<lambda>nd. active_addr (helping nd))"

definition active_addr_store :: "usize \<Rightarrow> usize \<Rightarrow> ('v, unit) prog" where
  "active_addr_store n a = node_rmw n (\<lambda>nd. ((), nd\<lparr>helping := (helping nd)\<lparr>active_addr := a\<rparr>\<rparr>))"

definition space_offer_load :: "usize \<Rightarrow> ('v, usize) prog" where
  "space_offer_load n = node_read n (\<lambda>nd. space_offer (helping nd))"

definition space_offer_store :: "usize \<Rightarrow> usize \<Rightarrow> ('v, unit) prog" where
  "space_offer_store n e = node_rmw n (\<lambda>nd. ((), nd\<lparr>helping := (helping nd)\<lparr>space_offer := e\<rparr>\<rparr>))"

definition envelope_load :: "usize \<Rightarrow> ('v, usize) prog" where
  "envelope_load e =
     atomic (\<lambda>s. case envelopes s e of None \<Rightarrow> Inl Dangling | Some p \<Rightarrow> Inr (p, s))"

definition envelope_store :: "usize \<Rightarrow> usize \<Rightarrow> ('v, unit) prog" where
  "envelope_store e p =
     atomic (\<lambda>s. case envelopes s e of None \<Rightarrow> Inl Dangling
       | Some _ \<Rightarrow> Inr ((), s\<lparr>envelopes := (envelopes s)(e \<mapsto> p)\<rparr>))"

section \<open>Operations\<close>

text \<open>The reader announces where it loads from: returns the tagged generation and whether the
  counter wrapped.\<close>

definition helping_get_debt :: "usize \<Rightarrow> usize \<Rightarrow> ('v, usize \<times> bool) prog" where
  "helping_get_debt n ptr =
     bnd get_loc (\<lambda>l.
     let gen = generation l + 4 in
     bnd (debug_assert (gen AND GEN_TAG = 0)) (\<lambda>_.
     bnd (modify_loc (\<lambda>l. l\<lparr>generation := gen\<rparr>)) (\<lambda>_.
     let discard = (gen = 0); gen = gen OR GEN_TAG in
     bnd (active_addr_store n ptr) (\<lambda>_.
     bnd (control_swap n gen) (\<lambda>prev.
     bnd (debug_assert (IDLE = prev)) (\<lambda>_.
     ret (gen, discard)))))))"

text \<open>
  The writer's loop; \<open>self\<close> is its own node, \<open>who\<close> the node it inspects, \<open>replacement\<close> the
  closure that does a full load. The first argument bounds the retries.
\<close>

fun help_loop :: "nat \<Rightarrow> ('t, 'v) RefCnt \<Rightarrow> usize \<Rightarrow> usize \<Rightarrow> usize \<Rightarrow> ('v, 't) prog \<Rightarrow> usize \<Rightarrow> ('v, unit) prog" where
  "help_loop 0 T self who storage_addr replacement ctl = raise OutOfFuel"
| "help_loop (Suc k) T self who storage_addr replacement ctl =
     (if ctl AND TAG_MASK = IDLE \<and> ctl = IDLE then ret ()
      else if ctl AND TAG_MASK = REPLACEMENT_TAG then ret ()
      else if ctl AND TAG_MASK = GEN_TAG then
        bnd (debug_assert (self \<noteq> who)) (\<lambda>_.
        bnd (active_addr_load who) (\<lambda>active.
        if active \<noteq> storage_addr then
          bnd (control_load who) (\<lambda>new_control.
          if new_control = ctl then ret ()
          else help_loop k T self who storage_addr replacement new_control)
        else
          bnd replacement (\<lambda>value.
          let replace_addr = as_ptr T value in
          bnd (space_offer_load who) (\<lambda>their_space.
          bnd (space_offer_load self) (\<lambda>my_space.
          bnd (envelope_store my_space replace_addr) (\<lambda>_.
          bnd (assert_that (my_space AND TAG_MASK = 0)) (\<lambda>_.
          let space_addr = my_space OR REPLACEMENT_TAG in
          bnd (control_cas who ctl space_addr) (\<lambda>(new_control, ok).
          if ok then
            bnd (space_offer_store self their_space) (\<lambda>_. ret ())
          else
            bnd (drop_val T value) (\<lambda>_.
            help_loop k T self who storage_addr replacement new_control)))))))))
      else raise Unreachable)"

definition helping_help :: "('t, 'v) RefCnt \<Rightarrow> usize \<Rightarrow> usize \<Rightarrow> usize \<Rightarrow> ('v, 't) prog \<Rightarrow> ('v, unit) prog" where
  "helping_help T self who storage_addr replacement =
     bnd (control_load self) (\<lambda>own.
     bnd (debug_assert (IDLE = own)) (\<lambda>_.
     bnd (control_load who) (\<lambda>ctl.
     bnd get_fuel (\<lambda>k.
     help_loop k T self who storage_addr replacement ctl))))"

text \<open>The reader confirms its debt: \<open>Inr ()\<close> is \<open>Ok\<close>, \<open>Inl r\<close> is \<open>Err(r)\<close> with the replacement.\<close>

definition helping_confirm :: "usize \<Rightarrow> usize \<Rightarrow> usize \<Rightarrow> ('v, usize + unit) prog" where
  "helping_confirm n gen ptr =
     bnd (slot_swap (HelpingDebt n) ptr) (\<lambda>prev.
     bnd (debug_assert (NONE = prev)) (\<lambda>_.
     bnd (control_swap n IDLE) (\<lambda>ctl.
     if ctl = gen then ret (Inr ())
     else
       bnd (debug_assert (ctl AND TAG_MASK = REPLACEMENT_TAG)) (\<lambda>_.
       let envelope = ctl AND NOT TAG_MASK in
       bnd (envelope_load envelope) (\<lambda>replacement.
       bnd (space_offer_store n envelope) (\<lambda>_.
       ret (Inl replacement)))))))"

section \<open>Tags\<close>

lemmas tag_defs = REPLACEMENT_TAG_def GEN_TAG_def TAG_MASK_def IDLE_def

text \<open>A word whose two low bits are free.\<close>

definition aligned4 :: "usize \<Rightarrow> bool" where
  "aligned4 x \<longleftrightarrow> x AND TAG_MASK = 0"

lemma mask_eq: "(TAG_MASK :: usize) = mask 2"
  by (simp add: TAG_MASK_def mask_eq_exp_minus_1)

lemma aligned4_zero [simp]: "aligned4 0"
  by (simp add: aligned4_def)

lemma aligned4_uint: "aligned4 g \<longleftrightarrow> uint g mod 4 = 0"
proof -
  have "aligned4 g \<longleftrightarrow> uint (take_bit 2 g) = 0"
    by (simp add: aligned4_def mask_eq take_bit_eq_mask uint_0_iff)
  also have "uint (take_bit 2 g) = uint g mod 4"
    by (simp add: take_bit_eq_mod uint_mod)
  finally show ?thesis .
qed

lemma aligned4_add4 [simp]:
  assumes "aligned4 g"
  shows "aligned4 (g + 4)"
proof -
  have "uint (g + 4) mod 4 = (uint g + 4) mod 2 ^ 64 mod 4"
    by (simp add: uint_word_ariths)
  also have "\<dots> = (uint g + 4) mod 4"
    by (rule mod_mod_cancel) simp
  finally show ?thesis using assms by (simp add: aligned4_uint)
qed

lemma aligned4_gen_bit: "aligned4 g \<Longrightarrow> g AND GEN_TAG = 0"
proof -
  assume "aligned4 g"
  then have "(g AND TAG_MASK) AND GEN_TAG = 0" by (simp add: aligned4_def)
  then show ?thesis by (simp add: and.assoc tag_defs)
qed

lemma aligned4_gen_tag: "aligned4 g \<Longrightarrow> (g OR GEN_TAG) AND TAG_MASK = GEN_TAG"
  by (simp add: aligned4_def bit.conj_disj_distrib2 tag_defs)

lemma aligned4_repl_tag: "aligned4 e \<Longrightarrow> (e OR REPLACEMENT_TAG) AND TAG_MASK = REPLACEMENT_TAG"
  by (simp add: aligned4_def bit.conj_disj_distrib2 tag_defs)

lemma aligned4_untag: "aligned4 e \<Longrightarrow> (e OR REPLACEMENT_TAG) AND NOT TAG_MASK = e"
proof -
  assume a: "aligned4 e"
  have "e = (e AND TAG_MASK) OR (e AND NOT TAG_MASK)"
    by (simp flip: bit.conj_disj_distrib)
  then have "e AND NOT TAG_MASK = e" using a by (simp add: aligned4_def)
  moreover have "REPLACEMENT_TAG AND NOT TAG_MASK = 0" by (simp add: tag_defs)
  ultimately show ?thesis by (simp add: bit.conj_disj_distrib2)
qed

lemma gen_untag: "aligned4 g \<Longrightarrow> (g OR GEN_TAG) AND NOT TAG_MASK = g"
proof -
  assume a: "aligned4 g"
  have "g = (g AND TAG_MASK) OR (g AND NOT TAG_MASK)"
    by (simp flip: bit.conj_disj_distrib)
  then have "g AND NOT TAG_MASK = g" using a by (simp add: aligned4_def)
  moreover have "GEN_TAG AND NOT TAG_MASK = 0" by (simp add: tag_defs)
  ultimately show ?thesis by (simp add: bit.conj_disj_distrib2)
qed

text \<open>The three states of a control word exclude each other.\<close>

lemma control_states_distinct:
  assumes "aligned4 g" and "aligned4 e"
  shows "g OR GEN_TAG \<noteq> IDLE" "e OR REPLACEMENT_TAG \<noteq> IDLE" "g OR GEN_TAG \<noteq> e OR REPLACEMENT_TAG"
  using aligned4_gen_tag[OF assms(1)] aligned4_repl_tag[OF assms(2)] by (auto simp: tag_defs)

section \<open>Running alone\<close>

lemma control_load_solo [exec]:
  "solo w \<Longrightarrow> nodes (sh w) n = Some nd \<Longrightarrow> control_load n w = (Inr (control (helping nd)), w)"
  by (simp add: control_load_def node_read_solo)

lemma control_swap_solo [exec]:
  "solo w \<Longrightarrow> nodes (sh w) n = Some nd \<Longrightarrow>
   control_swap n v w = (Inr (control (helping nd)),
     w\<lparr>sh := (sh w)\<lparr>nodes := (nodes (sh w))(n \<mapsto> nd\<lparr>helping := (helping nd)\<lparr>control := v\<rparr>\<rparr>)\<rparr>\<rparr>)"
  by (simp add: control_swap_def node_rmw_solo)

lemma control_cas_solo [exec]:
  "solo w \<Longrightarrow> nodes (sh w) n = Some nd \<Longrightarrow> control (helping nd) = old \<Longrightarrow>
   control_cas n old new w = (Inr (old, True),
     w\<lparr>sh := (sh w)\<lparr>nodes := (nodes (sh w))(n \<mapsto> nd\<lparr>helping := (helping nd)\<lparr>control := new\<rparr>\<rparr>)\<rparr>\<rparr>)"
  by (simp add: control_cas_def node_rmw_solo)

lemma active_addr_load_solo [exec]:
  "solo w \<Longrightarrow> nodes (sh w) n = Some nd \<Longrightarrow> active_addr_load n w = (Inr (active_addr (helping nd)), w)"
  by (simp add: active_addr_load_def node_read_solo)

lemma active_addr_store_solo [exec]:
  "solo w \<Longrightarrow> nodes (sh w) n = Some nd \<Longrightarrow>
   active_addr_store n a w = (Inr (),
     w\<lparr>sh := (sh w)\<lparr>nodes := (nodes (sh w))(n \<mapsto> nd\<lparr>helping := (helping nd)\<lparr>active_addr := a\<rparr>\<rparr>)\<rparr>\<rparr>)"
  by (simp add: active_addr_store_def node_rmw_solo)

lemma space_offer_load_solo [exec]:
  "solo w \<Longrightarrow> nodes (sh w) n = Some nd \<Longrightarrow> space_offer_load n w = (Inr (space_offer (helping nd)), w)"
  by (simp add: space_offer_load_def node_read_solo)

lemma space_offer_store_solo [exec]:
  "solo w \<Longrightarrow> nodes (sh w) n = Some nd \<Longrightarrow>
   space_offer_store n e w = (Inr (),
     w\<lparr>sh := (sh w)\<lparr>nodes := (nodes (sh w))(n \<mapsto> nd\<lparr>helping := (helping nd)\<lparr>space_offer := e\<rparr>\<rparr>)\<rparr>\<rparr>)"
  by (simp add: space_offer_store_def node_rmw_solo)

lemma envelope_load_solo [exec]:
  "solo w \<Longrightarrow> envelopes (sh w) e = Some p \<Longrightarrow> envelope_load e w = (Inr p, w)"
  by (simp add: envelope_load_def atomic_solo)

lemma envelope_store_solo [exec]:
  "solo w \<Longrightarrow> envelopes (sh w) e = Some q \<Longrightarrow>
   envelope_store e p w = (Inr (), w\<lparr>sh := (sh w)\<lparr>envelopes := (envelopes (sh w))(e \<mapsto> p)\<rparr>\<rparr>)"
  by (simp add: envelope_store_def atomic_solo)

lemma helping_get_debt_solo:
  assumes "solo w" and "nodes (sh w) n = Some nd" and "control (helping nd) = IDLE"
    and "aligned4 (generation (loc w))"
  shows "helping_get_debt n a w =
    (Inr ((generation (loc w) + 4) OR GEN_TAG, generation (loc w) + 4 = 0),
     w\<lparr>loc := (loc w)\<lparr>generation := generation (loc w) + 4\<rparr>,
       sh := (sh w)\<lparr>nodes := (nodes (sh w))(n \<mapsto>
         nd\<lparr>helping := (helping nd)\<lparr>active_addr := a, control := (generation (loc w) + 4) OR GEN_TAG\<rparr>\<rparr>)\<rparr>\<rparr>)"
  using assms aligned4_gen_bit[OF aligned4_add4[OF assms(4)]]
  by (simp add: helping_get_debt_def bnd_apply loc_exec Let_def active_addr_store_solo control_swap_solo)

text \<open>Nobody interfered between the announcement and the confirmation.\<close>

lemma helping_confirm_ok:
  assumes "solo w" and "nodes (sh w) n = Some nd" and "slot (helping nd) = NONE"
    and "control (helping nd) = gen"
  shows "helping_confirm n gen p w =
    (Inr (Inr ()), w\<lparr>sh := (sh w)\<lparr>nodes := (nodes (sh w))(n \<mapsto>
         nd\<lparr>helping := (helping nd)\<lparr>slot := p, control := IDLE\<rparr>\<rparr>)\<rparr>\<rparr>)"
  using assms
  by (simp add: helping_confirm_def bnd_apply slot_swap_solo slot_set_def control_swap_solo)

text \<open>A writer left an envelope: the reader takes its content and keeps the envelope as its offer.\<close>

lemma helping_confirm_helped:
  assumes "solo w" and "nodes (sh w) n = Some nd" and "slot (helping nd) = NONE"
    and "control (helping nd) = e OR REPLACEMENT_TAG" and "aligned4 e"
    and "envelopes (sh w) e = Some r" and "aligned4 g"
  shows "helping_confirm n (g OR GEN_TAG) p w =
    (Inr (Inl r), w\<lparr>sh := (sh w)\<lparr>nodes := (nodes (sh w))(n \<mapsto>
         nd\<lparr>helping := (helping nd)\<lparr>slot := p, control := IDLE, space_offer := e\<rparr>\<rparr>)\<rparr>\<rparr>)"
  using assms control_states_distinct(3)[OF assms(7,5)]
  by (simp add: helping_confirm_def bnd_apply slot_swap_solo slot_set_def control_swap_solo Let_def
      aligned4_repl_tag aligned4_untag envelope_load_solo space_offer_store_solo)

lemma helping_help_idle:
  assumes "solo w" and "nodes (sh w) self = Some nd" and "control (helping nd) = IDLE"
    and "nodes (sh w) who = Some nw" and "control (helping nw) = IDLE" and "0 < fuel w"
  shows "helping_help T self who a repl w = (Inr (), w)"
proof -
  from assms(6) obtain k where "fuel w = Suc k" by (cases "fuel w") auto
  then show ?thesis
    using assms by (simp add: helping_help_def bnd_apply control_load_solo loc_exec) (simp add: tag_defs)
qed

text \<open>A reader busy with a different storage is left alone.\<close>

lemma helping_help_other_storage:
  assumes "solo w" and "nodes (sh w) self = Some nd" and "control (helping nd) = IDLE"
    and "nodes (sh w) who = Some nw" and "control (helping nw) = g OR GEN_TAG" and "aligned4 g"
    and "active_addr (helping nw) \<noteq> a" and "self \<noteq> who" and "0 < fuel w"
  shows "helping_help T self who a repl w = (Inr (), w)"
proof -
  from assms(9) obtain k where "fuel w = Suc k" by (cases "fuel w") auto
  then show ?thesis
    using assms control_states_distinct(1)[OF assms(6) aligned4_zero] aligned4_gen_tag[OF assms(6)]
    by (simp add: helping_help_def bnd_apply control_load_solo loc_exec active_addr_load_solo)
qed

section \<open>Transactions in a row\<close>

text \<open>
  A load through the helping slot, cut down to its dealings with the control word: announce it, confirm it with the
  candidate \<open>p\<close>, and give the slot back. The result is the announced word, whether the counter wrapped, and
  whether the confirmation found the word it had announced.
\<close>

definition transaction :: "usize \<Rightarrow> usize \<Rightarrow> usize \<Rightarrow> ('v, usize \<times> bool \<times> bool) prog" where
  "transaction n a p =
     bnd (helping_get_debt n a) (\<lambda>(gen, discard).
     bnd (helping_confirm n gen p) (\<lambda>r.
     bnd (slot_swap (HelpingDebt n) NONE) (\<lambda>_.
     ret (gen, discard, r = Inr ()))))"

fun transactions :: "nat \<Rightarrow> usize \<Rightarrow> usize \<Rightarrow> usize \<Rightarrow> ('v, (usize \<times> bool \<times> bool) list) prog" where
  "transactions 0 n a p = ret []"
| "transactions (Suc k) n a p = bnd (transaction n a p) (\<lambda>x. bnd (transactions k n a p) (\<lambda>xs. ret (x # xs)))"

definition announcement :: "usize \<Rightarrow> usize \<times> bool \<times> bool" where
  "announcement g = (g OR GEN_TAG, g = 0, True)"

lemma transaction_solo:
  assumes "solo w" and "nodes (sh w) n = Some nd" and "control (helping nd) = IDLE" and "slot (helping nd) = NONE"
    and "aligned4 (generation (loc w))"
  shows "transaction n a p w = (Inr (announcement (generation (loc w) + 4)),
    w\<lparr>loc := (loc w)\<lparr>generation := generation (loc w) + 4\<rparr>,
      sh := (sh w)\<lparr>nodes := (nodes (sh w))(n \<mapsto> nd\<lparr>helping := (helping nd)\<lparr>active_addr := a\<rparr>\<rparr>)\<rparr>\<rparr>)"
proof -
  let ?g = "generation (loc w) + 4"
  let ?l = "(loc w)\<lparr>generation := ?g\<rparr>"
  let ?at = "\<lambda>hs. w\<lparr>loc := ?l, sh := (sh w)\<lparr>nodes := (nodes (sh w))(n \<mapsto> nd\<lparr>helping := hs\<rparr>)\<rparr>\<rparr>"
  let ?h1 = "(helping nd)\<lparr>active_addr := a, control := ?g OR GEN_TAG\<rparr>"
  let ?h2 = "?h1\<lparr>slot := p, control := IDLE\<rparr>"
  have "helping_get_debt n a w = (Inr (?g OR GEN_TAG, ?g = 0), ?at ?h1)"
    by (rule helping_get_debt_solo[OF assms(1-3,5)])
  moreover have "helping_confirm n (?g OR GEN_TAG) p (?at ?h1) = (Inr (Inr ()), ?at ?h2)"
    using helping_confirm_ok[of "?at ?h1" n "nd\<lparr>helping := ?h1\<rparr>" "?g OR GEN_TAG" p] assms(1,4) by simp
  moreover have "slot_swap (HelpingDebt n) NONE (?at ?h2) = (Inr p, ?at (?h2\<lparr>slot := NONE\<rparr>))"
    using slot_swap_solo[of "?at ?h2" "HelpingDebt n" p NONE] assms(1) by (simp add: slot_set_def)
  moreover have "?h2\<lparr>slot := NONE\<rparr> = (helping nd)\<lparr>active_addr := a\<rparr>"
    using assms(3,4) by (cases "helping nd") simp
  ultimately show ?thesis by (simp add: transaction_def announcement_def bnd_apply del: fun_upd_apply)
qed

lemma transactions_solo:
  assumes "solo w" and "nodes (sh w) n = Some nd" and "control (helping nd) = IDLE" and "slot (helping nd) = NONE"
    and "aligned4 (generation (loc w))"
  shows "\<exists>w'. transactions k n a p w =
      (Inr (map (\<lambda>i. announcement (generation (loc w) + 4 + of_nat (4 * i))) [0..<k]), w') \<and>
    generation (loc w') = generation (loc w) + of_nat (4 * k)"
  using assms
proof (induction k arbitrary: w nd)
  case (Suc k)
  let ?g = "generation (loc w)"
  let ?nd = "nd\<lparr>helping := (helping nd)\<lparr>active_addr := a\<rparr>\<rparr>"
  let ?w = "w\<lparr>loc := (loc w)\<lparr>generation := ?g + 4\<rparr>, sh := (sh w)\<lparr>nodes := (nodes (sh w))(n \<mapsto> ?nd)\<rparr>\<rparr>"
  have "\<exists>w'. transactions k n a p ?w =
      (Inr (map (\<lambda>i. announcement (generation (loc ?w) + 4 + of_nat (4 * i))) [0..<k]), w') \<and>
    generation (loc w') = generation (loc ?w) + of_nat (4 * k)"
    by (rule Suc.IH[of ?w ?nd]) (use Suc.prems in simp_all)
  then obtain w' where w': "transactions k n a p ?w =
      (Inr (map (\<lambda>i. announcement (?g + 4 + 4 + of_nat (4 * i))) [0..<k]), w')" "generation (loc w') = ?g + 4 + of_nat (4 * k)"
    by auto
  have "[0..<Suc k] = 0 # map Suc [0..<k]" by (simp add: upt_conv_Cons map_Suc_upt del: upt_Suc)
  then show ?case
    using transaction_solo[OF Suc.prems, of a p] w' by (simp add: bnd_apply comp_def algebra_simps del: upt_Suc fun_upd_apply)
qed simp

lemma aligned4_add: "aligned4 g \<Longrightarrow> aligned4 (g + of_nat (4 * i))"
proof (induction i)
  case (Suc i)
  then have "aligned4 (g + of_nat (4 * i) + 4)" by simp
  then show ?case by (simp add: algebra_simps)
qed simp

lemma announcement_tagged:
  assumes "aligned4 g"
  shows "case announcement g of (c, wrapped, confirmed) \<Rightarrow>
    c AND TAG_MASK = GEN_TAG \<and> (wrapped \<longleftrightarrow> c = GEN_TAG) \<and> confirmed"
proof -
  have "g = 0" if "g OR GEN_TAG = GEN_TAG" using gen_untag[OF assms] that by (simp add: tag_defs)
  then show ?thesis using aligned4_gen_tag[OF assms] by (auto simp: announcement_def)
qed

lemma announcements_distinct:
  assumes "aligned4 g" and "k \<le> 2 ^ 62"
  shows "distinct (map fst (map (\<lambda>i. announcement (g + of_nat (4 * i))) [0..<k]))"
proof -
  have "inj_on (\<lambda>i. (g + of_nat (4 * i)) OR GEN_TAG) {..<k}"
  proof (rule inj_onI)
    fix i j assume ij: "i \<in> {..<k}" "j \<in> {..<k}" "(g + of_nat (4 * i)) OR GEN_TAG = (g + of_nat (4 * j)) OR GEN_TAG"
    have "g + of_nat (4 * i) = g + of_nat (4 * j)"
      using gen_untag[OF aligned4_add[OF assms(1)], of i] gen_untag[OF aligned4_add[OF assms(1)], of j] ij(3) by metis
    then have "(of_nat (4 * i) :: usize) = of_nat (4 * j)" by simp
    then have "unat (of_nat (4 * i) :: usize) = unat (of_nat (4 * j) :: usize)" by simp
    moreover have "unat (of_nat (4 * m) :: usize) = 4 * m" if "m < k" for m
      using that assms(2) by (subst unat_of_nat) simp
    ultimately show "i = j" using ij(1,2) by simp
  qed
  then show ?thesis by (simp add: distinct_map announcement_def comp_def atLeast0LessThan)
qed

end
