(* ===== verification/NodeList.thy ===== *)
theory NodeList
  imports FastSlots HelpingSlots
begin

text \<open>
  The linked list of nodes and the thread's hold on one of them, \<^verbatim>\<open>src/debt/list.rs\<close>:
  walking the chain, claiming, cooling down and creating nodes, and the operations of
  \<open>LocalNode\<close> that forward to the slots of the claimed node.
\<close>

definition NODE_UNUSED :: usize where "NODE_UNUSED = 0"

definition NODE_USED :: usize where "NODE_USED = 1"

definition NODE_COOLDOWN :: usize where "NODE_COOLDOWN = 2"

definition node_default :: "usize \<Rightarrow> Node" where
  "node_default envelope =
     \<lparr>fast = fast_default, helping = helping_default envelope, in_use = NODE_USED,
      next_node = 0, active_writers = 0\<rparr>"

definition local_default :: LocalNode where
  "local_default = \<lparr>node = None, offset = 0, generation = 0\<rparr>"

section \<open>Atomic fields of a node\<close>

definition in_use_load :: "usize \<Rightarrow> ('v, usize) prog" where
  "in_use_load n = node_read n in_use"

definition in_use_swap :: "usize \<Rightarrow> usize \<Rightarrow> ('v, usize) prog" where
  "in_use_swap n v = node_rmw n (\<lambda>nd. (in_use nd, nd\<lparr>in_use := v\<rparr>))"

definition in_use_cas :: "usize \<Rightarrow> usize \<Rightarrow> usize \<Rightarrow> ('v, bool) prog" where
  "in_use_cas n old new =
     node_rmw n (\<lambda>nd. if in_use nd = old then (True, nd\<lparr>in_use := new\<rparr>) else (False, nd))"

text \<open>\<open>reserve_writer\<close> and the \<open>Drop\<close> of the \<open>NodeReservation\<close> it returns.\<close>

definition reserve_writer :: "usize \<Rightarrow> ('v, unit) prog" where
  "reserve_writer n = node_rmw n (\<lambda>nd. ((), nd\<lparr>active_writers := active_writers nd + 1\<rparr>))"

definition release_writer :: "usize \<Rightarrow> ('v, unit) prog" where
  "release_writer n = node_rmw n (\<lambda>nd. ((), nd\<lparr>active_writers := active_writers nd - 1\<rparr>))"

section \<open>Walking the list\<close>

fun traverse_from :: "nat \<Rightarrow> usize \<Rightarrow> (usize \<Rightarrow> ('v, 'r option) prog) \<Rightarrow> ('v, 'r option) prog" where
  "traverse_from 0 cur f = (if cur = 0 then ret None else raise OutOfFuel)"
| "traverse_from (Suc k) cur f =
     (if cur = 0 then ret None
      else
        bnd (f cur) (\<lambda>result.
        case result of
          Some r \<Rightarrow> ret (Some r)
        | None \<Rightarrow> bnd (node_read cur next_node) (\<lambda>nx. traverse_from k nx f)))"

definition traverse :: "(usize \<Rightarrow> ('v, 'r option) prog) \<Rightarrow> ('v, 'r option) prog" where
  "traverse f =
     bnd (atomic (\<lambda>s. Inr ((list_head s, node_cnt s), s))) (\<lambda>(head, k).
     traverse_from k head f)"

section \<open>Cooldown\<close>

definition start_cooldown :: "usize \<Rightarrow> ('v, unit) prog" where
  "start_cooldown n =
     bnd (reserve_writer n) (\<lambda>_.
     bnd (in_use_swap n NODE_COOLDOWN) (\<lambda>prev.
     bnd (assert_that (NODE_USED = prev)) (\<lambda>_.
     release_writer n)))"

definition check_cooldown :: "usize \<Rightarrow> ('v, unit) prog" where
  "check_cooldown n =
     bnd (in_use_load n) (\<lambda>u.
     if u = NODE_COOLDOWN then
       bnd (node_read n active_writers) (\<lambda>a.
       if a = 0 then bnd (in_use_cas n NODE_COOLDOWN NODE_UNUSED) (\<lambda>_. ret ()) else ret ())
     else ret ())"

section \<open>Claiming or creating a node\<close>

definition try_claim :: "usize \<Rightarrow> ('v, usize option) prog" where
  "try_claim n =
     bnd (check_cooldown n) (\<lambda>_.
     bnd (in_use_cas n NODE_UNUSED NODE_USED) (\<lambda>ok.
     ret (if ok then Some n else None)))"

text \<open>\<open>Box::leak(Box::<Node>::default())\<close> followed by \<open>helping.init()\<close>; nobody else can see the
  node yet.\<close>

definition alloc_node :: "('v, usize) prog" where
  "alloc_node =
     atomic (\<lambda>s. case box_supply s of [] \<Rightarrow> Inl OutOfMemory
       | (n, e) # rest \<Rightarrow>
           (let nd = node_default e
            in Inr (n, s\<lparr>box_supply := rest, envelopes := (envelopes s)(e \<mapsto> 0),
                 nodes := (nodes s)(n \<mapsto> nd\<lparr>helping := helping_init (helping nd)\<rparr>)\<rparr>)))"

definition list_head_cas_weak :: "usize \<Rightarrow> usize \<Rightarrow> ('v, usize \<times> bool) prog" where
  "list_head_cas_weak head n =
     bnd spurious (\<lambda>fails.
     atomic (\<lambda>s. if list_head s = head \<and> \<not> fails
       then Inr ((head, True), s\<lparr>list_head := n, node_cnt := node_cnt s + 1\<rparr>)
       else Inr ((list_head s, False), s)))"

fun push_loop :: "nat \<Rightarrow> usize \<Rightarrow> usize \<Rightarrow> ('v, usize) prog" where
  "push_loop 0 n head = raise OutOfFuel"
| "push_loop (Suc k) n head =
     bnd (node_rmw n (\<lambda>nd. ((), nd\<lparr>next_node := head\<rparr>))) (\<lambda>_.
     bnd (list_head_cas_weak head n) (\<lambda>(old, ok).
     if ok then ret n else push_loop k n old))"

definition node_get :: "('v, usize) prog" where
  "node_get =
     bnd (traverse try_claim) (\<lambda>found.
     case found of
       Some n \<Rightarrow> ret n
     | None \<Rightarrow>
         bnd alloc_node (\<lambda>n.
         bnd (atomic (\<lambda>s. Inr (list_head s, s))) (\<lambda>head.
         bnd get_fuel (\<lambda>k. push_loop k n head))))"

section \<open>The thread's node\<close>

text \<open>The \<open>Drop\<close> of a \<open>LocalNode\<close>: on thread exit, or at the end of a temporary one.\<close>

definition local_drop :: "('v, unit) prog" where
  "local_drop = bnd get_loc (\<lambda>l. case node l of None \<Rightarrow> ret () | Some n \<Rightarrow> start_cooldown n)"

text \<open>
  \<open>LocalNode::with\<close>. The closure works on the current \<open>LocalNode\<close>, the field \<open>loc\<close>. When the
  thread-local storage is gone, a temporary one takes its place for the call.
\<close>

definition with_local :: "('v, 'a) prog \<Rightarrow> ('v, 'a) prog" where
  "with_local f w =
     (if tls_alive w then
        bnd (if node (loc w) = None
             then bnd node_get (\<lambda>n. modify_loc (\<lambda>l. l\<lparr>node := Some n\<rparr>)) else ret ())
          (\<lambda>_. f) w
      else
        bnd node_get (\<lambda>n.
        bnd (modify_loc (\<lambda>_. local_default\<lparr>node := Some n\<rparr>)) (\<lambda>_.
        bnd f (\<lambda>x.
        bnd local_drop (\<lambda>_.
        bnd (modify_loc (\<lambda>_. loc w)) (\<lambda>_. ret x))))) w)"

definition local_node :: "('v, usize) prog" where
  "local_node =
     bnd get_loc (\<lambda>l.
     bnd (expect (node l)) (\<lambda>n.
     bnd (in_use_load n) (\<lambda>u.
     bnd (debug_assert (u = NODE_USED)) (\<lambda>_.
     ret n))))"

definition new_fast :: "usize \<Rightarrow> ('v, Debt option) prog" where
  "new_fast ptr = bnd local_node (\<lambda>n. fast_get_debt n ptr)"

definition new_helping :: "usize \<Rightarrow> ('v, usize) prog" where
  "new_helping ptr =
     bnd local_node (\<lambda>n.
     bnd (helping_get_debt n ptr) (\<lambda>(gen, discard).
     if discard then
       bnd (start_cooldown n) (\<lambda>_.
       bnd (modify_loc (\<lambda>l. l\<lparr>node := None\<rparr>)) (\<lambda>_.
       ret gen))
     else ret gen))"

definition confirm_helping :: "usize \<Rightarrow> usize \<Rightarrow> ('v, (Debt \<times> usize) + Debt) prog" where
  "confirm_helping gen ptr =
     bnd local_node (\<lambda>n.
     bnd (helping_confirm n gen ptr) (\<lambda>r.
     ret (case r of Inr _ \<Rightarrow> Inr (HelpingDebt n) | Inl repl \<Rightarrow> Inl (HelpingDebt n, repl))))"

definition local_help :: "('t, 'v) RefCnt \<Rightarrow> usize \<Rightarrow> usize \<Rightarrow> ('v, 't) prog \<Rightarrow> ('v, unit) prog" where
  "local_help T who storage_addr replacement =
     bnd local_node (\<lambda>n. helping_help T n who storage_addr replacement)"

text \<open>\<open>fast_slots\<close> and \<open>helping_slot\<close> of a node, as references.\<close>

definition fast_slots :: "usize \<Rightarrow> Debt list" where
  "fast_slots n = map (FastDebt n) [0..<DEBT_SLOT_CNT]"

definition helping_slot :: "usize \<Rightarrow> Debt" where
  "helping_slot n = HelpingDebt n"

section \<open>The chain\<close>

definition next_of :: "'v shared \<Rightarrow> usize \<Rightarrow> usize" where
  "next_of s n = (case nodes s n of None \<Rightarrow> 0 | Some nd \<Rightarrow> next_node nd)"

text \<open>Following \<open>nx\<close> from \<open>x\<close> visits exactly the given addresses and ends at null.\<close>

fun links :: "(usize \<Rightarrow> usize) \<Rightarrow> usize \<Rightarrow> usize list \<Rightarrow> bool" where
  "links nx x [] \<longleftrightarrow> x = 0"
| "links nx x (n # ns) \<longleftrightarrow> x = n \<and> n \<noteq> 0 \<and> links nx (nx n) ns"

definition node_ok :: "Node \<Rightarrow> bool" where
  "node_ok nd \<longleftrightarrow> length (fast nd) = DEBT_SLOT_CNT"

definition chained :: "'v shared \<Rightarrow> usize list \<Rightarrow> bool" where
  "chained s ns \<longleftrightarrow> links (next_of s) (list_head s) ns \<and> distinct ns \<and> set ns = dom (nodes s) \<and>
     length ns = node_cnt s \<and> (\<forall>n nd. nodes s n = Some nd \<longrightarrow> node_ok nd)"

lemma links_cong: "(\<And>n. n \<in> set ns \<Longrightarrow> nx n = ny n) \<Longrightarrow> links nx x ns \<longleftrightarrow> links ny x ns"
  by (induction ns arbitrary: x) auto

lemma links_unique: "links nx x ns \<Longrightarrow> links nx x ms \<Longrightarrow> ns = ms"
proof (induction ns arbitrary: x ms)
  case Nil then show ?case by (cases ms) auto
next
  case (Cons n ns) then show ?case by (cases ms) auto
qed

text \<open>Replacing a node by one with the same link keeps the chain.\<close>

lemma next_of_update [simp]:
  "nodes s n = Some nd \<Longrightarrow> next_node nd' = next_node nd \<Longrightarrow>
   next_of (s\<lparr>nodes := (nodes s)(n \<mapsto> nd')\<rparr>) = next_of s"
  by (auto simp: next_of_def fun_eq_iff)

lemma next_of_frame [simp]:
  "next_of (s\<lparr>heap := h\<rparr>) = next_of s" "next_of (s\<lparr>storage := g\<rparr>) = next_of s"
  "next_of (s\<lparr>rw_readers := r\<rparr>) = next_of s" "next_of (s\<lparr>rw_writer := y\<rparr>) = next_of s"
  "next_of (s\<lparr>arc_supply := ps\<rparr>) = next_of s"
  "next_of (s\<lparr>envelopes := e\<rparr>) = next_of s" "next_of (s\<lparr>list_head := x\<rparr>) = next_of s"
  "next_of (s\<lparr>node_cnt := k\<rparr>) = next_of s" "next_of (s\<lparr>box_supply := b\<rparr>) = next_of s"
  by (simp_all add: next_of_def fun_eq_iff)

lemma chained_node: "chained s ns \<Longrightarrow> n \<in> set ns \<Longrightarrow> \<exists>nd. nodes s n = Some nd \<and> node_ok nd"
  by (auto simp: chained_def)

lemma chained_update:
  "chained s ns \<Longrightarrow> nodes s n = Some nd \<Longrightarrow> next_node nd' = next_node nd \<Longrightarrow> node_ok nd' \<Longrightarrow>
   chained (s\<lparr>nodes := (nodes s)(n \<mapsto> nd')\<rparr>) ns"
  by (auto simp: chained_def split: if_splits)

lemma chained_frame [simp]:
  "chained (s\<lparr>heap := h\<rparr>) ns = chained s ns" "chained (s\<lparr>storage := g\<rparr>) ns = chained s ns"
  "chained (s\<lparr>rw_readers := r\<rparr>) ns = chained s ns" "chained (s\<lparr>rw_writer := x\<rparr>) ns = chained s ns"
  "chained (s\<lparr>arc_supply := ps\<rparr>) ns = chained s ns"
  "chained (s\<lparr>envelopes := e\<rparr>) ns = chained s ns" "chained (s\<lparr>box_supply := b\<rparr>) ns = chained s ns"
  by (simp_all add: chained_def)

lemma node_set_slot_frame [simp]:
  "next_node (node_set_slot d v nd) = next_node nd" "in_use (node_set_slot d v nd) = in_use nd"
  "active_writers (node_set_slot d v nd) = active_writers nd"
  "node_ok (node_set_slot d v nd) = node_ok nd"
  by (cases d; simp add: node_ok_def)+

lemma chained_slot_set [simp]: "chained (slot_set d v s) ns \<longleftrightarrow> chained s ns"
proof -
  have nx: "next_of (slot_set d v s) = next_of s"
    by (auto simp: slot_set_def next_of_def fun_eq_iff split: option.splits)
  have dom: "dom (nodes (slot_set d v s)) = dom (nodes s)"
    by (auto simp: slot_set_def split: if_splits)
  have ok: "(\<forall>n nd. nodes (slot_set d v s) n = Some nd \<longrightarrow> node_ok nd) \<longleftrightarrow>
      (\<forall>n nd. nodes s n = Some nd \<longrightarrow> node_ok nd)"
    by (auto simp: slot_set_def split: if_splits)
  show ?thesis unfolding chained_def by (simp add: nx dom ok)
qed

section \<open>Traversal\<close>

text \<open>
  A body that never stops early, and keeps the links, is run on every node of the chain in order.
  \<open>Q\<close> is what the body keeps; \<open>F\<close> is its effect on the world.
\<close>

lemma traverse_from_fold:
  assumes "\<And>n w. n \<in> set ns \<Longrightarrow> Q w \<Longrightarrow> f n w = (Inr None, F n w) \<and> Q (F n w)"
    and "\<And>n w. n \<in> set ns \<Longrightarrow> Q w \<Longrightarrow> solo w \<and> (\<exists>nd. nodes (sh w) n = Some nd \<and> next_node nd = nx n)"
    and "links nx x ns" and "length ns \<le> k" and "Q w"
  shows "traverse_from k x f w = (Inr None, fold F ns w) \<and> Q (fold F ns w)"
  using assms
proof (induction ns arbitrary: k x w)
  case Nil then show ?case by (cases k) auto
next
  case (Cons n ns)
  then obtain k' where k: "k = Suc k'" by (cases k) auto
  have n: "n \<in> set (n # ns)" by simp
  let ?w = "F n w"
  have fn: "f n w = (Inr None, ?w)" and Q: "Q ?w" using Cons.prems(1)[OF n Cons.prems(5)] by auto
  obtain nd where nd: "solo ?w" "nodes (sh ?w) n = Some nd" "next_node nd = nx n"
    using Cons.prems(2)[OF n Q] by blast
  have "traverse_from k' (nx n) f ?w = (Inr None, fold F ns ?w) \<and> Q (fold F ns ?w)"
    using Cons.prems k Q by (intro Cons.IH) auto
  then show ?case using Cons.prems(3) k fn nd by (simp add: bnd_apply node_read_solo)
qed

text \<open>A body that leaves the world alone until it succeeds stops at the first success.\<close>

lemma traverse_from_find:
  assumes "\<And>n. n \<in> set ns \<Longrightarrow> \<not> P n \<Longrightarrow> f n w = (Inr None, w)"
    and "\<And>n. n \<in> set ns \<Longrightarrow> P n \<Longrightarrow> f n w = (Inr (Some (r n)), G n)"
    and "\<And>n. n \<in> set ns \<Longrightarrow> \<exists>nd. nodes (sh w) n = Some nd \<and> next_node nd = nx n"
    and "solo w" and "links nx x ns" and "length ns \<le> k"
  shows "traverse_from k x f w =
    (case find P ns of None \<Rightarrow> (Inr None, w) | Some n \<Rightarrow> (Inr (Some (r n)), G n))"
  using assms
proof (induction ns arbitrary: k x)
  case Nil then show ?case by (cases k) auto
next
  case (Cons n ns)
  then obtain k' where k: "k = Suc k'" by (cases k) auto
  obtain nd where nd: "nodes (sh w) n = Some nd" "next_node nd = nx n"
    using Cons.prems(3)[of n] by auto
  have "traverse_from k' (nx n) f w =
    (case find P ns of None \<Rightarrow> (Inr None, w) | Some n \<Rightarrow> (Inr (Some (r n)), G n))"
    using Cons.prems k by (intro Cons.IH) auto
  then show ?case
    using Cons.prems(1,2)[of n] Cons.prems(4,5) k nd by (cases "P n") (simp_all add: bnd_apply node_read_solo)
qed

section \<open>Claiming\<close>

lemma in_use_load_solo [exec]:
  "solo w \<Longrightarrow> nodes (sh w) n = Some nd \<Longrightarrow> in_use_load n w = (Inr (in_use nd), w)"
  by (simp add: in_use_load_def node_read_solo)

lemma in_use_cas_solo [exec]:
  "solo w \<Longrightarrow> nodes (sh w) n = Some nd \<Longrightarrow>
   in_use_cas n old new w = (Inr (in_use nd = old),
     w\<lparr>sh := if in_use nd = old then (sh w)\<lparr>nodes := (nodes (sh w))(n \<mapsto> nd\<lparr>in_use := new\<rparr>)\<rparr> else sh w\<rparr>)"
  by (simp add: in_use_cas_def node_rmw_solo fun_upd_idem)

lemma in_use_swap_solo [exec]:
  "solo w \<Longrightarrow> nodes (sh w) n = Some nd \<Longrightarrow>
   in_use_swap n v w = (Inr (in_use nd), w\<lparr>sh := (sh w)\<lparr>nodes := (nodes (sh w))(n \<mapsto> nd\<lparr>in_use := v\<rparr>)\<rparr>\<rparr>)"
  by (simp add: in_use_swap_def node_rmw_solo)

lemma reserve_writer_solo [exec]:
  "solo w \<Longrightarrow> nodes (sh w) n = Some nd \<Longrightarrow>
   reserve_writer n w = (Inr (), w\<lparr>sh := (sh w)\<lparr>nodes := (nodes (sh w))(n \<mapsto>
       nd\<lparr>active_writers := active_writers nd + 1\<rparr>)\<rparr>\<rparr>)"
  by (simp add: reserve_writer_def node_rmw_solo)

lemma release_writer_solo [exec]:
  "solo w \<Longrightarrow> nodes (sh w) n = Some nd \<Longrightarrow>
   release_writer n w = (Inr (), w\<lparr>sh := (sh w)\<lparr>nodes := (nodes (sh w))(n \<mapsto>
       nd\<lparr>active_writers := active_writers nd - 1\<rparr>)\<rparr>\<rparr>)"
  by (simp add: release_writer_def node_rmw_solo)

lemma start_cooldown_solo:
  "solo w \<Longrightarrow> nodes (sh w) n = Some nd \<Longrightarrow> in_use nd = NODE_USED \<Longrightarrow>
   start_cooldown n w = (Inr (), w\<lparr>sh := (sh w)\<lparr>nodes := (nodes (sh w))(n \<mapsto> nd\<lparr>in_use := NODE_COOLDOWN\<rparr>)\<rparr>\<rparr>)"
  by (simp add: start_cooldown_def bnd_apply reserve_writer_solo in_use_swap_solo release_writer_solo)

text \<open>A node that can be claimed: unused, or in cooldown with no writer on it.\<close>

definition claimable :: "Node \<Rightarrow> bool" where
  "claimable nd \<longleftrightarrow> in_use nd = NODE_UNUSED \<or> in_use nd = NODE_COOLDOWN \<and> active_writers nd = 0"

lemma node_states [simp]:
  "NODE_UNUSED \<noteq> NODE_USED" "NODE_USED \<noteq> NODE_UNUSED" "NODE_UNUSED \<noteq> NODE_COOLDOWN"
  "NODE_COOLDOWN \<noteq> NODE_UNUSED" "NODE_USED \<noteq> NODE_COOLDOWN" "NODE_COOLDOWN \<noteq> NODE_USED"
  by (simp_all add: NODE_UNUSED_def NODE_USED_def NODE_COOLDOWN_def)

lemma try_claim_solo:
  assumes "solo w" and "nodes (sh w) n = Some nd"
  shows "try_claim n w =
    (if claimable nd then (Inr (Some n), w\<lparr>sh := (sh w)\<lparr>nodes := (nodes (sh w))(n \<mapsto> nd\<lparr>in_use := NODE_USED\<rparr>)\<rparr>\<rparr>)
     else (Inr None, w))"
  using assms
  by (auto simp: try_claim_def check_cooldown_def bnd_apply in_use_load_solo in_use_cas_solo
      node_read_solo claimable_def)

lemma traverse_solo:
  "solo w \<Longrightarrow> traverse f w = traverse_from (node_cnt (sh w)) (list_head (sh w)) f w"
  by (simp add: traverse_def bnd_apply atomic_solo)

definition node_at :: "'v shared \<Rightarrow> usize \<Rightarrow> Node" where
  "node_at s n = the (nodes s n)"

lemma traverse_claim_solo:
  assumes "solo w" and "chained (sh w) ns"
  shows "traverse try_claim w =
    (case find (\<lambda>n. claimable (node_at (sh w) n)) ns of
       None \<Rightarrow> (Inr None, w)
     | Some n \<Rightarrow> (Inr (Some n), w\<lparr>sh := (sh w)\<lparr>nodes := (nodes (sh w))(n \<mapsto>
           (node_at (sh w) n)\<lparr>in_use := NODE_USED\<rparr>)\<rparr>\<rparr>))"
proof -
  have nd: "\<exists>nd. nodes (sh w) n = Some nd \<and> next_node nd = next_of (sh w) n" if "n \<in> set ns" for n
    using chained_node[OF assms(2) that] by (auto simp: next_of_def)
  show ?thesis
    unfolding traverse_solo[OF assms(1)]
  proof (rule traverse_from_find[where nx = "next_of (sh w)"])
    show "links (next_of (sh w)) (list_head (sh w)) ns" "length ns \<le> node_cnt (sh w)"
      using assms(2) by (auto simp: chained_def)
  qed (use nd assms(1) try_claim_solo in \<open>force simp: node_at_def\<close>)+
qed

text \<open>Pushing a node: spurious failures only cost retries.\<close>

lemma list_head_cas_weak_fail:
  "solo w \<Longrightarrow> weak_cas w = True # bs \<Longrightarrow>
   list_head_cas_weak head n w = (Inr (list_head (sh w), False), w\<lparr>weak_cas := bs\<rparr>)"
  by (simp add: list_head_cas_weak_def bnd_apply spurious_def atomic_solo)

lemma list_head_cas_weak_ok:
  "solo w \<Longrightarrow> \<nexists>bs. weak_cas w = True # bs \<Longrightarrow> head = list_head (sh w) \<Longrightarrow>
   list_head_cas_weak head n w = (Inr (head, True), w\<lparr>weak_cas := tl (weak_cas w),
       sh := (sh w)\<lparr>list_head := n, node_cnt := node_cnt (sh w) + 1\<rparr>\<rparr>)"
  by (auto simp: list_head_cas_weak_def bnd_apply spurious_def atomic_solo split: list.splits)

lemma push_loop_solo:
  assumes "solo w" and "nodes (sh w) n = Some nd" and "length (takeWhile (\<lambda>b. b) (weak_cas w)) < k"
  shows "push_loop k n (list_head (sh w)) w =
    (Inr n, w\<lparr>weak_cas := tl (dropWhile (\<lambda>b. b) (weak_cas w)),
       sh := (sh w)\<lparr>nodes := (nodes (sh w))(n \<mapsto> nd\<lparr>next_node := list_head (sh w)\<rparr>),
         list_head := n, node_cnt := node_cnt (sh w) + 1\<rparr>\<rparr>)"
  using assms
proof (induction k arbitrary: w nd)
  case (Suc k)
  let ?nd = "nd\<lparr>next_node := list_head (sh w)\<rparr>"
  let ?w = "w\<lparr>sh := (sh w)\<lparr>nodes := (nodes (sh w))(n \<mapsto> ?nd)\<rparr>\<rparr>"
  have set_next: "node_rmw n (\<lambda>nd. ((), nd\<lparr>next_node := list_head (sh w)\<rparr>)) w = (Inr (), ?w)"
    using Suc.prems by (simp add: node_rmw_solo)
  show ?case
  proof (cases "\<exists>bs. weak_cas w = True # bs")
    case True
    then obtain bs where bs: "weak_cas w = True # bs" by blast
    then show ?thesis
      using Suc.IH[of "?w\<lparr>weak_cas := bs\<rparr>" ?nd] Suc.prems
      by (simp add: bnd_apply set_next list_head_cas_weak_fail del: fun_upd_apply add: fun_upd_same)
  next
    case False
    then have "dropWhile (\<lambda>b. b) (weak_cas w) = weak_cas w" by (cases "weak_cas w") auto
    then show ?thesis using False Suc.prems(1)
      by (simp add: bnd_apply set_next list_head_cas_weak_ok del: fun_upd_apply)
  qed
qed simp

text \<open>A fresh node, as it stands after it is pushed in front of \<open>head\<close>.\<close>

definition fresh_node :: "usize \<Rightarrow> usize \<Rightarrow> Node" where
  "fresh_node e head =
     (node_default e)\<lparr>helping := helping_init (helping_default e), next_node := head\<rparr>"

text \<open>The shared memory after \<open>Node::get\<close>, and the node it hands out.\<close>

definition get_spec :: "usize list \<Rightarrow> 'v shared \<Rightarrow> usize \<times> 'v shared" where
  "get_spec ns s =
     (case find (\<lambda>n. claimable (node_at s n)) ns of
        Some n \<Rightarrow> (n, s\<lparr>nodes := (nodes s)(n \<mapsto> (node_at s n)\<lparr>in_use := NODE_USED\<rparr>)\<rparr>)
      | None \<Rightarrow>
          (case hd (box_supply s) of (n, e) \<Rightarrow>
             (n, s\<lparr>box_supply := tl (box_supply s), envelopes := (envelopes s)(e \<mapsto> 0),
                   nodes := (nodes s)(n \<mapsto> fresh_node e (list_head s)), list_head := n,
                   node_cnt := node_cnt s + 1\<rparr>)))"

text \<open>The allocator still has an address to give, and it is not in use.\<close>

definition box_available :: "'v shared \<Rightarrow> bool" where
  "box_available s \<longleftrightarrow> (case box_supply s of [] \<Rightarrow> False
     | (n, e) # _ \<Rightarrow> n \<noteq> 0 \<and> nodes s n = None \<and> envelopes s e = None \<and> aligned4 e)"

lemma node_get_solo:
  assumes "solo w" and "chained (sh w) ns" and "box_available (sh w)"
    and "spurious_left w < fuel w"
  obtains ws where "node_get w = (Inr (fst (get_spec ns (sh w))), w\<lparr>sh := snd (get_spec ns (sh w)), weak_cas := ws\<rparr>)"
    and "length (filter (\<lambda>b. b) ws) \<le> spurious_left w"
proof (cases "find (\<lambda>n. claimable (node_at (sh w) n)) ns")
  case (Some n)
  then have "node_get w = (Inr n, w\<lparr>sh := snd (get_spec ns (sh w)), weak_cas := weak_cas w\<rparr>)"
    using assms by (simp add: node_get_def bnd_apply traverse_claim_solo get_spec_def)
  moreover have "fst (get_spec ns (sh w)) = n" using Some by (simp add: get_spec_def)
  ultimately show ?thesis using that[of "weak_cas w"] by (simp add: spurious_left_def)
next
  case None
  obtain n e rest where box: "box_supply (sh w) = (n, e) # rest"
    using assms(3) by (auto simp: box_available_def split: list.splits)
  let ?nd = "(node_default e)\<lparr>helping := helping_init (helping (node_default e))\<rparr>"
  let ?w = "w\<lparr>sh := (sh w)\<lparr>box_supply := rest, envelopes := (envelopes (sh w))(e \<mapsto> 0),
      nodes := (nodes (sh w))(n \<mapsto> ?nd)\<rparr>\<rparr>"
  have alloc: "alloc_node w = (Inr n, ?w)"
    using assms(1) box by (simp add: alloc_node_def atomic_solo Let_def)
  have "push_loop (fuel w) n (list_head (sh ?w)) ?w =
    (Inr n, ?w\<lparr>weak_cas := tl (dropWhile (\<lambda>b. b) (weak_cas w)),
       sh := (sh ?w)\<lparr>nodes := (nodes (sh ?w))(n \<mapsto> ?nd\<lparr>next_node := list_head (sh w)\<rparr>),
         list_head := n, node_cnt := node_cnt (sh w) + 1\<rparr>\<rparr>)"
    using push_loop_solo[of ?w n ?nd "fuel w"] assms(1,4) takeWhile_filter_length[of "\<lambda>b. b" "weak_cas w"]
    by (simp add: spurious_left_def)
  then have "node_get w = (Inr (fst (get_spec ns (sh w))),
      w\<lparr>sh := snd (get_spec ns (sh w)), weak_cas := tl (dropWhile (\<lambda>b. b) (weak_cas w))\<rparr>)"
    using assms(1,2) None box alloc
    by (simp add: node_get_def bnd_apply traverse_claim_solo atomic_solo loc_exec get_spec_def
        fresh_node_def node_default_def)
  then show ?thesis by (rule that) (simp add: spurious_left_def filter_dropWhile_length)
qed

section \<open>Quiescent memory\<close>

text \<open>
  Between two operations no reader is half way through the helping protocol: every control word is
  idle, every helping slot is free and every offered envelope is allocated and leaves room for the
  tag bits. \<open>local_ok\<close> is what a thread may rely on about the node it holds.
\<close>

definition quiet_node :: "'v shared \<Rightarrow> Node \<Rightarrow> bool" where
  "quiet_node s nd \<longleftrightarrow> control (helping nd) = IDLE \<and> slot (helping nd) = NONE \<and>
     aligned4 (space_offer (helping nd)) \<and> envelopes s (space_offer (helping nd)) \<noteq> None"

definition quiet :: "'v shared \<Rightarrow> bool" where
  "quiet s \<longleftrightarrow> (\<forall>n nd. nodes s n = Some nd \<longrightarrow> quiet_node s nd)"

definition local_ok :: "'v shared \<Rightarrow> LocalNode \<Rightarrow> bool" where
  "local_ok s l \<longleftrightarrow> aligned4 (generation l) \<and>
     (\<forall>n. node l = Some n \<longrightarrow> (\<exists>nd. nodes s n = Some nd \<and> in_use nd = NODE_USED))"

text \<open>The number of slots that hold a debt for \<open>p\<close>.\<close>

definition node_debts :: "Node \<Rightarrow> usize \<Rightarrow> nat" where
  "node_debts nd p = count_list (fast nd) p + (if slot (helping nd) = p then 1 else 0)"

definition debts :: "'v shared \<Rightarrow> usize \<Rightarrow> nat" where
  "debts s p = (\<Sum>n \<in> dom (nodes s). node_debts (node_at s n) p)"

lemma chained_finite: "chained s ns \<Longrightarrow> finite (dom (nodes s))"
  unfolding chained_def by (metis List.finite_set)

lemma debts_list: "chained s ns \<Longrightarrow> debts s p = sum_list (map (\<lambda>n. node_debts (node_at s n) p) ns)"
  unfolding debts_def chained_def by (metis sum.distinct_set_conv_list)

lemma debts_update:
  assumes "finite (dom (nodes s))" and "nodes s n = Some nd"
  shows "debts (s\<lparr>nodes := (nodes s)(n \<mapsto> nd')\<rparr>) p + node_debts nd p = debts s p + node_debts nd' p"
proof -
  let ?s = "s\<lparr>nodes := (nodes s)(n \<mapsto> nd')\<rparr>"
  have "debts s p = node_debts (node_at s n) p + (\<Sum>m \<in> dom (nodes s) - {n}. node_debts (node_at s m) p)"
    unfolding debts_def by (rule sum.remove) (use assms in auto)
  moreover have "debts ?s p = node_debts (node_at ?s n) p + (\<Sum>m \<in> dom (nodes ?s) - {n}. node_debts (node_at ?s m) p)"
    unfolding debts_def by (rule sum.remove) (use assms in auto)
  moreover have "(\<Sum>m \<in> dom (nodes ?s) - {n}. node_debts (node_at ?s m) p) =
      (\<Sum>m \<in> dom (nodes s) - {n}. node_debts (node_at s m) p)"
    by (rule sum.cong) (auto simp: node_at_def)
  ultimately show ?thesis using assms(2) by (simp add: node_at_def)
qed

lemma debts_frame [simp]:
  "debts (s\<lparr>heap := h\<rparr>) p = debts s p" "debts (s\<lparr>storage := g\<rparr>) p = debts s p"
  "debts (s\<lparr>envelopes := e\<rparr>) p = debts s p" "debts (s\<lparr>box_supply := b\<rparr>) p = debts s p"
  "debts (s\<lparr>list_head := x\<rparr>) p = debts s p" "debts (s\<lparr>node_cnt := k\<rparr>) p = debts s p"
  by (simp_all add: debts_def node_at_def)

lemma quiet_frame [simp]:
  "quiet (s\<lparr>rw_readers := r\<rparr>) = quiet s" "quiet (s\<lparr>rw_writer := x\<rparr>) = quiet s"
  "quiet (s\<lparr>arc_supply := ps\<rparr>) = quiet s"
  "quiet (s\<lparr>heap := h\<rparr>) = quiet s" "quiet (s\<lparr>storage := g\<rparr>) = quiet s"
  by (simp_all add: quiet_def quiet_node_def)

lemma local_ok_frame [simp]:
  "local_ok (s\<lparr>rw_readers := r\<rparr>) l = local_ok s l" "local_ok (s\<lparr>rw_writer := x\<rparr>) l = local_ok s l"
  "local_ok (s\<lparr>arc_supply := ps\<rparr>) l = local_ok s l"
  "local_ok (s\<lparr>heap := h\<rparr>) l = local_ok s l" "local_ok (s\<lparr>storage := g\<rparr>) l = local_ok s l"
  by (simp_all add: local_ok_def)

lemma quiet_update:
  "quiet s \<Longrightarrow> quiet_node s nd \<Longrightarrow> quiet (s\<lparr>nodes := (nodes s)(n \<mapsto> nd)\<rparr>)"
  by (auto simp: quiet_def quiet_node_def)

section \<open>Getting a node\<close>

lemma fresh_node_fields [simp]:
  "node_ok (fresh_node e x)" "in_use (fresh_node e x) = NODE_USED" "next_node (fresh_node e x) = x"
  "control (helping (fresh_node e x)) = IDLE" "slot (helping (fresh_node e x)) = NONE"
  "space_offer (helping (fresh_node e x)) = e" "fast (fresh_node e x) = fast_default"
  by (simp_all add: fresh_node_def node_default_def helping_init_def helping_default_def node_ok_def fast_default_def)

lemma fresh_node_debts: "p \<noteq> NONE \<Longrightarrow> node_debts (fresh_node e x) p = 0"
  by (simp add: node_debts_def fast_default_def count_list_0_iff)

lemma get_spec_claim:
  assumes "find (\<lambda>n. claimable (node_at s n)) ns = Some n" and "chained s ns"
  obtains nd where "nodes s n = Some nd" and "node_ok nd" and "claimable nd" and "n \<in> set ns"
    and "get_spec ns s = (n, s\<lparr>nodes := (nodes s)(n \<mapsto> nd\<lparr>in_use := NODE_USED\<rparr>)\<rparr>)"
proof -
  have n: "n \<in> set ns" and c: "claimable (node_at s n)" using assms(1) by (auto simp: find_Some_iff)
  obtain nd where nd: "nodes s n = Some nd" "node_ok nd" using chained_node[OF assms(2) n] by auto
  show ?thesis using that[OF nd] c n assms(1) nd by (simp add: get_spec_def node_at_def)
qed

lemma get_spec_fresh:
  assumes "find (\<lambda>n. claimable (node_at s n)) ns = None" and "box_available s"
  obtains n e rest where "box_supply s = (n, e) # rest" and "n \<noteq> 0" and "nodes s n = None"
    and "envelopes s e = None" and "aligned4 e"
    and "get_spec ns s = (n, s\<lparr>box_supply := rest, envelopes := (envelopes s)(e \<mapsto> 0),
           nodes := (nodes s)(n \<mapsto> fresh_node e (list_head s)), list_head := n, node_cnt := node_cnt s + 1\<rparr>)"
proof -
  obtain n e rest where b: "box_supply s = (n, e) # rest" "n \<noteq> 0" "nodes s n = None"
      "envelopes s e = None" "aligned4 e"
    using assms(2) by (auto simp: box_available_def split: list.splits)
  then show ?thesis using that[OF b] assms(1) by (simp add: get_spec_def)
qed

text \<open>
  Whatever \<open>Node::get\<close> returns is a used node of a chain that is either the old one or the old one
  with the new node in front; nothing else about debts, counts or storages changes.
\<close>

lemma get_spec_ok:
  assumes "chained s ns" and "box_available s" and "quiet s"
  defines "n \<equiv> fst (get_spec ns s)" and "s' \<equiv> snd (get_spec ns s)"
  shows "(\<exists>ns'. chained s' ns' \<and> (ns' = ns \<or> ns' = n # ns)) \<and> quiet s' \<and>
    (\<exists>nd. nodes s' n = Some nd \<and> in_use nd = NODE_USED) \<and>
    heap s' = heap s \<and> storage s' = storage s \<and> (\<forall>p. p \<noteq> NONE \<longrightarrow> debts s' p = debts s p)"
proof (cases "find (\<lambda>n. claimable (node_at s n)) ns")
  case (Some m)
  then obtain nd where nd: "nodes s m = Some nd" "node_ok nd"
      "get_spec ns s = (m, s\<lparr>nodes := (nodes s)(m \<mapsto> nd\<lparr>in_use := NODE_USED\<rparr>)\<rparr>)"
    using assms(1) by (rule get_spec_claim)
  have "quiet_node s nd" using assms(3) nd(1) by (simp add: quiet_def)
  then have "quiet s'" using nd assms(3) unfolding s'_def by (auto intro: quiet_update simp: quiet_node_def)
  moreover have "chained s' ns"
    using assms(1) nd unfolding s'_def by (auto intro!: chained_update simp: node_ok_def)
  moreover have "debts s' p = debts s p" for p
    using debts_update[OF chained_finite[OF assms(1)] nd(1), of "nd\<lparr>in_use := NODE_USED\<rparr>" p] nd
    unfolding s'_def by (simp add: node_debts_def)
  ultimately show ?thesis using nd unfolding n_def s'_def by auto
next
  case None
  then obtain m e rest where m: "box_supply s = (m, e) # rest" "m \<noteq> 0" "nodes s m = None"
      "envelopes s e = None" "aligned4 e"
      "get_spec ns s = (m, s\<lparr>box_supply := rest, envelopes := (envelopes s)(e \<mapsto> 0),
         nodes := (nodes s)(m \<mapsto> fresh_node e (list_head s)), list_head := m, node_cnt := node_cnt s + 1\<rparr>)"
    using assms(2) by (rule get_spec_fresh)
  have s': "s' = s\<lparr>box_supply := rest, envelopes := (envelopes s)(e \<mapsto> 0),
      nodes := (nodes s)(m \<mapsto> fresh_node e (list_head s)), list_head := m, node_cnt := node_cnt s + 1\<rparr>"
    using m by (simp add: s'_def)
  have fin: "finite (dom (nodes s))" using assms(1) by (rule chained_finite)
  have m_notin: "m \<notin> set ns" using assms(1) m(3) by (auto simp: chained_def)
  have "links (next_of s') (list_head s) ns \<longleftrightarrow> links (next_of s) (list_head s) ns"
    using m_notin by (intro links_cong) (auto simp: s' next_of_def)
  then have "links (next_of s') m (m # ns)"
    using m assms(1) by (simp add: chained_def s' next_of_def)
  then have "chained s' (m # ns)"
    using assms(1) m m_notin by (auto simp: chained_def s' split: if_splits)
  moreover have "quiet s'"
    using assms(3) m by (auto simp: quiet_def quiet_node_def s' split: if_splits)
  moreover have "debts s' p = debts s p" if "p \<noteq> NONE" for p
  proof -
    have "(\<Sum>k \<in> dom (nodes s). node_debts (node_at s' k) p) = debts s p"
      unfolding debts_def by (rule sum.cong) (use m in \<open>auto simp: s' node_at_def\<close>)
    moreover have "debts s' p = node_debts (node_at s' m) p + (\<Sum>k \<in> dom (nodes s). node_debts (node_at s' k) p)"
      unfolding debts_def using fin m by (simp add: s' domIff)
    ultimately show ?thesis using fresh_node_debts[OF that] by (simp add: s' node_at_def)
  qed
  ultimately show ?thesis using m unfolding n_def s'_def by auto
qed

section \<open>The local node\<close>

lemma with_local_held [exec]: "tls_alive w \<Longrightarrow> node (loc w) = Some n \<Longrightarrow> with_local f w = f w"
  by (simp add: with_local_def)

lemma with_local_claim:
  assumes "tls_alive w" and "node (loc w) = None" and "solo w" and "chained (sh w) ns"
    and "box_available (sh w)" and "spurious_left w < fuel w"
  obtains ws where "with_local f w =
      f (w\<lparr>sh := snd (get_spec ns (sh w)), weak_cas := ws,
           loc := (loc w)\<lparr>node := Some (fst (get_spec ns (sh w)))\<rparr>\<rparr>)"
    and "length (filter (\<lambda>b. b) ws) \<le> spurious_left w"
proof -
  obtain ws where get: "node_get w = (Inr (fst (get_spec ns (sh w))),
      w\<lparr>sh := snd (get_spec ns (sh w)), weak_cas := ws\<rparr>)" and ws: "length (filter (\<lambda>b. b) ws) \<le> spurious_left w"
    using node_get_solo[OF assms(3-6)] .
  show ?thesis using that[OF _ ws] assms(1,2) get by (simp add: with_local_def bnd_apply loc_exec)
qed

lemma local_node_solo [exec]:
  "solo w \<Longrightarrow> node (loc w) = Some n \<Longrightarrow> nodes (sh w) n = Some nd \<Longrightarrow> in_use nd = NODE_USED \<Longrightarrow>
   local_node w = (Inr n, w)"
  by (simp add: local_node_def bnd_apply loc_exec in_use_load_solo)

lemma local_node_None: "node (loc w) = None \<Longrightarrow> local_node w = (Inl ExpectNone, w)"
  by (simp add: local_node_def bnd_apply loc_exec)

end
