(* ===== verification/PayAll.thy ===== *)
theory PayAll
  imports NodeList
begin

text \<open>
  \<open>Debt::pay_all\<close> of \<^verbatim>\<open>src/debt/mod.rs\<close>: after a pointer left its storage, the writer walks
  the whole list, helps the readers it catches half way through, and pays every debt on the pointer
  with a reference it took beforehand.
\<close>

definition pay_slots :: "('t, 'v) RefCnt \<Rightarrow> 't \<Rightarrow> usize \<Rightarrow> Debt list \<Rightarrow> ('v, unit) prog" where
  "pay_slots T val ptr slots =
     for_each slots (\<lambda>d.
       bnd (pay d ptr) (\<lambda>paid.
       if paid then bnd (inc_value T val) (\<lambda>_. ret ()) else ret ()))"

definition pay_node :: "('t, 'v) RefCnt \<Rightarrow> 't \<Rightarrow> usize \<Rightarrow> usize \<Rightarrow> ('v, 't) prog \<Rightarrow> usize \<Rightarrow> ('v, unit option) prog" where
  "pay_node T val ptr storage_addr replacement n =
     bnd (reserve_writer n) (\<lambda>_.
     bnd (local_help T n storage_addr replacement) (\<lambda>_.
     bnd (pay_slots T val ptr (fast_slots n @ [helping_slot n])) (\<lambda>_.
     bnd (release_writer n) (\<lambda>_.
     ret None))))"

definition pay_all :: "('t, 'v) RefCnt \<Rightarrow> usize \<Rightarrow> usize \<Rightarrow> ('v, 't) prog \<Rightarrow> ('v, unit) prog" where
  "pay_all T ptr storage_addr replacement =
     with_local (
       let val = from_ptr T ptr in
       bnd (inc_value T val) (\<lambda>_.
       bnd (traverse (pay_node T val ptr storage_addr replacement)) (\<lambda>_.
       drop_val T val)))"

section \<open>The effect of paying\<close>

text \<open>What paying does to one slot, to one node and to the whole memory.\<close>

definition clear :: "usize \<Rightarrow> usize \<Rightarrow> usize" where
  "clear p v = (if v = p then NONE else v)"

definition clear_node :: "usize \<Rightarrow> Node \<Rightarrow> Node" where
  "clear_node p nd =
     nd\<lparr>fast := map (clear p) (fast nd), helping := (helping nd)\<lparr>slot := clear p (slot (helping nd))\<rparr>\<rparr>"

definition clear_all :: "usize \<Rightarrow> 'v shared \<Rightarrow> 'v shared" where
  "clear_all p s = s\<lparr>nodes := (\<lambda>n. map_option (clear_node p) (nodes s n))\<rparr>"

lemma clear_node_fields [simp]:
  "next_node (clear_node p nd) = next_node nd" "in_use (clear_node p nd) = in_use nd"
  "active_writers (clear_node p nd) = active_writers nd" "node_ok (clear_node p nd) = node_ok nd"
  "control (helping (clear_node p nd)) = control (helping nd)"
  "space_offer (helping (clear_node p nd)) = space_offer (helping nd)"
  by (simp_all add: clear_node_def node_ok_def)

lemma clear_node_debts:
  assumes "p \<noteq> NONE" and "q \<noteq> NONE"
  shows "node_debts (clear_node p nd) q = (if q = p then 0 else node_debts nd q)"
proof -
  have "count_list (map (clear p) vs) q = (if q = p then 0 else count_list vs q)" for vs
    using assms by (induction vs) (auto simp: clear_def)
  then show ?thesis using assms by (auto simp: node_debts_def clear_node_def clear_def)
qed

lemma clear_all_debts:
  assumes "p \<noteq> NONE" and "q \<noteq> NONE"
  shows "debts (clear_all p s) q = (if q = p then 0 else debts s q)"
proof -
  have dom: "dom (nodes (clear_all p s)) = dom (nodes s)" by (auto simp: clear_all_def)
  have "debts (clear_all p s) q = (\<Sum>n \<in> dom (nodes s). if q = p then 0 else node_debts (node_at s n) q)"
    unfolding debts_def dom
    by (rule sum.cong) (use assms clear_node_debts in \<open>auto simp: node_at_def clear_all_def\<close>)
  then show ?thesis by (simp add: debts_def)
qed

lemma clear_all_chained: "chained s ns \<Longrightarrow> chained (clear_all p s) ns"
proof -
  assume a: "chained s ns"
  have "next_of (clear_all p s) = next_of s"
    by (auto simp: next_of_def clear_all_def fun_eq_iff split: option.splits)
  moreover have "dom (nodes (clear_all p s)) = dom (nodes s)" by (auto simp: clear_all_def)
  ultimately show ?thesis using a
    by (auto simp: chained_def clear_all_def)
qed

lemma clear_all_quiet: "quiet s \<Longrightarrow> quiet (clear_all p s)"
  by (auto simp: quiet_def quiet_node_def clear_all_def) (auto simp: clear_node_def clear_def)

lemma clear_all_local_ok: "local_ok s l \<Longrightarrow> local_ok (clear_all p s) l"
  by (fastforce simp: local_ok_def clear_all_def)

lemma clear_all_frame [simp]:
  "heap (clear_all p s) = heap s" "storage (clear_all p s) = storage s"
  "envelopes (clear_all p s) = envelopes s" "box_supply (clear_all p s) = box_supply s"
  "arc_supply (clear_all p s) = arc_supply s" "rw_readers (clear_all p s) = rw_readers s"
  "rw_writer (clear_all p s) = rw_writer s"
  by (simp_all add: clear_all_def)

context ref_cnt
begin

text \<open>One slot: an unpaid debt is replaced by a reference, anything else is left alone.\<close>

definition pay_one :: "usize \<Rightarrow> Debt \<Rightarrow> 'v shared \<Rightarrow> 'v shared" where
  "pay_one p d s =
     (if slot_get s d = Some p then (slot_set d NONE s)\<lparr>heap := up p (heap s)\<rparr> else s)"

lemma pay_one_heap: "live (heap s) p \<Longrightarrow> live (heap (pay_one p d s)) q \<longleftrightarrow> live (heap s) q"
  by (simp add: pay_one_def live_up)

lemma slot_get_heap [simp]: "slot_get (s\<lparr>heap := h\<rparr>) d = slot_get s d"
  by (cases d) auto

lemma pay_one_get_other: "d \<noteq> e \<Longrightarrow> slot_get (pay_one p d s) e = slot_get s e"
  by (simp add: pay_one_def)

lemma pay_slots_solo:
  assumes "solo w" and "live (heap (sh w)) p" and "distinct ds"
    and "\<forall>d \<in> set ds. slot_get (sh w) d \<noteq> None"
  shows "pay_slots T (from_ptr T p) p ds w = (Inr (), w\<lparr>sh := fold (pay_one p) ds (sh w)\<rparr>)"
  using assms unfolding pay_slots_def
proof (induction ds arbitrary: w)
  case (Cons d ds)
  obtain v where v: "slot_get (sh w) d = Some v" using Cons.prems(4) by auto
  let ?w = "w\<lparr>sh := pay_one p d (sh w)\<rparr>"
  have step: "bnd (pay d p) (\<lambda>paid. if paid then bnd (inc_value T (from_ptr T p)) (\<lambda>_. ret ()) else ret ()) w = (Inr (), ?w)"
    using Cons.prems(1,2) v by (simp add: bnd_apply pay_solo inc_value_solo pay_one_def)
  have others: "\<forall>e \<in> set ds. slot_get (sh ?w) e \<noteq> None"
  proof
    fix e assume "e \<in> set ds"
    then have "d \<noteq> e" and "slot_get (sh w) e \<noteq> None" using Cons.prems(3,4) by auto
    then show "slot_get (sh ?w) e \<noteq> None" by (simp add: pay_one_get_other)
  qed
  show ?case
    using Cons.IH[of ?w] Cons.prems others step by (simp add: bnd_apply pay_one_heap)
qed simp

text \<open>All slots of a node.\<close>

lemma fold_pay_fast:
  assumes "nodes s n = Some nd" and "k \<le> length (fast nd)"
  shows "fold (pay_one p) (map (FastDebt n) [0..<k]) s =
    s\<lparr>nodes := (nodes s)(n \<mapsto> nd\<lparr>fast := map (clear p) (take k (fast nd)) @ drop k (fast nd)\<rparr>),
      heap := (up p ^^ count_list (take k (fast nd)) p) (heap s)\<rparr>"
  using assms(2)
proof (induction k)
  case 0
  then show ?case using assms(1) by (simp add: fun_upd_idem)
next
  case (Suc k)
  let ?vs = "map (clear p) (take k (fast nd)) @ drop k (fast nd)"
  have k: "k < length (fast nd)" using Suc.prems by simp
  have nth: "?vs ! k = fast nd ! k" and len: "length ?vs = length (fast nd)"
    using k by (auto simp: nth_append)
  have upd: "?vs[k := NONE] = map (clear p) (take (Suc k) (fast nd)) @ drop (Suc k) (fast nd)"
    if "fast nd ! k = p"
    using that k by (simp add: list_update_append take_Suc_conv_app_nth clear_def Cons_nth_drop_Suc[symmetric])
  have same: "?vs = map (clear p) (take (Suc k) (fast nd)) @ drop (Suc k) (fast nd)" if "fast nd ! k \<noteq> p"
    using that k by (simp add: take_Suc_conv_app_nth clear_def Cons_nth_drop_Suc[symmetric])
  let ?S = "s\<lparr>nodes := (nodes s)(n \<mapsto> nd\<lparr>fast := ?vs\<rparr>),
      heap := (up p ^^ count_list (take k (fast nd)) p) (heap s)\<rparr>"
  have S: "fold (pay_one p) (map (FastDebt n) [0..<k]) s = ?S" using Suc.IH k by (simp del: fun_upd_apply)
  have get: "slot_get ?S (FastDebt n k) = Some (fast nd ! k)" using nth len k by simp
  show ?case
  proof (cases "fast nd ! k = p")
    case True
    have "slot_set (FastDebt n k) NONE ?S = ?S\<lparr>nodes := (nodes s)(n \<mapsto> nd\<lparr>fast := ?vs[k := NONE]\<rparr>)\<rparr>"
      by (simp add: slot_set_def del: fun_upd_apply add: fun_upd_same)
    then have "pay_one p (FastDebt n k) ?S = ?S\<lparr>nodes := (nodes s)(n \<mapsto> nd\<lparr>fast := ?vs[k := NONE]\<rparr>),
        heap := up p ((up p ^^ count_list (take k (fast nd)) p) (heap s))\<rparr>"
      using get True by (simp add: pay_one_def del: fun_upd_apply slot_get.simps)
    moreover have "count_list (take (Suc k) (fast nd)) p = Suc (count_list (take k (fast nd)) p)"
      using True k by (simp add: take_Suc_conv_app_nth)
    ultimately show ?thesis unfolding upd[OF True] by (simp add: S del: fun_upd_apply)
  next
    case False
    have "pay_one p (FastDebt n k) ?S = ?S"
      using get False by (simp add: pay_one_def del: fun_upd_apply slot_get.simps)
    moreover have "count_list (take (Suc k) (fast nd)) p = count_list (take k (fast nd)) p"
      using False k by (simp add: take_Suc_conv_app_nth)
    ultimately show ?thesis unfolding same[OF False, symmetric] by (simp add: S del: fun_upd_apply)
  qed
qed

lemma fold_pay_node:
  assumes "nodes s n = Some nd" and "node_ok nd"
  shows "fold (pay_one p) (fast_slots n @ [helping_slot n]) s =
    s\<lparr>nodes := (nodes s)(n \<mapsto> clear_node p nd), heap := (up p ^^ node_debts nd p) (heap s)\<rparr>"
proof -
  have "fold (pay_one p) (fast_slots n) s =
    s\<lparr>nodes := (nodes s)(n \<mapsto> nd\<lparr>fast := map (clear p) (fast nd)\<rparr>),
      heap := (up p ^^ count_list (fast nd) p) (heap s)\<rparr>"
    using fold_pay_fast[OF assms(1), of "length (fast nd)" p] assms(2)
    by (simp add: fast_slots_def node_ok_def)
  then show ?thesis
    by (auto simp: helping_slot_def pay_one_def slot_set_def clear_node_def node_debts_def clear_def)
qed

text \<open>One step of the walk, when no reader is half way through.\<close>

definition pay_effect :: "usize \<Rightarrow> usize \<Rightarrow> 'v world \<Rightarrow> 'v world" where
  "pay_effect p n w =
     w\<lparr>sh := (sh w)\<lparr>nodes := (nodes (sh w))(n \<mapsto> clear_node p (node_at (sh w) n)),
       heap := (up p ^^ node_debts (node_at (sh w) n) p) (heap (sh w))\<rparr>\<rparr>"

text \<open>What holds while a thread walks a memory where nobody else is active.\<close>

definition writer_ok :: "usize \<Rightarrow> usize list \<Rightarrow> 'v world \<Rightarrow> bool" where
  "writer_ok p ns w \<longleftrightarrow> solo w \<and> 0 < fuel w \<and> chained (sh w) ns \<and> quiet (sh w) \<and>
     local_ok (sh w) (loc w) \<and> node (loc w) \<noteq> None \<and> live (heap (sh w)) p"

lemma pay_node_solo:
  assumes "writer_ok p ns w" and "n \<in> set ns"
  shows "pay_node T (from_ptr T p) p a repl n w = (Inr None, pay_effect p n w)"
proof -
  from assms have w: "solo w" "0 < fuel w" "quiet (sh w)" "live (heap (sh w)) p"
    and ch: "chained (sh w) ns" by (auto simp: writer_ok_def)
  obtain m ndm where m: "node (loc w) = Some m" "nodes (sh w) m = Some ndm" "in_use ndm = NODE_USED"
    using assms(1) by (auto simp: writer_ok_def local_ok_def)
  obtain nd where nd: "nodes (sh w) n = Some nd" "node_ok nd" using chained_node[OF ch assms(2)] by blast
  let ?nd = "nd\<lparr>active_writers := active_writers nd + 1\<rparr>"
  let ?w = "w\<lparr>sh := (sh w)\<lparr>nodes := (nodes (sh w))(n \<mapsto> ?nd)\<rparr>\<rparr>"
  have q: "control (helping ndm) = IDLE" "control (helping nd) = IDLE"
    using w(3) m(2) nd(1) by (auto simp: quiet_def quiet_node_def)
  define ndm' where "ndm' = (if m = n then ?nd else ndm)"
  have m': "nodes (sh ?w) m = Some ndm'" "in_use ndm' = NODE_USED" "control (helping ndm') = IDLE"
    using m nd q by (auto simp: ndm'_def)
  have helps: "local_help T n a repl ?w = (Inr (), ?w)"
    using m m' w q by (simp add: local_help_def bnd_apply local_node_solo[of ?w m ndm'] helping_help_idle)
  have slots: "distinct (fast_slots n @ [helping_slot n])"
    by (auto simp: fast_slots_def helping_slot_def distinct_map inj_on_def)
  have get: "\<forall>d \<in> set (fast_slots n @ [helping_slot n]). slot_get (sh ?w) d \<noteq> None"
    using nd(2) by (auto simp: fast_slots_def helping_slot_def node_ok_def)
  have ok: "node_ok ?nd" using nd(2) by (simp add: node_ok_def)
  let ?w2 = "w\<lparr>sh := (sh w)\<lparr>nodes := (nodes (sh w))(n \<mapsto> clear_node p ?nd), heap := (up p ^^ node_debts nd p) (heap (sh w))\<rparr>\<rparr>"
  have "fold (pay_one p) (fast_slots n @ [helping_slot n]) (sh ?w) = sh ?w2"
    using fold_pay_node[of "sh ?w" n ?nd p] ok by (simp add: node_debts_def)
  then have "pay_slots T (from_ptr T p) p (fast_slots n @ [helping_slot n]) ?w = (Inr (), ?w2)"
    using pay_slots_solo[of ?w p, OF _ _ slots get] w by simp
  moreover have "(clear_node p ?nd)\<lparr>active_writers := active_writers nd\<rparr> = clear_node p nd"
    by (simp add: clear_node_def)
  ultimately show ?thesis
    using w nd helps
    by (simp add: pay_node_def bnd_apply reserve_writer_solo release_writer_solo[of ?w2 n "clear_node p ?nd"]
        pay_effect_def node_at_def del: fun_upd_apply add: fun_upd_same)
qed

lemma writer_ok_effect:
  assumes "writer_ok p ns w" and "n \<in> set ns"
  shows "writer_ok p ns (pay_effect p n w)"
proof -
  obtain nd where nd: "nodes (sh w) n = Some nd" "node_ok nd"
    using chained_node[of "sh w" ns n] assms by (auto simp: writer_ok_def)
  have "quiet_node (sh w) nd" using assms(1) nd(1) by (simp add: writer_ok_def quiet_def)
  then have "quiet_node (sh w) (clear_node p nd)"
    by (auto simp: quiet_node_def) (auto simp: clear_node_def clear_def)
  then have "quiet (sh (pay_effect p n w))"
    using assms(1) nd quiet_update[of "sh w" "clear_node p nd" n]
    by (simp add: pay_effect_def node_at_def writer_ok_def)
  moreover have "chained (sh (pay_effect p n w)) ns"
    using assms(1) nd chained_update[of "sh w" ns n nd "clear_node p nd"]
    by (simp add: pay_effect_def node_at_def writer_ok_def)
  moreover have "local_ok (sh (pay_effect p n w)) (loc w)"
    using assms(1) nd by (auto simp: pay_effect_def node_at_def writer_ok_def local_ok_def)
  ultimately show ?thesis
    using assms(1) by (simp add: writer_ok_def pay_effect_def live_funpow_up)
qed

lemma fold_pay_effect:
  assumes "distinct ns" and "set ns \<subseteq> dom (nodes (sh w))"
  shows "fold (pay_effect p) ns w =
    w\<lparr>sh := (sh w)\<lparr>nodes := (\<lambda>m. if m \<in> set ns then map_option (clear_node p) (nodes (sh w) m) else nodes (sh w) m),
      heap := (up p ^^ sum_list (map (\<lambda>n. node_debts (node_at (sh w) n) p) ns)) (heap (sh w))\<rparr>\<rparr>"
  using assms
proof (induction ns arbitrary: w)
  case (Cons n ns)
  let ?w = "pay_effect p n w"
  have at: "node_at (sh ?w) m = node_at (sh w) m" if "m \<in> set ns" for m
    using that Cons.prems(1) by (auto simp: pay_effect_def node_at_def)
  have sub: "set ns \<subseteq> dom (nodes (sh ?w))" using Cons.prems(2) by (auto simp: pay_effect_def)
  have sum: "sum_list (map (\<lambda>m. node_debts (node_at (sh ?w) m) p) ns) =
      sum_list (map (\<lambda>m. node_debts (node_at (sh w) m) p) ns)"
    using at by (simp cong: map_cong)
  have nodes: "(\<lambda>m. if m \<in> set ns then map_option (clear_node p) (nodes (sh ?w) m) else nodes (sh ?w) m) =
      (\<lambda>m. if m \<in> set (n # ns) then map_option (clear_node p) (nodes (sh w) m) else nodes (sh w) m)"
    using Cons.prems by (auto simp: pay_effect_def node_at_def fun_eq_iff)
  have heap: "heap (sh ?w) = (up p ^^ node_debts (node_at (sh w) n) p) (heap (sh w))"
    by (simp add: pay_effect_def)
  have w: "?w\<lparr>sh := (sh ?w)\<lparr>nodes := f, heap := h\<rparr>\<rparr> = w\<lparr>sh := (sh w)\<lparr>nodes := f, heap := h\<rparr>\<rparr>" for f h
    by (simp add: pay_effect_def)
  show ?case
    using Cons.IH[of ?w, unfolded sum nodes heap w] Cons.prems(1) sub
    by (simp add: funpow_add[symmetric, THEN fun_cong, simplified comp_def] add.commute)
qed simp

theorem pay_all_solo:
  assumes "writer_ok p ns w" and "tls_alive w"
  shows "pay_all T p a repl w =
    (Inr (), w\<lparr>sh := (clear_all p (sh w))\<lparr>heap := (up p ^^ debts (sh w) p) (heap (sh w))\<rparr>\<rparr>)"
proof -
  from assms(1) have w: "solo w" "live (heap (sh w)) p" and ch: "chained (sh w) ns"
    by (auto simp: writer_ok_def)
  obtain m where m: "node (loc w) = Some m" using assms(1) by (auto simp: writer_ok_def)
  let ?w = "w\<lparr>sh := (sh w)\<lparr>heap := up p (heap (sh w))\<rparr>\<rparr>"
  have ok: "writer_ok p ns ?w" using assms(1) w by (simp add: writer_ok_def live_up)
  have nx: "solo v \<and> (\<exists>nd. nodes (sh v) n = Some nd \<and> next_node nd = next_of (sh w) n)"
    if "n \<in> set ns" and "writer_ok p ns v \<and> next_of (sh v) = next_of (sh w)" for n v
    using that chained_node[of "sh v" ns n] by (auto simp: writer_ok_def) (metis next_of_def option.simps(5))
  have step: "pay_node T (from_ptr T p) p a repl n v = (Inr None, pay_effect p n v) \<and>
      (writer_ok p ns (pay_effect p n v) \<and> next_of (sh (pay_effect p n v)) = next_of (sh w))"
    if n: "n \<in> set ns" and v: "writer_ok p ns v \<and> next_of (sh v) = next_of (sh w)" for n v
  proof -
    have "chained (sh v) ns" using v by (simp add: writer_ok_def)
    then obtain nd where "nodes (sh v) n = Some nd" using chained_node n by blast
    then have "next_of (sh (pay_effect p n v)) = next_of (sh v)" by (simp add: pay_effect_def node_at_def)
    then show ?thesis using v pay_node_solo[of p ns v n] writer_ok_effect[of p ns v n] n by simp
  qed
  let ?Q = "\<lambda>v. writer_ok p ns v \<and> next_of (sh v) = next_of (sh w)"
  have "traverse_from (node_cnt (sh ?w)) (list_head (sh ?w)) (pay_node T (from_ptr T p) p a repl) ?w =
      (Inr None, fold (pay_effect p) ns ?w) \<and> ?Q (fold (pay_effect p) ns ?w)"
  proof (rule traverse_from_fold[where Q = ?Q and nx = "next_of (sh w)"])
    show "links (next_of (sh w)) (list_head (sh ?w)) ns" "length ns \<le> node_cnt (sh ?w)"
      using ch by (auto simp: chained_def)
    show "?Q ?w" using ok by simp
  qed (use step nx in blast)+
  then have "traverse (pay_node T (from_ptr T p) p a repl) ?w = (Inr None, fold (pay_effect p) ns ?w)"
    using w(1) by (simp add: traverse_solo)
  moreover have "fold (pay_effect p) ns ?w = w\<lparr>sh := (clear_all p (sh w))\<lparr>heap := (up p ^^ Suc (debts (sh w) p)) (heap (sh w))\<rparr>\<rparr>"
  proof -
    have all: "(\<lambda>m. if m \<in> set ns then map_option (clear_node p) (nodes (sh ?w) m) else nodes (sh ?w) m) =
        (\<lambda>m. map_option (clear_node p) (nodes (sh w) m))"
      using ch by (auto simp: chained_def fun_eq_iff domIff)
    show ?thesis
      using fold_pay_effect[of ns ?w p, unfolded all] ch debts_list[OF ch, of p]
      by (simp add: chained_def clear_all_def node_at_def funpow_swap1)
  qed
  ultimately show ?thesis
    using m assms(2) w
    by (simp add: pay_all_def with_local_held bnd_apply Let_def inc_value_solo drop_val_from_ptr_solo
        live_up live_funpow_up down_up)
qed

end

end
