(* ===== verification/Protection.thy ===== *)
theory Protection
  imports PayAll
begin

unbundle bit_operations_syntax

text \<open>
  A loaded value that may owe its reference: \<open>HybridProtection\<close> of
  \<^verbatim>\<open>src/strategy/hybrid.rs\<close>, the \<open>Guard\<close> of \<^verbatim>\<open>src/lib.rs\<close> that wraps it, and the
  things that turn into a raw pointer, \<^verbatim>\<open>src/as_raw.rs\<close>.
\<close>

record 't HybridProtection =
  hp_debt :: "Debt option"
  hp_ptr :: 't

definition hp_new :: "('t, 'v) RefCnt \<Rightarrow> usize \<Rightarrow> Debt option \<Rightarrow> 't HybridProtection" where
  "hp_new T ptr debt = \<lparr>hp_debt = debt, hp_ptr = from_ptr T ptr\<rparr>"

definition hp_as_ptr :: "('t, 'v) RefCnt \<Rightarrow> 't HybridProtection \<Rightarrow> usize" where
  "hp_as_ptr T me = as_ptr T (hp_ptr me)"

definition hp_from_inner :: "'t \<Rightarrow> 't HybridProtection" where
  "hp_from_inner x = \<lparr>hp_debt = None, hp_ptr = x\<rparr>"

definition hp_borrow :: "'t HybridProtection \<Rightarrow> 't" where
  "hp_borrow me = hp_ptr me"

text \<open>Giving the protection up for a full reference.\<close>

definition hp_into_inner :: "('t, 'v) RefCnt \<Rightarrow> 't HybridProtection \<Rightarrow> ('v, 't) prog" where
  "hp_into_inner T me =
     bnd (case hp_debt me of
            None \<Rightarrow> ret ()
          | Some debt \<Rightarrow>
              bnd (inc_value T (hp_ptr me)) (\<lambda>ptr.
              bnd (pay debt ptr) (\<lambda>paid.
              if \<not> paid then dec_ptr T ptr else ret ()))) (\<lambda>_.
     ret (hp_ptr me))"

text \<open>The destructor: return the debt, or release the reference somebody paid for us.\<close>

definition hp_drop :: "('t, 'v) RefCnt \<Rightarrow> 't HybridProtection \<Rightarrow> ('v, unit) prog" where
  "hp_drop T me =
     (case hp_debt me of
        None \<Rightarrow> drop_val T (hp_ptr me)
      | Some debt \<Rightarrow>
          bnd (pay debt (as_ptr T (hp_ptr me))) (\<lambda>paid.
          if paid then ret () else drop_val T (hp_ptr me)))"

section \<open>Trying a fast slot, falling back to the helping slot\<close>

definition attempt :: "('t, 'v) RefCnt \<Rightarrow> usize \<Rightarrow> ('v, 't HybridProtection option) prog" where
  "attempt T storage_addr =
     bnd (storage_load storage_addr) (\<lambda>ptr.
     bnd (new_fast ptr) (\<lambda>slot_opt.
     case slot_opt of
       None \<Rightarrow> ret None
     | Some debt \<Rightarrow>
         bnd (storage_load storage_addr) (\<lambda>confirm.
         if ptr = confirm then ret (Some (hp_new T confirm (Some debt)))
         else
           bnd (pay debt ptr) (\<lambda>paid.
           if paid then ret None
           else ret (Some (hp_new T ptr None))))))"

definition fallback :: "('t, 'v) RefCnt \<Rightarrow> usize \<Rightarrow> ('v, 't HybridProtection) prog" where
  "fallback T storage_addr =
     bnd (new_helping storage_addr) (\<lambda>gen.
     bnd (storage_load storage_addr) (\<lambda>candidate.
     bnd (confirm_helping gen candidate) (\<lambda>r.
     case r of
       Inr debt \<Rightarrow>
         bnd (hp_into_inner T (hp_new T candidate (Some debt))) (\<lambda>x. ret (hp_from_inner x))
     | Inl (unused_debt, replacement) \<Rightarrow>
         bnd (pay unused_debt candidate) (\<lambda>paid.
         bnd (if \<not> paid then dec_ptr T candidate else ret ()) (\<lambda>_.
         ret (hp_new T replacement None))))))"

section \<open>Guards and raw pointers\<close>

record 'p Guard =
  inner :: 'p

text \<open>The argument of \<open>compare_and_swap\<close>: \<open>&T\<close>, \<open>&Guard<T>\<close>, \<open>Guard<T>\<close> or a raw pointer.\<close>

datatype 't AsRaw =
    RawOfRef 't
  | RawOfGuardRef "'t HybridProtection Guard"
  | RawOfGuard "'t HybridProtection Guard"
  | RawMut usize
  | RawConst usize

fun as_raw :: "('t, 'v) RefCnt \<Rightarrow> 't AsRaw \<Rightarrow> usize" where
  "as_raw T (RawOfRef x) = as_ptr T x"
| "as_raw T (RawOfGuardRef g) = as_ptr T (hp_borrow (inner g))"
| "as_raw T (RawOfGuard g) = as_ptr T (hp_borrow (inner g))"
| "as_raw T (RawMut p) = p"
| "as_raw T (RawConst p) = p"

text \<open>An argument passed by value is dropped when the callee returns; only an owned guard has a
  destructor.\<close>

fun drop_raw :: "('t, 'v) RefCnt \<Rightarrow> 't AsRaw \<Rightarrow> ('v, unit) prog" where
  "drop_raw T (RawOfGuard g) = hp_drop T (inner g)"
| "drop_raw T c = ret ()"

section \<open>Running alone\<close>

text \<open>What a thread that is not disturbed needs before it loads from the storage at \<open>a\<close>.\<close>

definition reader_ok :: "usize \<Rightarrow> usize \<Rightarrow> usize list \<Rightarrow> 'v world \<Rightarrow> bool" where
  "reader_ok a p ns w \<longleftrightarrow> solo w \<and> tls_alive w \<and> chained (sh w) ns \<and> quiet (sh w) \<and>
     local_ok (sh w) (loc w) \<and> node (loc w) \<noteq> None \<and> storage (sh w) a = Some p \<and>
     generation (loc w) + 4 \<noteq> 0"

lemma reader_ok_node:
  assumes "reader_ok a p ns w"
  obtains n nd where "node (loc w) = Some n" and "nodes (sh w) n = Some nd" and "in_use nd = NODE_USED"
    and "node_ok nd" and "quiet_node (sh w) nd"
proof -
  obtain n nd where n: "node (loc w) = Some n" "nodes (sh w) n = Some nd" "in_use nd = NODE_USED"
    using assms by (auto simp: reader_ok_def local_ok_def)
  then show ?thesis using that[OF n] assms by (auto simp: reader_ok_def quiet_def chained_def)
qed

lemma attempt_solo:
  assumes "reader_ok a p ns w" and "node (loc w) = Some n" and "nodes (sh w) n = Some nd"
  shows "attempt T a w =
    (case fast_pick (fast nd) (offset (loc w)) of
       None \<Rightarrow> (Inr None, w)
     | Some j \<Rightarrow> (Inr (Some (hp_new T p (Some (FastDebt n j)))),
         w\<lparr>sh := slot_set (FastDebt n j) p (sh w), loc := (loc w)\<lparr>offset := of_nat j + 1\<rparr>\<rparr>))"
proof -
  obtain m md where "node (loc w) = Some m" "nodes (sh w) m = Some md" "in_use md = NODE_USED" "node_ok md"
    using reader_ok_node[OF assms(1)] by blast
  then have nd: "in_use nd = NODE_USED" "length (fast nd) = DEBT_SLOT_CNT"
    using assms(2,3) by (auto simp: node_ok_def)
  have w: "solo w" "storage (sh w) a = Some p" using assms(1) by (auto simp: reader_ok_def)
  have "new_fast p w = fast_get_debt n p w"
    using w assms nd by (simp add: new_fast_def bnd_apply local_node_solo[of w n nd])
  then show ?thesis
    using w fast_get_debt_solo[OF w(1) assms(3) nd(2), of p]
    by (simp add: attempt_def bnd_apply storage_load_solo split: option.splits)
qed

context ref_cnt
begin

lemma hp_into_inner_none: "hp_debt g = None \<Longrightarrow> hp_into_inner T g w = (Inr (hp_ptr g), w)"
  by (simp add: hp_into_inner_def)

text \<open>Giving up an unpaid debt takes a reference and frees the slot; giving up a paid one only keeps
  the reference it already has.\<close>

lemma hp_into_inner_debt:
  assumes "solo w" and "live (heap (sh w)) p" and "slot_get (sh w) d = Some v"
  shows "hp_into_inner T (hp_new T p (Some d)) w =
    (Inr (from_ptr T p),
     if v = p then w\<lparr>sh := (slot_set d NONE (sh w))\<lparr>heap := up p (heap (sh w))\<rparr>\<rparr> else w)"
proof -
  let ?w = "w\<lparr>sh := (sh w)\<lparr>heap := up p (heap (sh w))\<rparr>\<rparr>"
  have inc: "inc_value T (from_ptr T p) w = (Inr p, ?w)" using assms by (simp add: inc_value_solo)
  have pay: "pay d p ?w = (Inr (v = p), ?w\<lparr>sh := if v = p then slot_set d NONE (sh ?w) else sh ?w\<rparr>)"
    using assms by (intro pay_solo) simp_all
  have set: "slot_set d NONE (sh ?w) = (slot_set d NONE (sh w))\<lparr>heap := up p (heap (sh w))\<rparr>"
    by (simp add: slot_set_def)
  show ?thesis
    using assms inc pay set
    by (auto simp: hp_into_inner_def hp_new_def bnd_apply dec_ptr_solo live_up down_up)
qed

lemma hp_drop_none:
  "solo w \<Longrightarrow> live (heap (sh w)) p \<Longrightarrow>
   hp_drop T (hp_new T p None) w = (Inr (), w\<lparr>sh := (sh w)\<lparr>heap := down p (heap (sh w))\<rparr>\<rparr>)"
  by (simp add: hp_drop_def hp_new_def drop_val_from_ptr_solo)

lemma hp_drop_debt:
  assumes "solo w" and "p \<noteq> 0 \<or> nullable" and "slot_get (sh w) d = Some v" and "v \<noteq> p \<longrightarrow> live (heap (sh w)) p"
  shows "hp_drop T (hp_new T p (Some d)) w =
    (Inr (), if v = p then w\<lparr>sh := slot_set d NONE (sh w)\<rparr> else w\<lparr>sh := (sh w)\<lparr>heap := down p (heap (sh w))\<rparr>\<rparr>)"
  using assms
  by (auto simp: hp_drop_def hp_new_def bnd_apply as_ptr_eq into_from pay_solo drop_val_from_ptr_solo)

text \<open>The fallback alone: one full reference, and the helping slot is free again.\<close>

lemma fallback_solo:
  assumes "reader_ok a p ns w" and "node (loc w) = Some n" and "nodes (sh w) n = Some nd"
    and "live (heap (sh w)) p"
  shows "fallback T a w =
    (Inr (hp_from_inner (from_ptr T p)),
     w\<lparr>loc := (loc w)\<lparr>generation := generation (loc w) + 4\<rparr>,
       sh := (sh w)\<lparr>nodes := (nodes (sh w))(n \<mapsto> nd\<lparr>helping := (helping nd)\<lparr>active_addr := a\<rparr>\<rparr>),
                   heap := up p (heap (sh w))\<rparr>\<rparr>)"
proof -
  obtain m md where "node (loc w) = Some m" "nodes (sh w) m = Some md" "in_use md = NODE_USED"
      "quiet_node (sh w) md"
    using reader_ok_node[OF assms(1)] by blast
  then have nd: "in_use nd = NODE_USED" "control (helping nd) = IDLE" "slot (helping nd) = NONE"
    using assms(2,3) by (auto simp: quiet_node_def)
  have w: "solo w" "storage (sh w) a = Some p" "aligned4 (generation (loc w))" "generation (loc w) + 4 \<noteq> 0"
    using assms(1) by (auto simp: reader_ok_def local_ok_def)
  let ?g = "(generation (loc w) + 4) OR GEN_TAG"
  let ?nd = "nd\<lparr>helping := (helping nd)\<lparr>active_addr := a, control := ?g\<rparr>\<rparr>"
  let ?w1 = "w\<lparr>loc := (loc w)\<lparr>generation := generation (loc w) + 4\<rparr>,
       sh := (sh w)\<lparr>nodes := (nodes (sh w))(n \<mapsto> ?nd)\<rparr>\<rparr>"
  have announce: "new_helping a w = (Inr ?g, ?w1)"
    using w nd assms
    by (simp add: new_helping_def bnd_apply local_node_solo[of w n nd] helping_get_debt_solo)
  let ?nd2 = "nd\<lparr>helping := (helping nd)\<lparr>active_addr := a, slot := p, control := IDLE\<rparr>\<rparr>"
  let ?w2 = "?w1\<lparr>sh := (sh w)\<lparr>nodes := (nodes (sh w))(n \<mapsto> ?nd2)\<rparr>\<rparr>"
  have confirm: "confirm_helping ?g p ?w1 = (Inr (Inr (HelpingDebt n)), ?w2)"
    using w nd assms(2)
    by (simp add: confirm_helping_def bnd_apply local_node_solo[of ?w1 n ?nd] helping_confirm_ok[of ?w1 n ?nd])
  have idle: "(helping nd)\<lparr>active_addr := a, control := IDLE, slot := NONE\<rparr> = (helping nd)\<lparr>active_addr := a\<rparr>"
    using nd by (cases "helping nd") simp
  have "hp_into_inner T (hp_new T p (Some (HelpingDebt n))) ?w2 =
     (Inr (from_ptr T p), ?w2\<lparr>sh := (slot_set (HelpingDebt n) NONE (sh ?w2))\<lparr>heap := up p (heap (sh w))\<rparr>\<rparr>)"
    using hp_into_inner_debt[of ?w2 p "HelpingDebt n" p] w assms(4) by simp
  moreover have "slot_set (HelpingDebt n) NONE (sh ?w2) =
      (sh w)\<lparr>nodes := (nodes (sh w))(n \<mapsto> nd\<lparr>helping := (helping nd)\<lparr>active_addr := a\<rparr>\<rparr>)\<rparr>"
    using idle by (simp add: slot_set_def del: fun_upd_apply add: fun_upd_same)
  ultimately show ?thesis
    using w announce confirm by (simp add: fallback_def bnd_apply storage_load_solo)
qed

end

end
