(* ===== verification/Books.thy ===== *)
theory Books
  imports Protection
begin

text \<open>
  The bookkeeping behind the debts, as an abstract state. The books of a memory are the reference
  counts, the values they keep alive, the debts on record (which slot owes which pointer) and the
  pointers in the storages; everything else of \<open>shared\<close> (the chain, control words, envelopes,
  generations) is implementation detail. The operations of the code are then few and simple: a
  load either borrows (a new debt) or takes a count, a guard given back cancels a debt or a count,
  and paying turns every debt on a pointer into a count.

  The lemmas of this theory say what each step of the implementation does to the books.
\<close>

record 'v books =
  counts :: "usize \<Rightarrow> nat"
  vals :: "usize \<Rightarrow> 'v option"
  owed :: "(Debt \<times> usize) set"
  cells :: "usize \<Rightarrow> usize option"

definition owed_of :: "'v shared \<Rightarrow> (Debt \<times> usize) set" where
  "owed_of s = {(d, p). slot_get s d = Some p \<and> p \<noteq> NONE}"

definition vals_of :: "('v heap \<Rightarrow> usize \<Rightarrow> nat) \<Rightarrow> 'v heap \<Rightarrow> usize \<Rightarrow> 'v option" where
  "vals_of cnt h p = (if 0 < cnt h p then value_at h p else None)"

definition view :: "('v heap \<Rightarrow> usize \<Rightarrow> nat) \<Rightarrow> 'v shared \<Rightarrow> 'v books" where
  "view cnt s = \<lparr>counts = cnt (heap s),
     vals = vals_of cnt (heap s),
     owed = owed_of s, cells = storage s\<rparr>"

section \<open>Abstract operations\<close>

definition debts_on :: "'v books \<Rightarrow> usize \<Rightarrow> Debt set" where
  "debts_on B p = {d. (d, p) \<in> owed B}"

text \<open>All references to \<open>p\<close> somebody may rely on: the counted ones and the owed ones.\<close>

definition total :: "'v books \<Rightarrow> usize \<Rightarrow> nat" where
  "total B p = counts B p + card (debts_on B p)"

definition bump :: "usize \<Rightarrow> nat \<Rightarrow> 'v books \<Rightarrow> 'v books" where
  "bump p k B = (if p = 0 then B else B\<lparr>counts := (counts B)(p := counts B p + k)\<rparr>)"

definition unref :: "usize \<Rightarrow> 'v books \<Rightarrow> 'v books" where
  "unref p B = (if p = 0 then B else
     B\<lparr>counts := (counts B)(p := counts B p - 1),
       vals := (if counts B p \<le> 1 then (vals B)(p := None) else vals B)\<rparr>)"

fun acquired :: "usize \<Rightarrow> Debt option \<Rightarrow> 'v books \<Rightarrow> 'v books" where
  "acquired p None B = bump p 1 B"
| "acquired p (Some d) B = B\<lparr>owed := insert (d, p) (owed B)\<rparr>"

fun released :: "usize \<Rightarrow> Debt option \<Rightarrow> 'v books \<Rightarrow> 'v books" where
  "released p None B = unref p B"
| "released p (Some d) B =
     (if (d, p) \<in> owed B then B\<lparr>owed := owed B - {(d, p)}\<rparr> else unref p B)"

fun redeemed :: "usize \<Rightarrow> Debt option \<Rightarrow> 'v books \<Rightarrow> 'v books" where
  "redeemed p None B = B"
| "redeemed p (Some d) B =
     (if (d, p) \<in> owed B then bump p 1 (B\<lparr>owed := owed B - {(d, p)}\<rparr>) else B)"

definition paid_off :: "usize \<Rightarrow> 'v books \<Rightarrow> 'v books" where
  "paid_off p B = bump p (card (debts_on B p)) (B\<lparr>owed := {x \<in> owed B. snd x \<noteq> p}\<rparr>)"

definition put :: "usize \<Rightarrow> usize \<Rightarrow> 'v books \<Rightarrow> 'v books" where
  "put a q B = B\<lparr>cells := (cells B)(a \<mapsto> q)\<rparr>"

section \<open>Slots and debts\<close>

lemma owed_of_iff [simp]: "(d, p) \<in> owed_of s \<longleftrightarrow> slot_get s d = Some p \<and> p \<noteq> NONE"
  by (simp add: owed_of_def)

lemma slot_get_frame [simp]:
  "slot_get (s\<lparr>heap := h\<rparr>) d = slot_get s d" "slot_get (s\<lparr>storage := g\<rparr>) d = slot_get s d"
  "slot_get (s\<lparr>envelopes := e\<rparr>) d = slot_get s d" "slot_get (s\<lparr>arc_supply := ps\<rparr>) d = slot_get s d"
  "slot_get (s\<lparr>rw_readers := r\<rparr>) d = slot_get s d" "slot_get (s\<lparr>rw_writer := x\<rparr>) d = slot_get s d"
  by (cases d; simp)+

lemma owed_of_frame [simp]:
  "owed_of (s\<lparr>heap := h\<rparr>) = owed_of s" "owed_of (s\<lparr>storage := g\<rparr>) = owed_of s"
  "owed_of (s\<lparr>envelopes := e\<rparr>) = owed_of s" "owed_of (s\<lparr>arc_supply := ps\<rparr>) = owed_of s"
  "owed_of (s\<lparr>rw_readers := r\<rparr>) = owed_of s" "owed_of (s\<lparr>rw_writer := x\<rparr>) = owed_of s"
  by (simp_all add: owed_of_def)

text \<open>Writing a debt into a free slot, and clearing a slot.\<close>

lemma owed_of_claim:
  "slot_get s d = Some NONE \<Longrightarrow> p \<noteq> NONE \<Longrightarrow> owed_of (slot_set d p s) = insert (d, p) (owed_of s)"
proof -
  assume a: "slot_get s d = Some NONE" "p \<noteq> NONE"
  show ?thesis
  proof (intro set_eqI)
    fix x show "x \<in> owed_of (slot_set d p s) \<longleftrightarrow> x \<in> insert (d, p) (owed_of s)"
      using a by (cases x; cases "fst x = d") auto
  qed
qed

lemma owed_of_clear:
  "slot_get s d = Some p \<Longrightarrow> owed_of (slot_set d NONE s) = owed_of s - {(d, p)}"
proof -
  assume a: "slot_get s d = Some p"
  show ?thesis
  proof (intro set_eqI)
    fix x show "x \<in> owed_of (slot_set d NONE s) \<longleftrightarrow> x \<in> owed_of s - {(d, p)}"
      using a by (cases x; cases "fst x = d") auto
  qed
qed

lemma slot_get_same_slots:
  assumes "nodes s n = Some nd" and "fast nd' = fast nd" and "slot (helping nd') = slot (helping nd)"
  shows "slot_get (s\<lparr>nodes := (nodes s)(n \<mapsto> nd')\<rparr>) d = slot_get s d"
  using assms by (cases d) auto

lemma owed_of_same_slots:
  assumes "nodes s n = Some nd" and "fast nd' = fast nd" and "slot (helping nd') = slot (helping nd)"
  shows "owed_of (s\<lparr>nodes := (nodes s)(n \<mapsto> nd')\<rparr>) = owed_of s"
  by (simp add: owed_of_def slot_get_same_slots[OF assms])

lemma slot_get_clear_all: "slot_get (clear_all p s) d = map_option (clear p) (slot_get s d)"
  by (cases d) (auto simp: clear_all_def clear_node_def option.map_comp comp_def split: option.splits)

lemma owed_of_clear_all: "owed_of (clear_all p s) = {x \<in> owed_of s. snd x \<noteq> p}"
proof (intro set_eqI)
  fix x show "x \<in> owed_of (clear_all p s) \<longleftrightarrow> x \<in> {x \<in> owed_of s. snd x \<noteq> p}"
    by (cases x; cases "slot_get s (fst x)") (auto simp: slot_get_clear_all clear_def)
qed

text \<open>The debts counted by the implementation's walk are the ones on record.\<close>

definition node_slots :: "usize \<Rightarrow> Node \<Rightarrow> usize \<Rightarrow> Debt set" where
  "node_slots n nd p = FastDebt n ` {i. i < length (fast nd) \<and> fast nd ! i = p} \<union>
     (if slot (helping nd) = p then {HelpingDebt n} else {})"

lemma node_slots_fast: "FastDebt m i \<in> node_slots n nd p \<longleftrightarrow> m = n \<and> i < length (fast nd) \<and> fast nd ! i = p"
  by (auto simp: node_slots_def)

lemma node_slots_helping: "HelpingDebt m \<in> node_slots n nd p \<longleftrightarrow> m = n \<and> slot (helping nd) = p"
  by (auto simp: node_slots_def)

lemma node_slots_card: "finite (node_slots n nd p) \<and> card (node_slots n nd p) = node_debts nd p"
proof -
  let ?I = "{i. i < length (fast nd) \<and> fast nd ! i = p}"
  have "card (FastDebt n ` ?I) = card ?I" by (rule card_image) (simp add: inj_on_def)
  also have "card ?I = count_list (fast nd) p"
    by (simp add: count_list_eq_length_filter length_filter_conv_card eq_commute)
  finally have "card (FastDebt n ` ?I) = count_list (fast nd) p" .
  moreover have "HelpingDebt n \<notin> FastDebt n ` ?I" by auto
  ultimately show ?thesis by (simp add: node_slots_def node_debts_def)
qed

lemma slot_holders:
  "{d. slot_get s d = Some p} = (\<Union>n \<in> dom (nodes s). node_slots n (node_at s n) p)"
proof (intro set_eqI)
  fix d show "d \<in> {d. slot_get s d = Some p} \<longleftrightarrow> d \<in> (\<Union>n \<in> dom (nodes s). node_slots n (node_at s n) p)"
    by (cases d) (force simp: node_slots_fast node_slots_helping node_at_def split: option.splits if_splits)+
qed

lemma debts_card:
  assumes "finite (dom (nodes s))" and "p \<noteq> NONE"
  shows "finite {d. (d, p) \<in> owed_of s}" and "debts s p = card {d. (d, p) \<in> owed_of s}"
proof -
  have eq: "{d. (d, p) \<in> owed_of s} = (\<Union>n \<in> dom (nodes s). node_slots n (node_at s n) p)"
    using assms(2) slot_holders[of s p] by simp
  show "finite {d. (d, p) \<in> owed_of s}" unfolding eq using assms(1) node_slots_card by blast
  have "card (\<Union>n \<in> dom (nodes s). node_slots n (node_at s n) p) =
      (\<Sum>n \<in> dom (nodes s). card (node_slots n (node_at s n) p))"
    by (rule card_UN_disjoint) (use assms(1) node_slots_card in \<open>auto simp: node_slots_def\<close>)
  then show "debts s p = card {d. (d, p) \<in> owed_of s}"
    unfolding eq by (simp add: debts_def node_slots_card)
qed

lemma owed_of_get_spec:
  assumes "chained s ns" and "box_available s"
  shows "owed_of (snd (get_spec ns s)) = owed_of s"
proof (cases "find (\<lambda>n. claimable (node_at s n)) ns")
  case (Some m)
  then obtain nd where "nodes s m = Some nd"
      "get_spec ns s = (m, s\<lparr>nodes := (nodes s)(m \<mapsto> nd\<lparr>in_use := NODE_USED\<rparr>)\<rparr>)"
    using assms(1) by (rule get_spec_claim)
  then show ?thesis by (simp add: owed_of_same_slots)
next
  case None
  then obtain m e rest where m: "nodes s m = None"
      "get_spec ns s = (m, s\<lparr>box_supply := rest, envelopes := (envelopes s)(e \<mapsto> 0),
         nodes := (nodes s)(m \<mapsto> fresh_node e (list_head s)), list_head := m, node_cnt := node_cnt s + 1\<rparr>)"
    using assms(2) by (rule get_spec_fresh) blast
  have "slot_get (snd (get_spec ns s)) d = Some q \<and> q \<noteq> NONE \<longleftrightarrow> slot_get s d = Some q \<and> q \<noteq> NONE" for d q
    using m by (cases d) (auto simp: fast_default_def split: if_splits option.splits)
  then show ?thesis by (simp add: owed_of_def)
qed

section \<open>Heap steps in the books\<close>

context ref_cnt
begin

lemma view_funpow_up:
  "live (heap s) p \<Longrightarrow> view cnt (s\<lparr>heap := (up p ^^ k) (heap s)\<rparr>) = bump p k (view cnt s)"
  using cnt_null
  by (auto simp: view_def vals_of_def bump_def value_funpow_up fun_eq_iff cnt_funpow_up live_ptr_def split: if_splits)

lemma view_up: "live (heap s) p \<Longrightarrow> view cnt (s\<lparr>heap := up p (heap s)\<rparr>) = bump p 1 (view cnt s)"
  using view_funpow_up[of s p 1] by simp

lemma view_down: "live (heap s) p \<Longrightarrow> view cnt (s\<lparr>heap := down p (heap s)\<rparr>) = unref p (view cnt s)"
proof -
  assume a: "live (heap s) p"
  have c: "cnt (down p (heap s)) q = cnt (heap s) q - (if q = p \<and> p \<noteq> 0 then 1 else 0)" for q
    using a by (rule cnt_down)
  show ?thesis
  proof (cases "p = 0")
    case True
    have v: "vals_of cnt (down p (heap s)) q = vals_of cnt (heap s) q" for q
      using c[of q] True cnt_null value_down[of q p "heap s"] by (cases "q = 0") (auto simp: vals_of_def)
    then show ?thesis using c True by (simp add: view_def unref_def fun_eq_iff)
  next
    case False
    then show ?thesis using c value_down[of _ p "heap s"]
      by (auto simp: view_def vals_of_def unref_def fun_eq_iff)
  qed
qed

lemma live_view: "live (heap s) p \<longleftrightarrow> (p = 0 \<and> nullable) \<or> (p \<noteq> 0 \<and> 0 < counts (view cnt s) p)"
  by (simp add: live_ptr_def view_def)

end

lemma view_fields [simp]:
  "owed (view cnt s) = owed_of s" "cells (view cnt s) = storage s" "counts (view cnt s) = cnt (heap s)"
  by (simp_all add: view_def)

lemma view_storage: "view cnt (s\<lparr>storage := (storage s)(a \<mapsto> q)\<rparr>) = put a q (view cnt s)"
  by (simp add: view_def put_def)

lemma view_claim:
  "slot_get s d = Some NONE \<Longrightarrow> p \<noteq> NONE \<Longrightarrow> view cnt (slot_set d p s) = acquired p (Some d) (view cnt s)"
  by (simp add: view_def owed_of_claim)

lemma view_clear:
  "slot_get s d = Some p \<Longrightarrow> view cnt (slot_set d NONE s) = (view cnt s)\<lparr>owed := owed_of s - {(d, p)}\<rparr>"
  by (simp add: view_def owed_of_clear)

lemma view_same_slots:
  "nodes s n = Some nd \<Longrightarrow> fast nd' = fast nd \<Longrightarrow> slot (helping nd') = slot (helping nd) \<Longrightarrow>
   view cnt (s\<lparr>nodes := (nodes s)(n \<mapsto> nd')\<rparr>) = view cnt s"
  by (simp add: view_def owed_of_same_slots)

lemma books_frame [simp]:
  "cells (bump p k B) = cells B" "cells (unref p B) = cells B" "cells (acquired p x B) = cells B"
  "cells (released p x B) = cells B" "cells (redeemed p x B) = cells B" "cells (paid_off p B) = cells B"
  by (cases x; simp add: bump_def unref_def paid_off_def)+

lemma redeemed_counts: "counts B q \<le> counts (redeemed p x B) q"
  by (cases x) (auto simp: bump_def)

lemma vals_acquired [simp]: "vals (acquired p x B) = vals B"
  by (cases x) (simp_all add: bump_def)

lemma view_value: "0 < cnt (heap s) p \<Longrightarrow> vals (view cnt s) p = value_at (heap s) p"
  by (simp add: view_def vals_of_def)

section \<open>The balance\<close>

text \<open>A load adds one reference to the balance of its pointer, giving a guard back removes one, turning
  a guard into a full reference and paying debts off leave every balance alone.\<close>

lemma total_bump: "q \<noteq> 0 \<Longrightarrow> total (bump p k B) q = total B q + (if q = p then k else 0)"
  by (simp add: total_def bump_def debts_on_def)

lemma total_acquired:
  assumes "q \<noteq> 0" and "finite (debts_on B p)" and "\<forall>d. x = Some d \<longrightarrow> (d, p) \<notin> owed B"
  shows "total (acquired p x B) q = total B q + (if q = p then 1 else 0)"
proof (cases x)
  case None
  then show ?thesis using assms(1) by (simp add: total_bump)
next
  case (Some d)
  have "debts_on (acquired p x B) q = (if q = p then insert d (debts_on B p) else debts_on B q)"
    using Some by (auto simp: debts_on_def)
  then show ?thesis using Some assms by (simp add: total_def debts_on_def)
qed

lemma card_debts_on_remove:
  "finite (debts_on B p) \<Longrightarrow> (d, p) \<in> owed B \<Longrightarrow>
   card (debts_on (B\<lparr>owed := owed B - {(d, p)}\<rparr>) q) = card (debts_on B q) - (if q = p then 1 else 0)"
proof -
  assume a: "finite (debts_on B p)" "(d, p) \<in> owed B"
  have "debts_on (B\<lparr>owed := owed B - {(d, p)}\<rparr>) q = (if q = p then debts_on B p - {d} else debts_on B q)"
    by (auto simp: debts_on_def)
  then show ?thesis using a by (simp add: debts_on_def)
qed

lemma card_debts_on_pos: "finite (debts_on B p) \<Longrightarrow> (d, p) \<in> owed B \<Longrightarrow> 0 < card (debts_on B p)"
  by (auto simp: debts_on_def card_gt_0_iff)

lemma total_released:
  assumes "finite (debts_on B p)" and "p = 0 \<or> 0 < counts B p \<or> (\<exists>d. x = Some d \<and> (d, p) \<in> owed B)" and "q \<noteq> 0"
  shows "total (released p x B) q = total B q - (if q = p then 1 else 0)"
proof -
  have unref: "total (unref p B) q = total B q - (if q = p then 1 else 0)" if "p = 0 \<or> 0 < counts B p"
    using that assms(3) by (auto simp: total_def unref_def debts_on_def)
  show ?thesis
  proof (cases x)
    case None
    then show ?thesis using unref assms(2) by simp
  next
    case (Some d)
    show ?thesis
    proof (cases "(d, p) \<in> owed B")
      case True
      have "total (B\<lparr>owed := owed B - {(d, p)}\<rparr>) q = total B q - (if q = p then 1 else 0)"
        using card_debts_on_remove[OF assms(1) True, of q] card_debts_on_pos[OF assms(1) True]
        by (auto simp: total_def)
      then show ?thesis using Some True by simp
    next
      case False
      then show ?thesis using Some unref assms(2) by auto
    qed
  qed
qed

lemma total_redeemed:
  assumes "finite (debts_on B p)" and "q \<noteq> 0"
  shows "total (redeemed p x B) q = total B q"
proof (cases "\<exists>d. x = Some d \<and> (d, p) \<in> owed B")
  case True
  then obtain d where d: "x = Some d" "(d, p) \<in> owed B" by blast
  have "card (debts_on (B\<lparr>owed := owed B - {(d, p)}\<rparr>) q) = card (debts_on B q) - (if q = p then 1 else 0)"
    using card_debts_on_remove[OF assms(1) d(2)] .
  moreover have "total (bump p 1 C) q = total C q + (if q = p then 1 else 0)" for C :: "'a books"
    using assms(2) by (simp add: total_bump)
  ultimately show ?thesis using d card_debts_on_pos[OF assms(1) d(2)] by (auto simp: total_def)
next
  case False
  then show ?thesis by (cases x) auto
qed

lemma total_paid_off: "q \<noteq> 0 \<Longrightarrow> total (paid_off p B) q = total B q"
  by (auto simp: paid_off_def total_def bump_def debts_on_def)

lemma debts_on_paid_off: "debts_on (paid_off p B) q = (if q = p then {} else debts_on B q)"
  by (auto simp: paid_off_def bump_def debts_on_def)

end
