(* ===== verification/Hybrid.thy ===== *)
theory Hybrid
  imports Books
begin

text \<open>
  The hybrid strategy of \<^verbatim>\<open>src/strategy/hybrid.rs\<close>, and the variant without fast slots of
  \<^verbatim>\<open>src/strategy/test_strategies.rs\<close>: load a protected pointer, wait for the readers of a pointer that
  left its storage, compare and swap.
\<close>

record Config =
  USE_FAST :: bool

definition DefaultConfig :: Config where
  "DefaultConfig = \<lparr>USE_FAST = True\<rparr>"

definition NoFastSlots :: Config where
  "NoFastSlots = \<lparr>USE_FAST = False\<rparr>"

definition hybrid_load :: "('t, 'v) RefCnt \<Rightarrow> Config \<Rightarrow> usize \<Rightarrow> ('v, 't HybridProtection) prog" where
  "hybrid_load T cfg storage_addr =
     with_local (
       bnd (if USE_FAST cfg then attempt T storage_addr else ret None) (\<lambda>fast.
       case fast of
         Some protection \<Rightarrow> ret protection
       | None \<Rightarrow> fallback T storage_addr))"

definition hybrid_wait_for_readers :: "('t, 'v) RefCnt \<Rightarrow> Config \<Rightarrow> usize \<Rightarrow> usize \<Rightarrow> ('v, unit) prog" where
  "hybrid_wait_for_readers T cfg old storage_addr =
     pay_all T old storage_addr (bnd (hybrid_load T cfg storage_addr) (hp_into_inner T))"

text \<open>
  The loop of \<open>compare_and_swap\<close>; the first argument bounds the retries. An early return drops
  \<open>new\<close> and then \<open>current\<close>; a failed exchange drops \<open>old\<close> at the end of the iteration.
\<close>

fun hybrid_cas_loop :: "nat \<Rightarrow> ('t, 'v) RefCnt \<Rightarrow> Config \<Rightarrow> usize \<Rightarrow> 't AsRaw \<Rightarrow> 't \<Rightarrow> ('v, 't HybridProtection) prog" where
  "hybrid_cas_loop 0 T cfg storage_addr current new = raise OutOfFuel"
| "hybrid_cas_loop (Suc k) T cfg storage_addr current new =
     bnd (hybrid_load T cfg storage_addr) (\<lambda>old.
     if hp_as_ptr T old \<noteq> as_raw T current then
       bnd (drop_val T new) (\<lambda>_.
       bnd (drop_raw T current) (\<lambda>_.
       ret old))
     else
       let new_raw = as_ptr T new in
       bnd (storage_cas_weak storage_addr (as_raw T current) new_raw) (\<lambda>ok.
       if ok then
         bnd (hybrid_wait_for_readers T cfg (hp_as_ptr T old) storage_addr) (\<lambda>_.
         bnd (dec_ptr T (hp_as_ptr T old)) (\<lambda>_.
         bnd (drop_raw T current) (\<lambda>_.
         ret old)))
       else
         bnd (hp_drop T old) (\<lambda>_.
         hybrid_cas_loop k T cfg storage_addr current new)))"

definition hybrid_compare_and_swap ::
  "('t, 'v) RefCnt \<Rightarrow> Config \<Rightarrow> usize \<Rightarrow> 't AsRaw \<Rightarrow> 't \<Rightarrow> ('v, 't HybridProtection) prog" where
  "hybrid_compare_and_swap T cfg storage_addr current new =
     bnd get_fuel (\<lambda>k. hybrid_cas_loop k T cfg storage_addr current new)"

section \<open>Between two operations\<close>

text \<open>
  What an undisturbed thread can rely on between two of its operations, and what each operation
  keeps. \<open>gens_left\<close> is the number of helping generations left before the counter wraps around.
\<close>

definition gens_left :: "'v world \<Rightarrow> nat" where
  "gens_left w = (2 ^ 64 - 1 - unat (generation (loc w))) div 4"

definition settled :: "'v world \<Rightarrow> bool" where
  "settled w \<longleftrightarrow> solo w \<and> tls_alive w \<and> (\<exists>ns. chained (sh w) ns) \<and> quiet (sh w) \<and>
     local_ok (sh w) (loc w) \<and> spurious_left w < fuel w \<and>
     (node (loc w) = None \<longrightarrow> box_available (sh w))"

text \<open>The nodes some thread holds.\<close>

definition used_nodes :: "'v shared \<Rightarrow> usize set" where
  "used_nodes s = {n. \<exists>nd. nodes s n = Some nd \<and> in_use nd = NODE_USED}"

definition progress :: "nat \<Rightarrow> 'v world \<Rightarrow> 'v world \<Rightarrow> bool" where
  "progress k w w' \<longleftrightarrow> settled w' \<and> fuel w' = fuel w \<and>
     spurious_left w' \<le> spurious_left w \<and> gens_left w \<le> gens_left w' + k \<and>
     (\<forall>d. slot_get (sh w) d \<noteq> None \<longrightarrow> slot_get (sh w') d \<noteq> None) \<and>
     used_nodes (sh w) \<subseteq> used_nodes (sh w') \<and> (node (loc w) \<noteq> None \<longrightarrow> node (loc w') = node (loc w)) \<and>
     (\<forall>n. node (loc w') = Some n \<longrightarrow> node (loc w) = Some n \<or> n \<notin> used_nodes (sh w))"

lemma used_nodes_frame [simp]:
  "used_nodes (s\<lparr>heap := h\<rparr>) = used_nodes s" "used_nodes (s\<lparr>storage := g\<rparr>) = used_nodes s"
  "used_nodes (s\<lparr>arc_supply := ps\<rparr>) = used_nodes s"
  "used_nodes (s\<lparr>rw_readers := r\<rparr>) = used_nodes s" "used_nodes (s\<lparr>rw_writer := x\<rparr>) = used_nodes s"
  by (simp_all add: used_nodes_def)

lemma used_nodes_update:
  "nodes s n = Some nd \<Longrightarrow> in_use nd' = in_use nd \<Longrightarrow>
   used_nodes (s\<lparr>nodes := (nodes s)(n \<mapsto> nd')\<rparr>) = used_nodes s"
  by (auto simp: used_nodes_def)

lemma used_nodes_slot_set [simp]: "used_nodes (slot_set d v s) = used_nodes s"
  by (auto simp: used_nodes_def slot_set_def split: if_splits)

lemma used_nodes_clear_all [simp]: "used_nodes (clear_all p s) = used_nodes s"
  by (auto simp: used_nodes_def clear_all_def)

lemma progress_refl: "settled w \<Longrightarrow> progress 0 w w"
  by (simp add: progress_def)

lemma progress_trans: "progress j u v \<Longrightarrow> progress k v w \<Longrightarrow> progress (j + k) u w"
  unfolding progress_def by (auto dest: spec)

lemma progress_mono: "progress j u v \<Longrightarrow> j \<le> k \<Longrightarrow> progress k u v"
  by (force simp: progress_def)

lemma progress_settled: "progress k u v \<Longrightarrow> settled v"
  by (simp add: progress_def)

text \<open>The generation counter stays clear of its wrap-around while generations are left.\<close>

lemma gens_left_step:
  assumes "0 < gens_left w"
  shows "generation (loc w) + 4 \<noteq> 0"
    and "gens_left (w\<lparr>loc := (loc w)\<lparr>generation := generation (loc w) + 4\<rparr>\<rparr>) + 1 = gens_left w"
proof -
  let ?g = "generation (loc w)"
  have lt: "unat ?g + 4 < 2 ^ 64" using assms by (simp add: gens_left_def div_greater_zero_iff)
  then have u: "unat (?g + 4) = unat ?g + 4" by (simp add: unat_add_lem[THEN iffD1])
  then show "?g + 4 \<noteq> 0" by (metis add_eq_0_iff_both_eq_0 unat_0 zero_neq_numeral)
  have "2 ^ 64 - 1 - unat ?g = 4 + (2 ^ 64 - 1 - (unat ?g + 4))" using lt by simp
  then have "(2 ^ 64 - 1 - unat ?g) div 4 = (2 ^ 64 - 1 - (unat ?g + 4)) div 4 + 1"
    by (metis div_add_self1 zero_neq_numeral)
  then show "gens_left (w\<lparr>loc := (loc w)\<lparr>generation := ?g + 4\<rparr>\<rparr>) + 1 = gens_left w"
    using u by (simp add: gens_left_def)
qed

text \<open>Entering \<open>LocalNode::with\<close> finds or makes a node and changes nothing in the books.\<close>

lemma slot_get_get_spec:
  assumes "chained s ns" and "box_available s" and "slot_get s d \<noteq> None"
  shows "slot_get (snd (get_spec ns s)) d \<noteq> None"
proof (cases "find (\<lambda>n. claimable (node_at s n)) ns")
  case (Some m)
  then obtain nd where "nodes s m = Some nd"
      "get_spec ns s = (m, s\<lparr>nodes := (nodes s)(m \<mapsto> nd\<lparr>in_use := NODE_USED\<rparr>)\<rparr>)"
    using assms(1) by (rule get_spec_claim)
  then show ?thesis using assms(3) by (simp add: slot_get_same_slots)
next
  case None
  then obtain m e rest where m: "nodes s m = None"
      "get_spec ns s = (m, s\<lparr>box_supply := rest, envelopes := (envelopes s)(e \<mapsto> 0),
         nodes := (nodes s)(m \<mapsto> fresh_node e (list_head s)), list_head := m, node_cnt := node_cnt s + 1\<rparr>)"
    using assms(2) by (rule get_spec_fresh) blast
  then show ?thesis using assms(3) by (cases d) (auto split: option.splits if_splits)
qed

lemma get_spec_used:
  assumes "chained s ns" and "box_available s"
  shows "fst (get_spec ns s) \<notin> used_nodes s" and "used_nodes s \<subseteq> used_nodes (snd (get_spec ns s))"
proof -
  have "fst (get_spec ns s) \<notin> used_nodes s \<and> used_nodes s \<subseteq> used_nodes (snd (get_spec ns s))"
  proof (cases "find (\<lambda>n. claimable (node_at s n)) ns")
    case (Some m)
    then obtain nd where "nodes s m = Some nd" "claimable nd"
        "get_spec ns s = (m, s\<lparr>nodes := (nodes s)(m \<mapsto> nd\<lparr>in_use := NODE_USED\<rparr>)\<rparr>)"
      using assms(1) by (rule get_spec_claim)
    then show ?thesis by (auto simp: used_nodes_def claimable_def)
  next
    case None
    then obtain m e rest where m: "nodes s m = None"
        "get_spec ns s = (m, s\<lparr>box_supply := rest, envelopes := (envelopes s)(e \<mapsto> 0),
           nodes := (nodes s)(m \<mapsto> fresh_node e (list_head s)), list_head := m, node_cnt := node_cnt s + 1\<rparr>)"
      using assms(2) by (rule get_spec_fresh) blast
    then show ?thesis by (auto simp: used_nodes_def)
  qed
  then show "fst (get_spec ns s) \<notin> used_nodes s" "used_nodes s \<subseteq> used_nodes (snd (get_spec ns s))" by auto
qed

lemma with_local_settled:
  assumes "settled w"
  obtains w1 where "with_local f w = f w1" and "progress 0 w w1" and "node (loc w1) \<noteq> None"
    and "\<And>cnt. view cnt (sh w1) = view cnt (sh w)"
proof (cases "node (loc w)")
  case (Some n)
  then show ?thesis
    using assms that[of w] by (simp add: with_local_held settled_def progress_def)
next
  case None
  obtain ns where ns: "chained (sh w) ns" and w: "tls_alive w" "solo w" "box_available (sh w)"
      "spurious_left w < fuel w" "quiet (sh w)" "local_ok (sh w) (loc w)"
    using assms None by (auto simp: settled_def)
  let ?n = "fst (get_spec ns (sh w))" and ?s = "snd (get_spec ns (sh w))"
  obtain ws where f: "with_local f w =
      f (w\<lparr>sh := ?s, weak_cas := ws, loc := (loc w)\<lparr>node := Some ?n\<rparr>\<rparr>)" (is "_ = f ?w1")
    and ws: "length (filter (\<lambda>b. b) ws) \<le> spurious_left w"
    using with_local_claim[OF w(1) None w(2) ns w(3,4)] .
  have ok: "(\<exists>ns'. chained ?s ns')" "quiet ?s" "\<exists>nd. nodes ?s ?n = Some nd \<and> in_use nd = NODE_USED"
      "heap ?s = heap (sh w)" "storage ?s = storage (sh w)"
    using get_spec_ok[OF ns w(3,5)] by auto
  have sp: "spurious_left ?w1 \<le> spurious_left w" using ws by (simp add: spurious_left_def)
  have "progress 0 w ?w1"
    using w ok sp slot_get_get_spec[OF ns w(3)] get_spec_used[OF ns w(3)] None
    by (auto simp: progress_def settled_def local_ok_def gens_left_def)
  moreover have "view cnt (sh ?w1) = view cnt (sh w)" for cnt
    using ok owed_of_get_spec[OF ns w(3)] by (simp add: view_def)
  ultimately show ?thesis using that[OF f] by simp
qed

section \<open>Operations keep the state settled\<close>

lemma box_available_frame [simp]:
  "box_available (s\<lparr>rw_readers := r\<rparr>) = box_available s" "box_available (s\<lparr>rw_writer := x\<rparr>) = box_available s"
  "box_available (s\<lparr>arc_supply := ps\<rparr>) = box_available s"
  "box_available (s\<lparr>heap := h\<rparr>) = box_available s" "box_available (s\<lparr>storage := g\<rparr>) = box_available s"
  by (simp_all add: box_available_def split: list.splits)

lemma slot_set_nodes_None [simp]: "nodes (slot_set d v s) n = None \<longleftrightarrow> nodes s n = None"
  by (simp add: slot_set_def)

lemma box_available_slot_set [simp]: "box_available (slot_set d v s) = box_available s"
  by (auto simp: box_available_def split: list.splits)

lemma node_set_slot_quiet:
  "quiet_node s nd \<Longrightarrow> \<forall>n. d = HelpingDebt n \<longrightarrow> v = NONE \<Longrightarrow> quiet_node s (node_set_slot d v nd)"
  by (cases d) (auto simp: quiet_node_def)

lemma quiet_slot_set: "quiet s \<Longrightarrow> \<forall>n. d = HelpingDebt n \<longrightarrow> v = NONE \<Longrightarrow> quiet (slot_set d v s)"
  unfolding quiet_def
proof (intro allI impI)
  fix n nd
  assume q: "\<forall>n nd. nodes s n = Some nd \<longrightarrow> quiet_node s nd" and h: "\<forall>n. d = HelpingDebt n \<longrightarrow> v = NONE"
    and n: "nodes (slot_set d v s) n = Some nd"
  have env: "quiet_node (slot_set d v s) = quiet_node s" by (simp add: quiet_node_def fun_eq_iff)
  show "quiet_node (slot_set d v s) nd"
    using q h n node_set_slot_quiet[of s _ d v] unfolding env by (auto simp: slot_set_def split: if_splits)
qed

lemma local_ok_slot_set [simp]: "local_ok s l \<Longrightarrow> local_ok (slot_set d v s) l"
  by (fastforce simp: local_ok_def slot_set_def)

lemma slot_get_exists [simp]: "slot_get s e \<noteq> None \<Longrightarrow> \<exists>y. slot_get (slot_set d v s) e = Some y"
  by (cases "e = d") (auto simp: slot_get_set)

lemma progress_slot_set:
  assumes "settled w" and "\<forall>n. d = HelpingDebt n \<longrightarrow> v = NONE"
  shows "progress 0 w (w\<lparr>sh := slot_set d v (sh w)\<rparr>)"
  using assms quiet_slot_set[OF _ assms(2)]
  by (auto simp: progress_def settled_def gens_left_def spurious_left_def)

lemma progress_heap: "settled w \<Longrightarrow> progress 0 w (w\<lparr>sh := (sh w)\<lparr>heap := h\<rparr>\<rparr>)"
  by (simp add: progress_def settled_def gens_left_def spurious_left_def)

lemma progress_storage: "settled w \<Longrightarrow> progress 0 w (w\<lparr>sh := (sh w)\<lparr>storage := g\<rparr>\<rparr>)"
  by (simp add: progress_def settled_def gens_left_def spurious_left_def)

lemma progress_offset: "settled w \<Longrightarrow> progress 0 w (w\<lparr>loc := (loc w)\<lparr>offset := x\<rparr>\<rparr>)"
  by (simp add: progress_def settled_def gens_left_def spurious_left_def local_ok_def)

lemma progress_weak_cas:
  assumes "settled w"
  shows "progress 0 w (w\<lparr>weak_cas := tl (weak_cas w)\<rparr>)"
proof -
  have "length (filter (\<lambda>b. b) (tl (weak_cas w))) \<le> length (filter (\<lambda>b. b) (weak_cas w))"
    by (cases "weak_cas w") auto
  then show ?thesis using assms by (simp add: progress_def settled_def gens_left_def spurious_left_def)
qed

lemma settled_reader:
  assumes "settled w" and "node (loc w) \<noteq> None" and "storage (sh w) a = Some p" and "0 < gens_left w"
  obtains ns n nd where "reader_ok a p ns w" and "node (loc w) = Some n" and "nodes (sh w) n = Some nd"
    and "length (fast nd) = DEBT_SLOT_CNT" and "quiet_node (sh w) nd"
proof -
  obtain ns where ns: "chained (sh w) ns" using assms(1) by (auto simp: settled_def)
  have r: "reader_ok a p ns w"
    using assms ns gens_left_step(1)[OF assms(4)] by (simp add: reader_ok_def settled_def)
  show ?thesis
    using reader_ok_node[OF r] that[OF r] by (auto simp: node_ok_def)
qed

lemma progress_announce:
  assumes "settled w" and "nodes (sh w) n = Some nd" and "0 < gens_left w"
  shows "progress 1 w (w\<lparr>loc := (loc w)\<lparr>generation := generation (loc w) + 4\<rparr>,
       sh := (sh w)\<lparr>nodes := (nodes (sh w))(n \<mapsto> nd\<lparr>helping := (helping nd)\<lparr>active_addr := a\<rparr>\<rparr>)\<rparr>\<rparr>)"
proof -
  let ?nd = "nd\<lparr>helping := (helping nd)\<lparr>active_addr := a\<rparr>\<rparr>"
  let ?s = "(sh w)\<lparr>nodes := (nodes (sh w))(n \<mapsto> ?nd)\<rparr>"
  obtain ns where ns: "chained (sh w) ns" using assms(1) by (auto simp: settled_def)
  have "node_ok nd" using ns assms(2) by (auto simp: chained_def)
  then have ok: "node_ok ?nd" by (simp add: node_ok_def)
  have "chained ?s ns" by (rule chained_update[OF ns assms(2) _ ok]) simp
  moreover have "quiet ?s"
    using assms(1,2) by (intro quiet_update) (auto simp: settled_def quiet_def quiet_node_def)
  moreover have "local_ok ?s ((loc w)\<lparr>generation := generation (loc w) + 4\<rparr>)"
    using assms(1,2) by (auto simp: settled_def local_ok_def)
  moreover have "box_available (sh w) \<longrightarrow> box_available ?s"
    using assms(2) by (auto simp: box_available_def split: list.splits)
  moreover have "slot_get ?s d = slot_get (sh w) d" for d
    using assms(2) by (rule slot_get_same_slots) simp_all
  moreover have "used_nodes ?s = used_nodes (sh w)" using assms(2) by (rule used_nodes_update) simp
  ultimately show ?thesis
    using assms(1) gens_left_step(2)[OF assms(3)]
    by (auto simp: progress_def settled_def spurious_left_def gens_left_def)
qed

section \<open>Loading\<close>

text \<open>A protection of \<open>p\<close>: it dereferences to \<open>p\<close>, and its slot, if it has one, exists.\<close>

definition protects :: "('t, 'v) RefCnt \<Rightarrow> 'v shared \<Rightarrow> usize \<Rightarrow> 't HybridProtection \<Rightarrow> bool" where
  "protects T s p g \<longleftrightarrow> hp_ptr g = from_ptr T p \<and> (\<forall>d. hp_debt g = Some d \<longrightarrow> slot_get s d \<noteq> None)"

lemma protects_progress: "protects T (sh w) p g \<Longrightarrow> progress k w w' \<Longrightarrow> protects T (sh w') p g"
  by (auto simp: protects_def progress_def)

lemma protects_new: "protects T s p g \<Longrightarrow> g = hp_new T p (hp_debt g)"
  by (cases g) (simp add: protects_def hp_new_def)

text \<open>The slot of a new debt was free before.\<close>

definition fresh_debt :: "'v books \<Rightarrow> Debt option \<Rightarrow> bool" where
  "fresh_debt B x \<longleftrightarrow> (\<forall>d p. x = Some d \<longrightarrow> (d, p) \<notin> owed B)"

context ref_cnt
begin

lemma load_held:
  assumes "settled w" and "node (loc w) \<noteq> None" and "storage (sh w) a = Some p"
    and "live (heap (sh w)) p" and "p \<noteq> NONE" and "0 < gens_left w"
  obtains g w' where "bnd (if USE_FAST cfg then attempt T a else ret None)
      (\<lambda>fast. case fast of Some x \<Rightarrow> ret x | None \<Rightarrow> fallback T a) w = (Inr g, w')"
    and "progress 1 w w'" and "protects T (sh w') p g" and "fresh_debt (view cnt (sh w)) (hp_debt g)"
    and "view cnt (sh w') = acquired p (hp_debt g) (view cnt (sh w))"
proof -
  obtain ns n nd where r: "reader_ok a p ns w" and n: "node (loc w) = Some n" "nodes (sh w) n = Some nd"
    and len: "length (fast nd) = DEBT_SLOT_CNT" and q: "quiet_node (sh w) nd"
    using settled_reader[OF assms(1-3,6)] .
  show ?thesis
  proof (cases "if USE_FAST cfg then fast_pick (fast nd) (offset (loc w)) else None")
    case None
    let ?s = "(sh w)\<lparr>nodes := (nodes (sh w))(n \<mapsto> nd\<lparr>helping := (helping nd)\<lparr>active_addr := a\<rparr>\<rparr>)\<rparr>"
    let ?w = "w\<lparr>loc := (loc w)\<lparr>generation := generation (loc w) + 4\<rparr>, sh := ?s\<rparr>"
    let ?w' = "?w\<lparr>sh := ?s\<lparr>heap := up p (heap ?s)\<rparr>\<rparr>"
    have "progress 1 w ?w" using assms(1) n(2) assms(6) by (rule progress_announce)
    then have "progress (1 + 0) w ?w'"
      using progress_heap[OF progress_settled, of 1 w ?w "up p (heap ?s)"] by (intro progress_trans) auto
    moreover have "view cnt ?s = view cnt (sh w)" using n(2) by (rule view_same_slots) simp_all
    then have "view cnt (sh ?w') = acquired p None (view cnt (sh w))"
      using view_up[of ?s p] assms(4) by simp
    moreover have "bnd (if USE_FAST cfg then attempt T a else ret None)
        (\<lambda>fast. case fast of Some x \<Rightarrow> ret x | None \<Rightarrow> fallback T a) w = (Inr (hp_from_inner (from_ptr T p)), ?w')"
      using None attempt_solo[OF r n, of T] fallback_solo[OF r n assms(4)]
      by (auto simp: bnd_apply split: if_splits)
    ultimately show ?thesis
      by (intro that[of "hp_from_inner (from_ptr T p)" ?w'])
        (auto simp: protects_def fresh_debt_def hp_from_inner_def)
  next
    case (Some j)
    let ?d = "FastDebt n j"
    let ?w = "w\<lparr>sh := slot_set ?d p (sh w)\<rparr>"
    let ?w' = "?w\<lparr>loc := (loc ?w)\<lparr>offset := of_nat j + 1\<rparr>\<rparr>"
    have j: "j < DEBT_SLOT_CNT" "fast nd ! j = NONE"
      using fast_pick_Some[OF len] Some by (auto split: if_splits)
    then have get: "slot_get (sh w) ?d = Some NONE" using n len by simp
    have "progress 0 w ?w" using assms(1) by (intro progress_slot_set) auto
    then have "progress (0 + 0) w ?w'"
      using progress_offset[OF progress_settled, of 0 w ?w] by (intro progress_trans) auto
    then have "progress 1 w ?w'" by (rule progress_mono) simp
    moreover have "view cnt (sh ?w') = acquired p (Some ?d) (view cnt (sh w))"
      using view_claim[OF get assms(5)] by simp
    moreover have "bnd (if USE_FAST cfg then attempt T a else ret None)
        (\<lambda>fast. case fast of Some x \<Rightarrow> ret x | None \<Rightarrow> fallback T a) w = (Inr (hp_new T p (Some ?d)), ?w')"
      using Some attempt_solo[OF r n, of T] by (auto simp: bnd_apply split: if_splits)
    ultimately show ?thesis
      using get slot_get_set[OF get] by (intro that[of "hp_new T p (Some ?d)" ?w'])
        (auto simp: protects_def fresh_debt_def hp_new_def simp del: slot_get.simps)
  qed
qed

lemma hybrid_load_ok:
  assumes "settled w" and "storage (sh w) a = Some p"
    and "live (heap (sh w)) p" and "p \<noteq> NONE" and "0 < gens_left w"
  obtains g w' where "hybrid_load T cfg a w = (Inr g, w')"
    and "progress 1 w w'" and "protects T (sh w') p g" and "fresh_debt (view cnt (sh w)) (hp_debt g)"
    and "view cnt (sh w') = acquired p (hp_debt g) (view cnt (sh w))"
proof -
  obtain w1 where w1: "hybrid_load T cfg a w = bnd (if USE_FAST cfg then attempt T a else ret None)
      (\<lambda>fast. case fast of Some x \<Rightarrow> ret x | None \<Rightarrow> fallback T a) w1" "progress 0 w w1" "node (loc w1) \<noteq> None"
    and v: "\<And>c. view c (sh w1) = view c (sh w)"
    using with_local_settled[OF assms(1)] unfolding hybrid_load_def by metis
  have "storage (sh w1) a = Some p" using v[of cnt] assms(2) by (metis view_fields(2))
  moreover have "live (heap (sh w1)) p" using v[of cnt] assms(3) by (simp add: live_view)
  moreover have "settled w1" "0 < gens_left w1" using w1(2) assms(5) by (auto simp: progress_def)
  ultimately obtain g w' where "hybrid_load T cfg a w = (Inr g, w')"
    "progress 1 w1 w'" "protects T (sh w') p g" "fresh_debt (view cnt (sh w1)) (hp_debt g)"
    "view cnt (sh w') = acquired p (hp_debt g) (view cnt (sh w1))"
    using load_held[OF _ w1(3) _ _ assms(4), where cfg = cfg] w1(1) by metis
  then show ?thesis using that progress_trans[OF w1(2), of 1 w'] v by simp
qed

section \<open>Giving a protection back\<close>

lemma hybrid_into_inner_ok:
  assumes "settled w" and "protects T (sh w) p g" and "live (heap (sh w)) p" and "p \<noteq> NONE"
  obtains w' where "hp_into_inner T g w = (Inr (from_ptr T p), w')" and "progress 0 w w'"
    and "view cnt (sh w') = redeemed p (hp_debt g) (view cnt (sh w))"
proof (cases "hp_debt g")
  case None
  then show ?thesis
    using that[of w] assms(1,2) by (simp add: hp_into_inner_none protects_def progress_refl)
next
  case (Some d)
  obtain v where v: "slot_get (sh w) d = Some v" using assms(2) Some by (auto simp: protects_def)
  have g: "g = hp_new T p (Some d)" using protects_new[OF assms(2)] Some by simp
  let ?w1 = "w\<lparr>sh := slot_set d NONE (sh w)\<rparr>"
  let ?w' = "?w1\<lparr>sh := (sh ?w1)\<lparr>heap := up p (heap (sh ?w1))\<rparr>\<rparr>"
  have run: "hp_into_inner T g w = (Inr (from_ptr T p), if v = p then ?w' else w)"
    using hp_into_inner_debt[OF _ assms(3) v] assms(1) g by (simp add: settled_def)
  show ?thesis
  proof (cases "v = p")
    case True
    have p1: "progress 0 w ?w1" using assms(1) by (intro progress_slot_set) auto
    then have "progress (0 + 0) w ?w'"
      using progress_heap[OF progress_settled, of 0 w ?w1] by (intro progress_trans) auto
    moreover have "view cnt (sh ?w') = redeemed p (Some d) (view cnt (sh w))"
      using view_up[of "slot_set d NONE (sh w)" p] view_clear[of "sh w" d p cnt] assms(3,4) v True by simp
    ultimately show ?thesis using that[of ?w'] run True Some by simp
  next
    case False
    then show ?thesis using that[of w] run Some v progress_refl[OF assms(1)] by simp
  qed
qed

lemma hybrid_drop_ok:
  assumes "settled w" and "protects T (sh w) p g" and "p \<noteq> NONE" and "p \<noteq> 0 \<or> nullable"
    and "live (heap (sh w)) p \<or> (\<exists>d. hp_debt g = Some d \<and> (d, p) \<in> owed (view cnt (sh w)))"
  obtains w' where "hp_drop T g w = (Inr (), w')" and "progress 0 w w'"
    and "view cnt (sh w') = released p (hp_debt g) (view cnt (sh w))"
proof -
  let ?wd = "w\<lparr>sh := (sh w)\<lparr>heap := down p (heap (sh w))\<rparr>\<rparr>"
  have solo: "solo w" using assms(1) by (simp add: settled_def)
  show ?thesis
  proof (cases "hp_debt g")
    case None
    have g: "g = hp_new T p None" using protects_new[OF assms(2)] None by simp
    have l: "live (heap (sh w)) p" using assms(5) None by simp
    show ?thesis
      using that[of ?wd] hp_drop_none[OF solo l] g progress_heap[OF assms(1)] view_down[OF l] None by simp
  next
    case (Some d)
    obtain v where v: "slot_get (sh w) d = Some v" using assms(2) Some by (auto simp: protects_def)
    have g: "g = hp_new T p (Some d)" using protects_new[OF assms(2)] Some by simp
    have l: "v \<noteq> p \<longrightarrow> live (heap (sh w)) p" using assms(5) Some v by auto
    note run = hp_drop_debt[OF solo assms(4) v l]
    show ?thesis
    proof (cases "v = p")
      case True
      let ?w' = "w\<lparr>sh := slot_set d NONE (sh w)\<rparr>"
      have "progress 0 w ?w'" using assms(1) by (intro progress_slot_set) auto
      then show ?thesis
        using that[of ?w'] run g True v assms(3) Some view_clear[of "sh w" d p cnt] by simp
    next
      case False
      then show ?thesis
        using that[of ?wd] run g v Some l progress_heap[OF assms(1)] view_down by simp
    qed
  qed
qed

section \<open>Waiting for readers\<close>

lemma settled_clear_all:
  assumes "settled w" and "p \<noteq> NONE"
  shows "progress 0 w (w\<lparr>sh := clear_all p (sh w)\<rparr>)"
proof -
  obtain ns where "chained (sh w) ns" using assms(1) by (auto simp: settled_def)
  then have "chained (clear_all p (sh w)) ns" by (rule clear_all_chained)
  moreover have "box_available (clear_all p (sh w)) = box_available (sh w)"
    by (auto simp: box_available_def clear_all_def split: list.splits)
  ultimately show ?thesis
    using assms clear_all_quiet[of "sh w" p] clear_all_local_ok[of "sh w" "loc w" p]
    by (auto simp: progress_def settled_def spurious_left_def gens_left_def slot_get_clear_all)
qed

lemma hybrid_wait_ok:
  assumes "settled w" and "live (heap (sh w)) p" and "p \<noteq> NONE"
  obtains w' where "hybrid_wait_for_readers T cfg p a w = (Inr (), w')" and "progress 0 w w'"
    and "view cnt (sh w') = paid_off p (view cnt (sh w))"
proof -
  let ?r = "bnd (hybrid_load T cfg a) (hp_into_inner T)"
  let ?val = "from_ptr T p"
  let ?body = "bnd (inc_value T ?val) (\<lambda>_. bnd (traverse (pay_node T ?val p a ?r)) (\<lambda>_. drop_val T ?val))"
  obtain w1 where w1: "pay_all T p a ?r w = ?body w1" "progress 0 w w1" "node (loc w1) \<noteq> None"
    and v: "\<And>c. view c (sh w1) = view c (sh w)"
    using with_local_settled[OF assms(1), of ?body] unfolding pay_all_def Let_def by metis
  then have s1: "settled w1" by (simp add: progress_def)
  then obtain ns where ns: "chained (sh w1) ns" by (auto simp: settled_def)
  have l: "live (heap (sh w1)) p" using v[of cnt] assms(2) by (simp add: live_view)
  have "writer_ok p ns w1" "tls_alive w1"
    using s1 ns w1(3) l by (auto simp: writer_ok_def settled_def)
  moreover have "pay_all T p a ?r w1 = ?body w1"
    using w1(3) s1 by (auto simp: pay_all_def Let_def with_local_held settled_def)
  ultimately have run: "?body w1 = (Inr (),
      w1\<lparr>sh := (clear_all p (sh w1))\<lparr>heap := (up p ^^ debts (sh w1) p) (heap (sh w1))\<rparr>\<rparr>)"
    using pay_all_solo by simp
  let ?w2 = "w1\<lparr>sh := clear_all p (sh w1)\<rparr>"
  let ?w' = "?w2\<lparr>sh := (sh ?w2)\<lparr>heap := (up p ^^ debts (sh w1) p) (heap (sh ?w2))\<rparr>\<rparr>"
  have p2: "progress 0 w1 ?w2" using s1 assms(3) by (rule settled_clear_all)
  then have "progress (0 + (0 + 0)) w ?w'"
    using progress_heap[OF progress_settled, of 0 w1 ?w2] w1(2) by (intro progress_trans) auto
  moreover have "view cnt (sh ?w') = paid_off p (view cnt (sh w1))"
    using view_funpow_up[of "clear_all p (sh w1)" p "debts (sh w1) p"] l
      debts_card(2)[OF chained_finite[OF ns] assms(3)]
    by (simp add: paid_off_def debts_on_def view_def owed_of_clear_all)
  ultimately show ?thesis
    using that[of ?w'] w1(1) run v by (simp add: hybrid_wait_for_readers_def)
qed

end

section \<open>Compare and swap\<close>

text \<open>An argument whose drop does nothing; an owned guard is the only other kind.\<close>

fun by_reference :: "'t AsRaw \<Rightarrow> bool" where
  "by_reference (RawOfGuard g) \<longleftrightarrow> False"
| "by_reference c \<longleftrightarrow> True"

lemma by_reference_drop: "by_reference c \<Longrightarrow> drop_raw T c = ret ()"
  by (cases c) auto

text \<open>Passing an owned guard is passing a reference to it and dropping it afterwards.\<close>

lemma hybrid_cas_loop_owned:
  "hybrid_cas_loop k T cfg a (RawOfGuard g) new =
   bnd (hybrid_cas_loop k T cfg a (RawOfGuardRef g) new) (\<lambda>old. bnd (hp_drop T (inner g)) (\<lambda>_. ret old))"
proof (induction k)
  case (Suc k)
  show ?case
    unfolding hybrid_cas_loop.simps Let_def bnd_assoc as_raw.simps drop_raw.simps Suc.IH if_distrib[where f = "\<lambda>m. bnd m _"]
      bnd_ret_left ..
qed (simp only: hybrid_cas_loop.simps bnd_raise)

lemma hybrid_compare_and_swap_owned:
  "hybrid_compare_and_swap T cfg a (RawOfGuard g) new =
   bnd (hybrid_compare_and_swap T cfg a (RawOfGuardRef g) new) (\<lambda>old. bnd (hp_drop T (inner g)) (\<lambda>_. ret old))"
  by (simp add: hybrid_compare_and_swap_def hybrid_cas_loop_owned bnd_assoc)

text \<open>Acquiring and releasing right away leaves the books as they were; so does acquiring, paying
  everything off and dropping one count, compared with just paying off.\<close>

lemma released_acquired:
  assumes "fresh_debt B x" and "p = 0 \<or> 0 < counts B p"
  shows "released p x (acquired p x B) = B"
proof (cases x)
  case None
  then show ?thesis using assms by (auto simp: bump_def unref_def fun_upd_idem)
next
  case (Some d)
  then have "insert (d, p) (owed B) - {(d, p)} = owed B" using assms by (auto simp: fresh_debt_def)
  then show ?thesis using Some by simp
qed

lemma unref_paid_off:
  assumes "fresh_debt B x" and "p = 0 \<or> 0 < counts B p" and "finite (debts_on B p)"
  shows "unref p (paid_off p (put a q (acquired p x B))) = paid_off p (put a q B)"
proof (cases x)
  case None
  then show ?thesis
    using assms(2) by (auto simp: paid_off_def put_def bump_def unref_def debts_on_def)
next
  case (Some d)
  have on: "debts_on (put a q (acquired p x B)) p = insert d (debts_on B p)" and new: "d \<notin> debts_on B p"
    using Some assms(1) by (auto simp: debts_on_def put_def fresh_debt_def)
  have rest: "{y. (y = (d, p) \<or> y \<in> owed B) \<and> snd y \<noteq> p} = {y \<in> owed B. snd y \<noteq> p}" by auto
  have on': "debts_on (put a q B) p = debts_on B p" by (simp add: debts_on_def put_def)
  show ?thesis
    unfolding paid_off_def on on' using Some assms(2,3) new rest
    by (auto simp: put_def bump_def unref_def)
qed

context ref_cnt
begin

lemma acquired_live:
  "live (heap s) q \<Longrightarrow> view cnt s' = acquired p x (view cnt s) \<Longrightarrow> live (heap s') q"
  unfolding live_view by (cases x) (auto simp: bump_def)

lemma hp_as_ptr_protects: "protects T s p g \<Longrightarrow> p \<noteq> 0 \<or> nullable \<Longrightarrow> hp_as_ptr T g = p"
  by (simp add: hp_as_ptr_def protects_def as_ptr_eq into_from)

lemma settled_finite_debts: "settled w \<Longrightarrow> p \<noteq> NONE \<Longrightarrow> finite (debts_on (view cnt (sh w)) p)"
  using debts_card(1) chained_finite by (auto simp: settled_def debts_on_def)

text \<open>The two outcomes of an undisturbed round.\<close>

lemma cas_round_mismatch:
  assumes "settled w" and "storage (sh w) a = Some p" and "live (heap (sh w)) p" and "p \<noteq> NONE"
    and "0 < gens_left w" and "valid new" and "live (heap (sh w)) (into_ptr T new)"
    and "by_reference current" and "as_raw T current \<noteq> p"
  obtains old w' where "hybrid_cas_loop (Suc k) T cfg a current new w = (Inr old, w')"
    and "progress 1 w w'" and "protects T (sh w') p old" and "fresh_debt (view cnt (sh w)) (hp_debt old)"
    and "view cnt (sh w') = unref (into_ptr T new) (acquired p (hp_debt old) (view cnt (sh w)))"
proof -
  obtain g w1 where g: "hybrid_load T cfg a w = (Inr g, w1)" "progress 1 w w1" "protects T (sh w1) p g"
      "fresh_debt (view cnt (sh w)) (hp_debt g)"
    and v: "view cnt (sh w1) = acquired p (hp_debt g) (view cnt (sh w))"
    using hybrid_load_ok[OF assms(1-5)] .
  have l: "live (heap (sh w1)) (into_ptr T new)" using assms(7) v by (rule acquired_live)
  have s1: "settled w1" using g(2) by (rule progress_settled)
  let ?w' = "w1\<lparr>sh := (sh w1)\<lparr>heap := down (into_ptr T new) (heap (sh w1))\<rparr>\<rparr>"
  have p: "progress (1 + 0) w ?w'" by (rule progress_trans[OF g(2) progress_heap[OF s1]])
  have "hybrid_cas_loop (Suc k) T cfg a current new w = (Inr g, ?w')"
    using g(1,3) assms live_not_null[OF assms(3)] l s1
    by (simp add: bnd_apply hp_as_ptr_protects by_reference_drop drop_val_solo settled_def)
  then show ?thesis
    using that[of g ?w'] p g(3,4) view_down[OF l] v protects_progress[OF g(3) progress_heap[OF s1]] by simp
qed

text \<open>The exchange succeeds: everybody is paid, and one of the two references the writer now has is
  returned.\<close>

lemma cas_commit:
  assumes "settled w" and "storage (sh w) a = Some p" and "live (heap (sh w)) p" and "p \<noteq> NONE"
    and "\<nexists>bs. weak_cas w = True # bs" and "protects T (sh w) p old"
  obtains w' where "bnd (storage_cas_weak a p q) (\<lambda>ok. if ok then
         bnd (hybrid_wait_for_readers T cfg p a) (\<lambda>_. bnd (dec_ptr T p) (\<lambda>_. ret old)) else f) w = (Inr old, w')"
    and "progress 0 w w'" and "protects T (sh w') p old"
    and "view cnt (sh w') = unref p (paid_off p (put a q (view cnt (sh w))))"
proof -
  let ?w1 = "w\<lparr>weak_cas := tl (weak_cas w)\<rparr>"
  let ?w2 = "?w1\<lparr>sh := (sh w)\<lparr>storage := (storage (sh w))(a \<mapsto> q)\<rparr>\<rparr>"
  have p1: "progress 0 w ?w1" using assms(1) by (rule progress_weak_cas)
  have "progress 0 ?w1 ?w2" using progress_storage[OF progress_settled[OF p1]] by simp
  then have p2: "progress (0 + 0) w ?w2" by (rule progress_trans[OF p1])
  have s2: "settled ?w2" using p2 by (rule progress_settled)
  have l2: "live (heap (sh ?w2)) p" using assms(3) by simp
  obtain w3 where w3: "hybrid_wait_for_readers T cfg p a ?w2 = (Inr (), w3)" "progress 0 ?w2 w3"
      "view cnt (sh w3) = paid_off p (view cnt (sh ?w2))"
    using hybrid_wait_ok[OF s2 l2 assms(4)] .
  have l3: "live (heap (sh w3)) p"
    using l2 w3(3) unfolding live_view by (auto simp: paid_off_def bump_def)
  have s3: "settled w3" using w3(2) by (rule progress_settled)
  let ?w' = "w3\<lparr>sh := (sh w3)\<lparr>heap := down p (heap (sh w3))\<rparr>\<rparr>"
  have p': "progress (0 + 0 + (0 + 0)) w ?w'"
    by (rule progress_trans[OF p2 progress_trans[OF w3(2) progress_heap[OF s3]]])
  have solo: "solo w" "solo w3" using assms(1) s3 by (auto simp: settled_def)
  have "bnd (storage_cas_weak a p q) (\<lambda>ok. if ok then
         bnd (hybrid_wait_for_readers T cfg p a) (\<lambda>_. bnd (dec_ptr T p) (\<lambda>_. ret old)) else f) w = (Inr old, ?w')"
    using solo assms(2,5) w3(1) l3 by (simp add: bnd_apply storage_cas_weak_ok dec_ptr_solo)
  moreover have "view cnt (sh ?w') = unref p (paid_off p (put a q (view cnt (sh w))))"
    using view_down[OF l3] w3(3) by (simp add: view_storage)
  ultimately show ?thesis
    using that[of ?w'] p' protects_progress[OF assms(6) p'] by simp
qed

text \<open>
  \<open>compare_and_swap\<close> on its own: if the guess is right it does what \<open>swap\<close> does, otherwise what
  \<open>load\<close> does (and releases the value that did not go in). Spurious failures cost a retry each.
\<close>

lemma hybrid_cas_loop_ok:
  assumes "settled w" and "storage (sh w) a = Some p" and "live (heap (sh w)) p" and "p \<noteq> NONE"
    and "spurious_left w < k" and "spurious_left w < gens_left w"
    and "valid new" and "live (heap (sh w)) (into_ptr T new)" and "by_reference current"
  obtains old w' where "hybrid_cas_loop k T cfg a current new w = (Inr old, w')"
    and "progress (Suc (spurious_left w)) w w'" and "protects T (sh w') p old"
    and "if as_raw T current = p
         then view cnt (sh w') = paid_off p (put a (into_ptr T new) (view cnt (sh w)))
         else fresh_debt (view cnt (sh w)) (hp_debt old) \<and>
              view cnt (sh w') = unref (into_ptr T new) (acquired p (hp_debt old) (view cnt (sh w)))"
  using assms
proof (induction k arbitrary: w thesis)
  case (Suc k)
  note asm = Suc.prems(2-10) and goal = Suc.prems(1)
  have gens: "0 < gens_left w" using asm(6) by simp
  show ?case
  proof (cases "as_raw T current = p")
    case False
    obtain old w' where "hybrid_cas_loop (Suc k) T cfg a current new w = (Inr old, w')"
      "progress 1 w w'" "protects T (sh w') p old" "fresh_debt (view cnt (sh w)) (hp_debt old)"
      "view cnt (sh w') = unref (into_ptr T new) (acquired p (hp_debt old) (view cnt (sh w)))"
      using cas_round_mismatch[OF asm(1-4) gens asm(7,8,9) False] .
    then show ?thesis using goal[of old w'] progress_mono[of 1 w w'] False by simp
  next
    case True
    obtain g w1 where g: "hybrid_load T cfg a w = (Inr g, w1)" "progress 1 w w1" "protects T (sh w1) p g"
        "fresh_debt (view cnt (sh w)) (hp_debt g)"
      and v: "view cnt (sh w1) = acquired p (hp_debt g) (view cnt (sh w))"
      using hybrid_load_ok[OF asm(1-4) gens] .
    have s1: "settled w1" using g(2) by (rule progress_settled)
    have st: "storage (sh w1) a = Some p"
      using asm(2) arg_cong[OF v, of cells] by (cases "hp_debt g") (auto simp: bump_def)
    have l1: "live (heap (sh w1)) p" "live (heap (sh w1)) (into_ptr T new)"
      using asm(3,8) v by (auto intro: acquired_live)
    have pos: "p = 0 \<or> 0 < counts (view cnt (sh w)) p" using asm(3) by (auto simp: live_view)
    have ptr: "hp_as_ptr T g = p" using g(3) live_not_null[OF asm(3)] by (rule hp_as_ptr_protects)
    have new_raw: "as_ptr T new = into_ptr T new" by (rule as_ptr_eq)
    let ?f = "bnd (hp_drop T g) (\<lambda>_. hybrid_cas_loop k T cfg a current new)"
    have load: "bnd (hybrid_load T cfg a) F w = F g w1" for F :: "_ \<Rightarrow> ('v, 't HybridProtection) prog"
      using g(1) by (simp add: bnd_apply)
    have run: "hybrid_cas_loop (Suc k) T cfg a current new w =
        bnd (storage_cas_weak a p (into_ptr T new)) (\<lambda>ok. if ok then
          bnd (hybrid_wait_for_readers T cfg p a) (\<lambda>_. bnd (dec_ptr T p) (\<lambda>_. ret g)) else ?f) w1"
      using True unfolding hybrid_cas_loop.simps load Let_def new_raw ptr by_reference_drop[OF asm(9)] bnd_ret_left
      by simp
    show ?thesis
    proof (cases "\<exists>bs. weak_cas w1 = True # bs")
      case False
      obtain w' where "hybrid_cas_loop (Suc k) T cfg a current new w = (Inr g, w')" "progress 0 w1 w'"
        "protects T (sh w') p g"
        "view cnt (sh w') = unref p (paid_off p (put a (into_ptr T new) (view cnt (sh w1))))"
        unfolding run using cas_commit[OF s1 st l1(1) asm(4) False g(3)] .
      moreover have "progress (1 + 0) w w'" by (rule progress_trans[OF g(2) \<open>progress 0 w1 w'\<close>])
      moreover have "progress (Suc (spurious_left w)) w w'"
        by (rule progress_mono[OF \<open>progress (1 + 0) w w'\<close>]) simp
      ultimately show ?thesis
        using goal[of g w'] True v unref_paid_off[OF g(4) pos settled_finite_debts[OF asm(1,4)]] by simp
    next
      case spur: True
      then obtain bs where bs: "weak_cas w1 = True # bs" by blast
      let ?w2 = "w1\<lparr>weak_cas := tl (weak_cas w1)\<rparr>"
      have p2: "progress 0 w1 ?w2" using s1 by (rule progress_weak_cas)
      have s2: "settled ?w2" using p2 by (rule progress_settled)
      have "live (heap (sh ?w2)) p" using l1(1) by simp
      then obtain w3 where w3: "hp_drop T g ?w2 = (Inr (), w3)" "progress 0 ?w2 w3"
          "view cnt (sh w3) = released p (hp_debt g) (view cnt (sh ?w2))"
        using hybrid_drop_ok[OF s2, of p g] protects_progress[OF g(3) p2] asm(4) live_not_null[OF asm(3)] by blast
      have v3: "view cnt (sh w3) = view cnt (sh w)"
        using w3(3) v released_acquired[OF g(4) pos] by simp
      have p3: "progress (1 + (0 + 0)) w w3"
        by (rule progress_trans[OF g(2) progress_trans[OF p2 w3(2)]])
      have step: "hybrid_cas_loop (Suc k) T cfg a current new w = hybrid_cas_loop k T cfg a current new w3"
        unfolding run using s1 st bs w3(1) by (simp add: bnd_apply storage_cas_weak_fail settled_def)
      have sp: "spurious_left w3 < spurious_left w"
        using w3(2) g(2) bs by (auto simp: progress_def spurious_left_def)
      have "storage (sh w3) a = Some p" using asm(2) arg_cong[OF v3, of cells] by simp
      moreover have "live (heap (sh w3)) q = live (heap (sh w)) q" for q using v3 by (simp add: live_view)
      moreover have "spurious_left w3 < k" "spurious_left w3 < gens_left w3" "settled w3"
        using sp asm(5,6) p3 by (auto simp: progress_def)
      ultimately obtain old w' where r: "hybrid_cas_loop k T cfg a current new w3 = (Inr old, w')"
          "progress (Suc (spurious_left w3)) w3 w'" "protects T (sh w') p old"
          "view cnt (sh w') = paid_off p (put a (into_ptr T new) (view cnt (sh w3)))"
        using Suc.IH[of w3] asm True by (metis (no_types, lifting))
      have "progress (1 + (0 + 0) + Suc (spurious_left w3)) w w'" by (rule progress_trans[OF p3 r(2)])
      then have "progress (Suc (spurious_left w)) w w'" by (rule progress_mono) (use sp in simp)
      then show ?thesis using goal[of old w'] r step v3 True by simp
    qed
  qed
qed simp

lemma hybrid_compare_and_swap_ok:
  assumes "settled w" and "storage (sh w) a = Some p" and "live (heap (sh w)) p" and "p \<noteq> NONE"
    and "spurious_left w < gens_left w"
    and "valid new" and "live (heap (sh w)) (into_ptr T new)" and "by_reference current"
  obtains old w' where "hybrid_compare_and_swap T cfg a current new w = (Inr old, w')"
    and "progress (Suc (spurious_left w)) w w'" and "protects T (sh w') p old"
    and "if as_raw T current = p
         then view cnt (sh w') = paid_off p (put a (into_ptr T new) (view cnt (sh w)))
         else fresh_debt (view cnt (sh w)) (hp_debt old) \<and>
              view cnt (sh w') = unref (into_ptr T new) (acquired p (hp_debt old) (view cnt (sh w)))"
proof -
  have "spurious_left w < fuel w" using assms(1) by (simp add: settled_def)
  moreover have "hybrid_compare_and_swap T cfg a current new w = hybrid_cas_loop (fuel w) T cfg a current new w"
    by (simp add: hybrid_compare_and_swap_def bnd_apply loc_exec)
  ultimately show ?thesis using hybrid_cas_loop_ok[OF assms(1-4) _ assms(5-8)] that by metis
qed

end

end
