(* ===== verification/Strategy.thy ===== *)
theory Strategy
  imports Hybrid
begin

text \<open>
  The sealed traits of \<^verbatim>\<open>src/strategy/mod.rs\<close> (\<open>Protected\<close>, \<open>InnerStrategy\<close>, \<open>CaS\<close>) as a
  record of operations, the default strategy as such a record, and the contract between a strategy
  and \<open>ArcSwapAny\<close> as a locale.
\<close>

record ('t, 'v, 'p) Strategy =
  s_load :: "usize \<Rightarrow> ('v, 'p) prog"
  s_wait_for_readers :: "usize \<Rightarrow> usize \<Rightarrow> ('v, unit) prog"
  s_compare_and_swap :: "usize \<Rightarrow> 't AsRaw \<Rightarrow> 't \<Rightarrow> ('v, 'p) prog"
  s_from_inner :: "'t \<Rightarrow> 'p"
  s_into_inner :: "'p \<Rightarrow> ('v, 't) prog"
  s_borrow :: "'p \<Rightarrow> 't"
  s_drop :: "'p \<Rightarrow> ('v, unit) prog"

definition hybrid_Strategy :: "('t, 'v) RefCnt \<Rightarrow> Config \<Rightarrow> ('t, 'v, 't HybridProtection) Strategy" where
  "hybrid_Strategy T cfg =
     \<lparr>s_load = hybrid_load T cfg,
      s_wait_for_readers = hybrid_wait_for_readers T cfg,
      s_compare_and_swap = hybrid_compare_and_swap T cfg,
      s_from_inner = hp_from_inner,
      s_into_inner = hp_into_inner T,
      s_borrow = hp_borrow,
      s_drop = hp_drop T\<rparr>"

text \<open>\<open>DefaultStrategy\<close> and its alias \<open>IndependentStrategy\<close>.\<close>

definition DefaultStrategy :: "('t, 'v) RefCnt \<Rightarrow> ('t, 'v, 't HybridProtection) Strategy" where
  "DefaultStrategy T = hybrid_Strategy T DefaultConfig"

definition IndependentStrategy :: "('t, 'v) RefCnt \<Rightarrow> ('t, 'v, 't HybridProtection) Strategy" where
  "IndependentStrategy T = DefaultStrategy T"

section \<open>The contract\<close>

text \<open>
  \<open>ok\<close> is the strategy's own condition between operations, \<open>prot\<close> says that a protected value
  stands for a pointer, \<open>debt_of\<close> is the debt it may carry, \<open>settle\<close> is what waiting for the
  readers of a pointer does to the books. Every law is an equation on the books.
\<close>

locale strategy = ref_cnt T cnt up down valid nullable
  for T :: "('t, 'v) RefCnt" and cnt up down valid nullable +
  fixes S :: "('t, 'v, 'p) Strategy"
    and ok :: "'v world \<Rightarrow> bool"
    and prot :: "'v shared \<Rightarrow> usize \<Rightarrow> 'p \<Rightarrow> bool"
    and debt_of :: "'p \<Rightarrow> Debt option"
    and settle :: "usize \<Rightarrow> 'v books \<Rightarrow> 'v books"
  assumes ok_settled: "ok w \<Longrightarrow> settled w"
    and ok_heap: "ok w \<Longrightarrow> ok (w\<lparr>sh := (sh w)\<lparr>heap := h\<rparr>\<rparr>)"
    and ok_storage: "ok w \<Longrightarrow> ok (w\<lparr>sh := (sh w)\<lparr>storage := st\<rparr>\<rparr>)"
    and settle_cells: "cells (settle p B) = cells B"
    and settle_total: "q \<noteq> 0 \<Longrightarrow> total (settle p B) q = total B q"
    and settle_counts: "counts B q \<le> counts (settle p B) q"
    and prot_borrow: "prot s p g \<Longrightarrow> s_borrow S g = from_ptr T p"
    and prot_progress: "prot (sh w) p g \<Longrightarrow> progress k w w' \<Longrightarrow> prot (sh w') p g"
    and from_inner_law: "prot s p (s_from_inner S (from_ptr T p)) \<and> debt_of (s_from_inner S (from_ptr T p)) = None"
    and load_law: "ok w \<Longrightarrow> storage (sh w) a = Some p \<Longrightarrow> live_ptr nullable cnt (heap (sh w)) p \<Longrightarrow>
          p \<noteq> NONE \<Longrightarrow> 0 < gens_left w \<Longrightarrow>
          \<exists>g w'. s_load S a w = (Inr g, w') \<and> progress 1 w w' \<and> ok w' \<and> prot (sh w') p g \<and>
            fresh_debt (view cnt (sh w)) (debt_of g) \<and>
            view cnt (sh w') = acquired p (debt_of g) (view cnt (sh w))"
    and into_inner_law: "ok w \<Longrightarrow> prot (sh w) p g \<Longrightarrow> live_ptr nullable cnt (heap (sh w)) p \<Longrightarrow> p \<noteq> NONE \<Longrightarrow>
          \<exists>w'. s_into_inner S g w = (Inr (from_ptr T p), w') \<and> progress 0 w w' \<and> ok w' \<and>
            view cnt (sh w') = redeemed p (debt_of g) (view cnt (sh w))"
    and drop_law: "ok w \<Longrightarrow> prot (sh w) p g \<Longrightarrow> p \<noteq> NONE \<Longrightarrow> p \<noteq> 0 \<or> nullable \<Longrightarrow>
          live_ptr nullable cnt (heap (sh w)) p \<or>
            (\<exists>d. debt_of g = Some d \<and> (d, p) \<in> owed (view cnt (sh w))) \<Longrightarrow>
          \<exists>w'. s_drop S g w = (Inr (), w') \<and> progress 0 w w' \<and> ok w' \<and>
            view cnt (sh w') = released p (debt_of g) (view cnt (sh w))"
    and wait_law: "ok w \<Longrightarrow> live_ptr nullable cnt (heap (sh w)) p \<Longrightarrow> p \<noteq> NONE \<Longrightarrow>
          \<exists>w'. s_wait_for_readers S p a w = (Inr (), w') \<and> progress 0 w w' \<and> ok w' \<and>
            view cnt (sh w') = settle p (view cnt (sh w))"
    and cas_law: "ok w \<Longrightarrow> storage (sh w) a = Some p \<Longrightarrow> live_ptr nullable cnt (heap (sh w)) p \<Longrightarrow>
          p \<noteq> NONE \<Longrightarrow> spurious_left w < gens_left w \<Longrightarrow> valid new \<Longrightarrow>
          live_ptr nullable cnt (heap (sh w)) (into_ptr T new) \<Longrightarrow> by_reference current \<Longrightarrow>
          \<exists>old w'. s_compare_and_swap S a current new w = (Inr old, w') \<and>
            progress (Suc (spurious_left w)) w w' \<and> ok w' \<and> prot (sh w') p old \<and>
            (if as_raw T current = p
             then view cnt (sh w') = settle p (put a (into_ptr T new) (view cnt (sh w)))
             else fresh_debt (view cnt (sh w)) (debt_of old) \<and>
                  view cnt (sh w') = unref (into_ptr T new) (acquired p (debt_of old) (view cnt (sh w))))"

section \<open>The hybrid strategy meets the contract\<close>

lemma paid_off_counts: "counts B q \<le> counts (paid_off p B) q"
  by (simp add: paid_off_def bump_def)

lemma paid_off_cells: "cells (paid_off p B) = cells B"
  by (simp add: paid_off_def bump_def)

context ref_cnt
begin

lemma hybrid_strategy:
  "strategy T cnt up down valid nullable (hybrid_Strategy T cfg) settled (protects T) hp_debt paid_off"
proof (unfold_locales, goal_cases)
  case (2 w h) then show ?case using progress_heap progress_settled by blast
next
  case (3 w g) then show ?case using progress_storage progress_settled by blast
next
  case (7 s p g) then show ?case by (simp add: hybrid_Strategy_def hp_borrow_def protects_def)
next
  case (8 w p g k w') then show ?case by (rule protects_progress)
next
  case (9 s p) then show ?case by (simp add: hybrid_Strategy_def hp_from_inner_def protects_def)
next
  case (10 w a p)
  show ?case
    by (rule hybrid_load_ok[OF 10, of cfg]) (auto simp: hybrid_Strategy_def intro: progress_settled)
next
  case (11 w p g)
  show ?case
    by (rule hybrid_into_inner_ok[OF 11]) (auto simp: hybrid_Strategy_def intro: progress_settled)
next
  case (12 w p g)
  show ?case
    by (rule hybrid_drop_ok[OF 12]) (auto simp: hybrid_Strategy_def intro: progress_settled)
next
  case (13 w p a)
  show ?case
    by (rule hybrid_wait_ok[OF 13, of cfg a]) (auto simp: hybrid_Strategy_def intro: progress_settled)
next
  case (14 w a p new current)
  show ?case
    by (rule hybrid_compare_and_swap_ok[OF 14, of cfg])
      (simp only: hybrid_Strategy_def Strategy.simps, blast intro: progress_settled)
qed (simp_all add: paid_off_cells total_paid_off paid_off_counts)

end

interpretation arc_hybrid: strategy arc_RefCnt strong_rc strong_up strong_down arc_valid False
  "hybrid_Strategy arc_RefCnt cfg" settled "protects arc_RefCnt" hp_debt paid_off for cfg
  by (rule arc.hybrid_strategy)

interpretation option_hybrid: strategy "option_RefCnt arc_RefCnt" strong_rc "unless_null strong_up"
  "unless_null strong_down" "option_valid arc_valid" True
  "hybrid_Strategy (option_RefCnt arc_RefCnt) cfg" settled "protects (option_RefCnt arc_RefCnt)" hp_debt paid_off
  for cfg
  by (rule arc.opt.hybrid_strategy)

interpretation weak_hybrid: strategy weak_RefCnt weak_rc "unless_null weak_up" "unless_null weak_down"
  weak_valid True "hybrid_Strategy weak_RefCnt cfg" settled "protects weak_RefCnt" hp_debt paid_off for cfg
  by (rule weak.hybrid_strategy)

end
