(* ===== verification/RwLockStrategy.thy ===== *)
theory RwLockStrategy
  imports Strategy
begin

text \<open>
  The testing strategy of \<^verbatim>\<open>src/strategy/rw_lock.rs\<close>: an \<open>RwLock<()>\<close> of the standard library
  around every access, and the reference counted pointer itself as the protected value. The lock of a
  storage is named by the storage's address. Acquiring a lock waits until it is free; the wait is
  bounded by the fuel.
\<close>

section \<open>The lock\<close>

definition try_read :: "usize \<Rightarrow> ('v, bool) prog" where
  "try_read l = atomic (\<lambda>s. Inr (if rw_writer s l then (False, s)
     else (True, s\<lparr>rw_readers := (rw_readers s)(l := rw_readers s l + 1)\<rparr>)))"

definition try_write :: "usize \<Rightarrow> ('v, bool) prog" where
  "try_write l = atomic (\<lambda>s. Inr (if rw_writer s l \<or> 0 < rw_readers s l then (False, s)
     else (True, s\<lparr>rw_writer := (rw_writer s)(l := True)\<rparr>)))"

definition read_unlock :: "usize \<Rightarrow> ('v, unit) prog" where
  "read_unlock l = atomic (\<lambda>s. Inr ((), s\<lparr>rw_readers := (rw_readers s)(l := rw_readers s l - 1)\<rparr>))"

definition write_unlock :: "usize \<Rightarrow> ('v, unit) prog" where
  "write_unlock l = atomic (\<lambda>s. Inr ((), s\<lparr>rw_writer := (rw_writer s)(l := False)\<rparr>))"

fun wait_for :: "nat \<Rightarrow> ('v, bool) prog \<Rightarrow> ('v, unit) prog" where
  "wait_for 0 try_lock = raise OutOfFuel"
| "wait_for (Suc k) try_lock = bnd try_lock (\<lambda>ok. if ok then ret () else wait_for k try_lock)"

definition read_lock :: "usize \<Rightarrow> ('v, unit) prog" where
  "read_lock l = bnd get_fuel (\<lambda>k. wait_for k (try_read l))"

definition write_lock :: "usize \<Rightarrow> ('v, unit) prog" where
  "write_lock l = bnd get_fuel (\<lambda>k. wait_for k (try_write l))"

section \<open>The strategy\<close>

definition rw_from_inner :: "'t \<Rightarrow> 't" where
  "rw_from_inner ptr = ptr"

definition rw_into_inner :: "'t \<Rightarrow> ('v, 't) prog" where
  "rw_into_inner ptr = ret ptr"

definition rw_load :: "('t, 'v) RefCnt \<Rightarrow> usize \<Rightarrow> ('v, 't) prog" where
  "rw_load T storage_addr =
     bnd (read_lock storage_addr) (\<lambda>_.
     bnd (storage_load storage_addr) (\<lambda>raw.
     let ptr = from_ptr T raw in
     bnd (inc_value T ptr) (\<lambda>_.
     bnd (read_unlock storage_addr) (\<lambda>_.
     ret ptr))))"

definition rw_wait_for_readers :: "usize \<Rightarrow> usize \<Rightarrow> ('v, unit) prog" where
  "rw_wait_for_readers old storage_addr =
     bnd (write_lock storage_addr) (\<lambda>_. write_unlock storage_addr)"

definition rw_compare_and_swap :: "('t, 'v) RefCnt \<Rightarrow> usize \<Rightarrow> 't AsRaw \<Rightarrow> 't \<Rightarrow> ('v, 't) prog" where
  "rw_compare_and_swap T storage_addr current new =
     bnd (write_lock storage_addr) (\<lambda>_.
     let cur = as_raw T current; new_raw = into_ptr T new in
     bnd (storage_cas storage_addr cur new_raw) (\<lambda>(old_raw, swapped).
     let old = from_ptr T old_raw in
     bnd (if \<not> swapped then bnd (inc_value T old) (\<lambda>_. drop_val T (from_ptr T new_raw)) else ret ()) (\<lambda>_.
     bnd (drop_raw T current) (\<lambda>_.
     bnd (write_unlock storage_addr) (\<lambda>_.
     ret old)))))"

definition rw_lock_Strategy :: "('t, 'v) RefCnt \<Rightarrow> ('t, 'v, 't) Strategy" where
  "rw_lock_Strategy T =
     \<lparr>s_load = rw_load T,
      s_wait_for_readers = rw_wait_for_readers,
      s_compare_and_swap = rw_compare_and_swap T,
      s_from_inner = rw_from_inner,
      s_into_inner = rw_into_inner,
      s_borrow = (\<lambda>ptr. ptr),
      s_drop = drop_val T\<rparr>"

section \<open>The strategy meets the contract\<close>

text \<open>Between operations nobody holds a lock.\<close>

definition unlocked :: "'v world \<Rightarrow> bool" where
  "unlocked w \<longleftrightarrow> settled w \<and> (\<forall>l. rw_readers (sh w) l = 0 \<and> \<not> rw_writer (sh w) l)"

lemma unlocked_frame:
  "unlocked w \<Longrightarrow> unlocked (w\<lparr>sh := (sh w)\<lparr>heap := h\<rparr>\<rparr>)"
  "unlocked w \<Longrightarrow> unlocked (w\<lparr>sh := (sh w)\<lparr>storage := st\<rparr>\<rparr>)"
  unfolding unlocked_def by (auto intro: progress_settled[OF progress_heap] progress_settled[OF progress_storage])

definition rw_protects :: "('t, 'v) RefCnt \<Rightarrow> 'v shared \<Rightarrow> usize \<Rightarrow> 't \<Rightarrow> bool" where
  "rw_protects T s p g \<longleftrightarrow> g = from_ptr T p"

text \<open>Taking and releasing a free lock, around a computation that leaves the locks alone.\<close>

definition with_readers :: "usize \<Rightarrow> 'v world \<Rightarrow> 'v world" where
  "with_readers l w = w\<lparr>sh := (sh w)\<lparr>rw_readers := (rw_readers (sh w))(l := 1)\<rparr>\<rparr>"

definition with_writer :: "usize \<Rightarrow> 'v world \<Rightarrow> 'v world" where
  "with_writer l w = w\<lparr>sh := (sh w)\<lparr>rw_writer := (rw_writer (sh w))(l := True)\<rparr>\<rparr>"

lemma unlocked_fuel: "unlocked w \<Longrightarrow> \<exists>k. fuel w = Suc k"
  by (cases "fuel w") (auto simp: unlocked_def settled_def)

lemma read_lock_free: "unlocked w \<Longrightarrow> read_lock l w = (Inr (), with_readers l w)"
  using unlocked_fuel[of w]
  by (auto simp: read_lock_def try_read_def bnd_apply loc_exec atomic_solo with_readers_def unlocked_def settled_def)

lemma write_lock_free: "unlocked w \<Longrightarrow> write_lock l w = (Inr (), with_writer l w)"
  using unlocked_fuel[of w]
  by (auto simp: write_lock_def try_write_def bnd_apply loc_exec atomic_solo with_writer_def unlocked_def settled_def)

lemma read_unlock_held:
  "unlocked w \<Longrightarrow> read_unlock l ((with_readers l w)\<lparr>sh := (sh (with_readers l w))\<lparr>heap := h\<rparr>\<rparr>) =
     (Inr (), w\<lparr>sh := (sh w)\<lparr>heap := h\<rparr>\<rparr>)"
proof -
  assume a: "unlocked w"
  then have "(rw_readers (sh w))(l := 0) = rw_readers (sh w)" by (auto simp: unlocked_def fun_upd_idem)
  then show ?thesis using a
    by (simp add: read_unlock_def atomic_solo with_readers_def unlocked_def settled_def)
qed

lemma write_unlock_held:
  "unlocked w \<Longrightarrow> solo v \<Longrightarrow> rw_writer (sh v) = (rw_writer (sh w))(l := True) \<Longrightarrow>
   write_unlock l v = (Inr (), v\<lparr>sh := (sh v)\<lparr>rw_writer := rw_writer (sh w)\<rparr>\<rparr>)"
proof -
  assume a: "unlocked w" "solo v" "rw_writer (sh v) = (rw_writer (sh w))(l := True)"
  then have "(rw_writer (sh w))(l := False) = rw_writer (sh w)" by (auto simp: unlocked_def fun_upd_idem)
  then show ?thesis using a by (simp add: write_unlock_def atomic_solo)
qed

lemma with_readers_fields [simp]:
  "solo (with_readers l w) = solo w" "heap (sh (with_readers l w)) = heap (sh w)"
  "storage (sh (with_readers l w)) = storage (sh w)"
  by (simp_all add: with_readers_def)

lemma with_writer_fields [simp]:
  "solo (with_writer l w) = solo w" "heap (sh (with_writer l w)) = heap (sh w)"
  "storage (sh (with_writer l w)) = storage (sh w)"
  by (simp_all add: with_writer_def)

context ref_cnt
begin

lemma rw_load_ok:
  assumes "unlocked w" and "storage (sh w) a = Some p" and "live (heap (sh w)) p"
  shows "rw_load T a w = (Inr (from_ptr T p), w\<lparr>sh := (sh w)\<lparr>heap := up p (heap (sh w))\<rparr>\<rparr>)"
proof -
  have s: "solo w" using assms(1) by (simp add: unlocked_def settled_def)
  show ?thesis
    using assms s read_unlock_held[OF assms(1), of a]
    by (simp add: rw_load_def bnd_apply read_lock_free storage_load_solo inc_value_solo Let_def)
qed

lemma rw_wait_ok: "unlocked w \<Longrightarrow> rw_wait_for_readers p a w = (Inr (), w)"
proof -
  assume a: "unlocked w"
  then have s: "solo w" by (simp add: unlocked_def settled_def)
  have "write_unlock a (with_writer a w) = (Inr (), w)"
    using write_unlock_held[OF a, of "with_writer a w" a] s by (simp add: with_writer_def)
  then show ?thesis using a by (simp add: rw_wait_for_readers_def bnd_apply write_lock_free)
qed

lemma rw_compare_and_swap_ok:
  assumes "unlocked w" and "storage (sh w) a = Some p" and "live (heap (sh w)) p"
    and "valid new" and "live (heap (sh w)) (into_ptr T new)" and "by_reference current"
  shows "rw_compare_and_swap T a current new w = (Inr (from_ptr T p),
    if as_raw T current = p
    then w\<lparr>sh := (sh w)\<lparr>storage := (storage (sh w))(a \<mapsto> into_ptr T new)\<rparr>\<rparr>
    else w\<lparr>sh := (sh w)\<lparr>heap := down (into_ptr T new) (up p (heap (sh w)))\<rparr>\<rparr>)"
proof -
  have s: "solo w" using assms(1) by (simp add: unlocked_def settled_def)
  have unlock: "write_unlock a ((with_writer a w)\<lparr>sh := (sh (with_writer a w))\<lparr>heap := h\<rparr>\<rparr>) =
      (Inr (), w\<lparr>sh := (sh w)\<lparr>heap := h\<rparr>\<rparr>)"
    "write_unlock a ((with_writer a w)\<lparr>sh := (sh (with_writer a w))\<lparr>storage := st\<rparr>\<rparr>) =
      (Inr (), w\<lparr>sh := (sh w)\<lparr>storage := st\<rparr>\<rparr>)" for h st
    using s by (subst write_unlock_held[OF assms(1)]; simp add: with_writer_def)+
  have new: "from_ptr T (into_ptr T new) = new" using assms(4) by (rule from_into)
  show ?thesis
    using assms s unlock
    by (auto simp: rw_compare_and_swap_def bnd_apply write_lock_free storage_cas_solo Let_def new
        by_reference_drop inc_value_solo drop_val_solo live_up)
qed

lemma rw_strategy:
  "strategy T cnt up down valid nullable (rw_lock_Strategy T) unlocked (rw_protects T)
     (\<lambda>g. None) (\<lambda>p B. B)"
proof (unfold_locales, goal_cases)
  case (10 w a p)
  have "progress 1 w (w\<lparr>sh := (sh w)\<lparr>heap := up p (heap (sh w))\<rparr>\<rparr>)"
    using 10(1) progress_mono[OF progress_heap] by (auto simp: unlocked_def)
  then show ?case
    using rw_load_ok[OF 10(1-3)] unlocked_frame(1)[OF 10(1)] view_up[OF 10(3)]
    by (auto simp: rw_lock_Strategy_def fresh_debt_def rw_protects_def)
next
  case (11 w p g)
  then show ?case
    by (auto simp: rw_lock_Strategy_def rw_into_inner_def rw_protects_def unlocked_def intro: progress_refl)
next
  case (12 w p g)
  then have l: "live (heap (sh w)) p" by simp
  have "solo w" "settled w" using 12(1) by (auto simp: unlocked_def settled_def)
  then show ?case
    using 12 drop_val_from_ptr_solo[OF _ l] unlocked_frame(1)[OF 12(1)] view_down[OF l] progress_heap
    by (simp add: rw_lock_Strategy_def rw_protects_def)
next
  case (13 w p a)
  then show ?case
    by (auto simp: rw_lock_Strategy_def rw_wait_ok unlocked_def intro: progress_refl)
next
  case (14 w a p new current)
  let ?q = "into_ptr T new"
  let ?wp = "w\<lparr>sh := (sh w)\<lparr>storage := (storage (sh w))(a \<mapsto> ?q)\<rparr>\<rparr>"
  let ?wd = "w\<lparr>sh := (sh w)\<lparr>heap := down ?q (up p (heap (sh w)))\<rparr>\<rparr>"
  have s: "settled w" using 14(1) by (simp add: unlocked_def)
  have pr: "progress (Suc (spurious_left w)) w ?wp" "progress (Suc (spurious_left w)) w ?wd"
    using progress_mono[OF progress_storage[OF s]] progress_mono[OF progress_heap[OF s]] by auto
  have "live (up p (heap (sh w))) ?q" using 14(3,7) by (simp add: live_up)
  then have "view cnt (sh ?wd) = unref ?q (bump p 1 (view cnt (sh w)))"
    using view_down[of "(sh w)\<lparr>heap := up p (heap (sh w))\<rparr>" ?q] view_up[OF 14(3)] by simp
  then show ?case
    using rw_compare_and_swap_ok[OF 14(1-3,6-8)] unlocked_frame[OF 14(1)] pr
    by (simp add: rw_lock_Strategy_def view_storage fresh_debt_def rw_protects_def)
qed (auto simp: unlocked_def rw_lock_Strategy_def rw_from_inner_def rw_protects_def unlocked_frame[unfolded unlocked_def])

end

interpretation arc_rw: strategy arc_RefCnt strong_rc strong_up strong_down arc_valid False
  "rw_lock_Strategy arc_RefCnt" unlocked "rw_protects arc_RefCnt" "\<lambda>g. None" "\<lambda>p B. B"
  by (rule arc.rw_strategy)

interpretation option_rw: strategy "option_RefCnt arc_RefCnt" strong_rc "unless_null strong_up"
  "unless_null strong_down" "option_valid arc_valid" True
  "rw_lock_Strategy (option_RefCnt arc_RefCnt)" unlocked "rw_protects (option_RefCnt arc_RefCnt)"
  "\<lambda>g. None" "\<lambda>p B. B"
  by (rule arc.opt.rw_strategy)

end
