(* ===== verification/ArcSwapAny.thy ===== *)
theory ArcSwapAny
  imports RwLockStrategy
begin

text \<open>
  The storage itself, \<^verbatim>\<open>src/lib.rs\<close>: guards, constructors, destructor, \<open>load\<close>, \<open>store\<close>,
  \<open>swap\<close>, \<open>compare_and_swap\<close>, \<open>rcu\<close>. An \<open>ArcSwapAny\<close> is named by the address \<open>a\<close> of its
  \<open>AtomicPtr\<close>; its strategy is the dictionary \<open>S\<close>. Client code that the crate calls (the closure
  of \<open>rcu\<close>, \<open>Default\<close> and formatting of the pointer type) is an argument.
\<close>

section \<open>Guards\<close>

definition guard_into_inner :: "('t, 'v, 'p) Strategy \<Rightarrow> 'p Guard \<Rightarrow> ('v, 't) prog" where
  "guard_into_inner S lease = s_into_inner S (inner lease)"

definition guard_from_inner :: "('t, 'v, 'p) Strategy \<Rightarrow> 't \<Rightarrow> 'p Guard" where
  "guard_from_inner S x = \<lparr>inner = s_from_inner S x\<rparr>"

definition guard_deref :: "('t, 'v, 'p) Strategy \<Rightarrow> 'p Guard \<Rightarrow> 't" where
  "guard_deref S g = s_borrow S (inner g)"

definition guard_from :: "('t, 'v, 'p) Strategy \<Rightarrow> 't \<Rightarrow> 'p Guard" where
  "guard_from S x = guard_from_inner S x"

definition guard_default :: "('t, 'v, 'p) Strategy \<Rightarrow> ('v, 't) prog \<Rightarrow> ('v, 'p Guard) prog" where
  "guard_default S dflt = bnd dflt (\<lambda>x. ret (guard_from S x))"

definition guard_drop :: "('t, 'v, 'p) Strategy \<Rightarrow> 'p Guard \<Rightarrow> ('v, unit) prog" where
  "guard_drop S g = s_drop S (inner g)"

definition guard_fmt :: "('t, 'v, 'p) Strategy \<Rightarrow> ('t \<Rightarrow> ('v, string) prog) \<Rightarrow> 'p Guard \<Rightarrow> ('v, string) prog" where
  "guard_fmt S fmt g = fmt (guard_deref S g)"

definition ptr_eq :: "('t, 'v) RefCnt \<Rightarrow> 't AsRaw \<Rightarrow> 't AsRaw \<Rightarrow> bool" where
  "ptr_eq T x y = (let x = as_raw T x; y = as_raw T y in x = y)"

section \<open>Storages\<close>

text \<open>Placing an \<open>AtomicPtr\<close> at a free address, and taking one out of memory again.\<close>

definition place_storage :: "usize \<Rightarrow> usize \<Rightarrow> ('v, usize) prog" where
  "place_storage a p =
     atomic (\<lambda>s. case storage s a of Some _ \<Rightarrow> Inl OutOfMemory
       | None \<Rightarrow> Inr (a, s\<lparr>storage := (storage s)(a \<mapsto> p)\<rparr>))"

definition remove_storage :: "usize \<Rightarrow> ('v, unit) prog" where
  "remove_storage a =
     atomic (\<lambda>s. case storage s a of None \<Rightarrow> Inl Dangling
       | Some _ \<Rightarrow> Inr ((), s\<lparr>storage := (storage s)(a := None)\<rparr>))"

definition with_strategy :: "('t, 'v) RefCnt \<Rightarrow> usize \<Rightarrow> 't \<Rightarrow> ('v, usize) prog" where
  "with_strategy T a val = (let ptr = into_ptr T val in place_storage a ptr)"

definition any_from :: "('t, 'v) RefCnt \<Rightarrow> usize \<Rightarrow> 't \<Rightarrow> ('v, usize) prog" where
  "any_from T a val = with_strategy T a val"

definition any_new :: "('t, 'v) RefCnt \<Rightarrow> usize \<Rightarrow> 't \<Rightarrow> ('v, usize) prog" where
  "any_new T a val = any_from T a val"

definition any_default :: "('t, 'v) RefCnt \<Rightarrow> usize \<Rightarrow> ('v, 't) prog \<Rightarrow> ('v, usize) prog" where
  "any_default T a dflt = bnd dflt (any_new T a)"

definition any_drop :: "('t, 'v) RefCnt \<Rightarrow> ('t, 'v, 'p) Strategy \<Rightarrow> usize \<Rightarrow> ('v, unit) prog" where
  "any_drop T S a =
     bnd (storage_load a) (\<lambda>ptr.
     bnd (s_wait_for_readers S ptr a) (\<lambda>_.
     bnd (dec_ptr T ptr) (\<lambda>_.
     remove_storage a)))"

definition any_into_inner :: "('t, 'v) RefCnt \<Rightarrow> ('t, 'v, 'p) Strategy \<Rightarrow> usize \<Rightarrow> ('v, 't) prog" where
  "any_into_inner T S a =
     bnd (storage_load a) (\<lambda>ptr.
     bnd (s_wait_for_readers S ptr a) (\<lambda>_.
     bnd (remove_storage a) (\<lambda>_.
     ret (from_ptr T ptr))))"

definition any_load :: "('t, 'v, 'p) Strategy \<Rightarrow> usize \<Rightarrow> ('v, 'p Guard) prog" where
  "any_load S a = bnd (s_load S a) (\<lambda>protected. ret \<lparr>inner = protected\<rparr>)"

definition load_full :: "('t, 'v, 'p) Strategy \<Rightarrow> usize \<Rightarrow> ('v, 't) prog" where
  "load_full S a = bnd (any_load S a) (guard_into_inner S)"

definition any_swap :: "('t, 'v) RefCnt \<Rightarrow> ('t, 'v, 'p) Strategy \<Rightarrow> usize \<Rightarrow> 't \<Rightarrow> ('v, 't) prog" where
  "any_swap T S a new =
     (let new = into_ptr T new in
      bnd (storage_swap a new) (\<lambda>old.
      bnd (s_wait_for_readers S old a) (\<lambda>_.
      ret (from_ptr T old))))"

definition any_store :: "('t, 'v) RefCnt \<Rightarrow> ('t, 'v, 'p) Strategy \<Rightarrow> usize \<Rightarrow> 't \<Rightarrow> ('v, unit) prog" where
  "any_store T S a val = bnd (any_swap T S a val) (drop_val T)"

definition any_compare_and_swap :: "('t, 'v, 'p) Strategy \<Rightarrow> usize \<Rightarrow> 't AsRaw \<Rightarrow> 't \<Rightarrow> ('v, 'p Guard) prog" where
  "any_compare_and_swap S a current new =
     bnd (s_compare_and_swap S a current new) (\<lambda>protected. ret \<lparr>inner = protected\<rparr>)"

text \<open>
  The loop of \<open>rcu\<close>. Assigning \<open>prev\<close> to \<open>cur\<close> drops the old \<open>cur\<close>; returning drops it after
  \<open>prev\<close> became the result.
\<close>

fun rcu_loop :: "nat \<Rightarrow> ('t, 'v) RefCnt \<Rightarrow> ('t, 'v, 'p) Strategy \<Rightarrow> usize \<Rightarrow> ('t \<Rightarrow> ('v, 't) prog) \<Rightarrow> 'p Guard \<Rightarrow> ('v, 't) prog" where
  "rcu_loop 0 T S a f cur = raise OutOfFuel"
| "rcu_loop (Suc k) T S a f cur =
     bnd (f (guard_deref S cur)) (\<lambda>new.
     bnd (any_compare_and_swap S a (RawOfRef (guard_deref S cur)) new) (\<lambda>prev.
     let swapped = ptr_eq T (RawOfRef (guard_deref S cur)) (RawOfRef (guard_deref S prev)) in
     if swapped then
       bnd (guard_into_inner S prev) (\<lambda>result.
       bnd (guard_drop S cur) (\<lambda>_.
       ret result))
     else
       bnd (guard_drop S cur) (\<lambda>_.
       rcu_loop k T S a f prev)))"

definition rcu :: "('t, 'v) RefCnt \<Rightarrow> ('t, 'v, 'p) Strategy \<Rightarrow> usize \<Rightarrow> ('t \<Rightarrow> ('v, 't) prog) \<Rightarrow> ('v, 't) prog" where
  "rcu T S a f =
     bnd (any_load S a) (\<lambda>cur.
     bnd get_fuel (\<lambda>k.
     rcu_loop k T S a f cur))"

definition any_debug_fmt :: "('t, 'v, 'p) Strategy \<Rightarrow> ('t \<Rightarrow> ('v, string) prog) \<Rightarrow> usize \<Rightarrow> ('v, string) prog" where
  "any_debug_fmt S fmt a =
     bnd (any_load S a) (\<lambda>g.
     bnd (guard_fmt S fmt g) (\<lambda>out.
     bnd (guard_drop S g) (\<lambda>_.
     ret (''ArcSwapAny('' @ out @ '')''))))"

definition any_display_fmt :: "('t, 'v, 'p) Strategy \<Rightarrow> ('t \<Rightarrow> ('v, string) prog) \<Rightarrow> usize \<Rightarrow> ('v, string) prog" where
  "any_display_fmt S fmt a =
     bnd (any_load S a) (\<lambda>g.
     bnd (guard_fmt S fmt g) (\<lambda>out.
     bnd (guard_drop S g) (\<lambda>_.
     ret out)))"

text \<open>\<open>ArcSwap\<close> and \<open>ArcSwapOption\<close>.\<close>

definition from_pointee :: "usize \<Rightarrow> 'v \<Rightarrow> ('v, usize) prog" where
  "from_pointee a val = bnd (arc_new val) (any_from arc_RefCnt a)"

definition option_from_pointee :: "usize \<Rightarrow> 'v option \<Rightarrow> ('v, usize) prog" where
  "option_from_pointee a val =
     (case val of
        None \<Rightarrow> any_new (option_RefCnt arc_RefCnt) a None
      | Some v \<Rightarrow> bnd (arc_new v) (\<lambda>x. any_new (option_RefCnt arc_RefCnt) a (Some x)))"

definition option_empty :: "usize \<Rightarrow> ('v, usize) prog" where
  "option_empty a = any_new (option_RefCnt arc_RefCnt) a None"

definition const_empty :: "usize \<Rightarrow> ('v, usize) prog" where
  "const_empty a = place_storage a 0"

section \<open>The operations against the contract\<close>

text \<open>The storage at \<open>a\<close> holds a live pointer \<open>p\<close>.\<close>

definition holds_ptr :: "bool \<Rightarrow> ('v heap \<Rightarrow> usize \<Rightarrow> nat) \<Rightarrow> usize \<Rightarrow> usize \<Rightarrow> 'v world \<Rightarrow> bool" where
  "holds_ptr nullable cnt a p w \<longleftrightarrow>
     storage (sh w) a = Some p \<and> live_ptr nullable cnt (heap (sh w)) p \<and> p \<noteq> NONE"

definition take_out :: "usize \<Rightarrow> 'v books \<Rightarrow> 'v books" where
  "take_out a B = B\<lparr>cells := (cells B)(a := None)\<rparr>"

lemma view_take_out: "view cnt (s\<lparr>storage := (storage s)(a := None)\<rparr>) = take_out a (view cnt s)"
  by (simp add: view_def take_out_def)

lemma remove_storage_solo:
  "solo w \<Longrightarrow> storage (sh w) a = Some p \<Longrightarrow>
   remove_storage a w = (Inr (), w\<lparr>sh := (sh w)\<lparr>storage := (storage (sh w))(a := None)\<rparr>\<rparr>)"
  by (simp add: remove_storage_def atomic_solo)

lemma redeemed_acquired: "fresh_debt B x \<Longrightarrow> redeemed p x (acquired p x B) = bump p 1 B"
proof (cases x)
  case (Some d)
  assume "fresh_debt B x"
  then have "insert (d, p) (owed B) - {(d, p)} = owed B" using Some by (auto simp: fresh_debt_def)
  then show ?thesis using Some by (simp add: bump_def)
qed simp

context strategy
begin

abbreviation holds :: "usize \<Rightarrow> usize \<Rightarrow> 'v world \<Rightarrow> bool" where
  "holds a p w \<equiv> ok w \<and> holds_ptr nullable cnt a p w"

lemma any_load_ok:
  assumes "holds a p w" and "0 < gens_left w"
  obtains g w' where "any_load S a w = (Inr g, w')" and "progress 1 w w'" and "holds a p w'"
    and "prot (sh w') p (inner g)" and "fresh_debt (view cnt (sh w)) (debt_of (inner g))"
    and "view cnt (sh w') = acquired p (debt_of (inner g)) (view cnt (sh w))"
proof -
  obtain g w' where g: "s_load S a w = (Inr g, w')" "progress 1 w w'" "ok w'" "prot (sh w') p g"
      "fresh_debt (view cnt (sh w)) (debt_of g)"
    and v: "view cnt (sh w') = acquired p (debt_of g) (view cnt (sh w))"
    using load_law[of w a p] assms by (auto simp: holds_ptr_def)
  have "storage (sh w') a = Some p"
    using assms(1) arg_cong[OF v, of cells] by (cases "debt_of g") (auto simp: bump_def holds_ptr_def)
  moreover have "live (heap (sh w')) p" using assms(1) acquired_live[OF _ v] by (simp add: holds_ptr_def)
  ultimately show ?thesis
    using that[of "\<lparr>inner = g\<rparr>" w'] g v assms(1) by (simp add: any_load_def bnd_apply holds_ptr_def)
qed

text \<open>A load whose guard is dropped again leaves the books as they were.\<close>

lemma load_drop_ok:
  assumes "holds a p w" and "0 < gens_left w"
  obtains g w1 w' where "any_load S a w = (Inr g, w1)" and "holds a p w1" and "guard_deref S g = from_ptr T p"
    and "vals (view cnt (sh w1)) = vals (view cnt (sh w))" and "guard_drop S g w1 = (Inr (), w')"
    and "progress 1 w w'" and "holds a p w'" and "view cnt (sh w') = view cnt (sh w)"
proof -
  obtain g w1 where g: "any_load S a w = (Inr g, w1)" "progress 1 w w1" "holds a p w1" "prot (sh w1) p (inner g)"
      "fresh_debt (view cnt (sh w)) (debt_of (inner g))"
      "view cnt (sh w1) = acquired p (debt_of (inner g)) (view cnt (sh w))"
    using any_load_ok[OF assms] .
  have np: "p \<noteq> NONE" "live (heap (sh w1)) p" "p = 0 \<or> 0 < counts (view cnt (sh w)) p"
    using assms(1) g(3) unfolding holds_ptr_def live_view by auto
  obtain w' where d: "s_drop S (inner g) w1 = (Inr (), w')" "progress 0 w1 w'" "ok w'"
      "view cnt (sh w') = released p (debt_of (inner g)) (view cnt (sh w1))"
    using drop_law[of w1 p "inner g"] g np live_not_null by auto
  have v: "view cnt (sh w') = view cnt (sh w)"
    unfolding d(4) g(6) by (rule released_acquired[OF g(5) np(3)])
  have "guard_deref S g = from_ptr T p" using prot_borrow[OF g(4)] by (simp add: guard_deref_def)
  moreover have "progress (1 + 0) w w'" by (rule progress_trans[OF g(2) d(2)])
  moreover have "holds a p w'"
    using assms(1) d(3) arg_cong[OF v, of cells] arg_cong[OF v, of counts]
    by (simp add: holds_ptr_def live_ptr_def)
  moreover have "vals (view cnt (sh w1)) = vals (view cnt (sh w))" by (simp add: g(6))
  ultimately show ?thesis using that[OF g(1,3)] d(1) v by (simp add: guard_drop_def)
qed

lemma load_full_ok:
  assumes "holds a p w" and "0 < gens_left w"
  obtains w' where "load_full S a w = (Inr (from_ptr T p), w')" and "progress 1 w w'" and "ok w'"
    and "view cnt (sh w') = bump p 1 (view cnt (sh w))"
proof -
  obtain g w1 where g: "any_load S a w = (Inr g, w1)" "progress 1 w w1" "holds a p w1"
      "prot (sh w1) p (inner g)" "fresh_debt (view cnt (sh w)) (debt_of (inner g))"
    and v: "view cnt (sh w1) = acquired p (debt_of (inner g)) (view cnt (sh w))"
    using any_load_ok[OF assms] .
  obtain w' where i: "s_into_inner S (inner g) w1 = (Inr (from_ptr T p), w')" "progress 0 w1 w'" "ok w'"
      "view cnt (sh w') = redeemed p (debt_of (inner g)) (view cnt (sh w1))"
    using into_inner_law[of w1 p "inner g"] g by (auto simp: holds_ptr_def)
  have "progress (1 + 0) w w'" by (rule progress_trans[OF g(2) i(2)])
  moreover have "view cnt (sh w') = bump p 1 (view cnt (sh w))"
    unfolding i(4) v by (rule redeemed_acquired[OF g(5)])
  ultimately show ?thesis
    using that[of w'] g(1) i by (simp add: load_full_def bnd_apply guard_into_inner_def)
qed

lemma any_swap_ok:
  assumes "holds a p w"
  obtains w' where "any_swap T S a new w = (Inr (from_ptr T p), w')" and "progress 0 w w'" and "ok w'"
    and "view cnt (sh w') = settle p (put a (into_ptr T new) (view cnt (sh w)))"
proof -
  let ?w = "w\<lparr>sh := (sh w)\<lparr>storage := (storage (sh w))(a \<mapsto> into_ptr T new)\<rparr>\<rparr>"
  have ok: "ok ?w" using assms ok_storage by blast
  have p1: "progress 0 w ?w" using assms ok_settled progress_storage by blast
  obtain w' where w': "s_wait_for_readers S p a ?w = (Inr (), w')" "progress 0 ?w w'" "ok w'"
      "view cnt (sh w') = settle p (view cnt (sh ?w))"
    using wait_law[OF ok, of p a] assms by (auto simp: holds_ptr_def)
  have "solo w" "storage (sh w) a = Some p"
    using assms ok_settled by (auto simp: settled_def holds_ptr_def)
  then show ?thesis
    using that[of w'] w' progress_trans[OF p1 w'(2)]
    by (simp add: any_swap_def bnd_apply storage_swap_solo Let_def view_storage)
qed

lemma settle_live: "live (heap s) q \<Longrightarrow> view cnt s' = settle p (put a r (view cnt s)) \<Longrightarrow> live (heap s') q"
  using settle_counts[of "put a r (view cnt s)" q p] unfolding live_view by (auto simp: put_def)

lemma any_store_ok:
  assumes "holds a p w"
  obtains w' where "any_store T S a new w = (Inr (), w')" and "progress 0 w w'" and "ok w'"
    and "view cnt (sh w') = unref p (settle p (put a (into_ptr T new) (view cnt (sh w))))"
proof -
  obtain w1 where w1: "any_swap T S a new w = (Inr (from_ptr T p), w1)" "progress 0 w w1" "ok w1"
      "view cnt (sh w1) = settle p (put a (into_ptr T new) (view cnt (sh w)))"
    using any_swap_ok[OF assms] .
  have l: "live (heap (sh w1)) p" using assms w1(4) settle_live by (auto simp: holds_ptr_def)
  let ?w' = "w1\<lparr>sh := (sh w1)\<lparr>heap := down p (heap (sh w1))\<rparr>\<rparr>"
  have "settled w1" using w1(3) by (rule ok_settled)
  then have "progress (0 + 0) w ?w'" by (intro progress_trans[OF w1(2)] progress_heap)
  moreover have "drop_val T (from_ptr T p) w1 = (Inr (), ?w')"
    using \<open>settled w1\<close> l by (simp add: drop_val_from_ptr_solo settled_def)
  ultimately show ?thesis
    using that[of ?w'] w1 ok_heap[OF w1(3)] view_down[OF l] by (simp add: any_store_def bnd_apply)
qed

text \<open>Taking the storage apart pays all the debts on its pointer first; the destructor also gives up
  the reference of the storage.\<close>

lemma wait_here:
  assumes "holds a p w"
  obtains w' where "s_wait_for_readers S p a w = (Inr (), w')" and "progress 0 w w'" and "holds a p w'"
    and "view cnt (sh w') = settle p (view cnt (sh w))"
proof -
  obtain w' where w': "s_wait_for_readers S p a w = (Inr (), w')" "progress 0 w w'" "ok w'"
      "view cnt (sh w') = settle p (view cnt (sh w))"
    using wait_law[of w p a] assms by (auto simp: holds_ptr_def)
  have "storage (sh w') a = Some p"
    using assms arg_cong[OF w'(4), of cells] settle_cells[of p "view cnt (sh w)"] by (simp add: holds_ptr_def)
  moreover have "live (heap (sh w')) p"
    using assms w'(4) settle_counts[of "view cnt (sh w)" p p] unfolding holds_ptr_def live_view by auto
  ultimately show ?thesis using that w' assms by (simp add: holds_ptr_def)
qed

lemma any_into_inner_ok:
  assumes "holds a p w"
  obtains w' where "any_into_inner T S a w = (Inr (from_ptr T p), w')" and "progress 0 w w'" and "ok w'"
    and "view cnt (sh w') = take_out a (settle p (view cnt (sh w)))"
proof -
  obtain w1 where w1: "s_wait_for_readers S p a w = (Inr (), w1)" "progress 0 w w1" "holds a p w1"
      "view cnt (sh w1) = settle p (view cnt (sh w))"
    using wait_here[OF assms] .
  let ?w' = "w1\<lparr>sh := (sh w1)\<lparr>storage := (storage (sh w1))(a := None)\<rparr>\<rparr>"
  have s: "settled w" "settled w1" using assms w1(3) ok_settled by auto
  then have so: "solo w" "solo w1" by (auto simp: settled_def)
  have "progress (0 + 0) w ?w'" using s by (intro progress_trans[OF w1(2)] progress_storage)
  then show ?thesis
    using that[of ?w'] w1 assms so ok_storage
    by (simp add: any_into_inner_def bnd_apply storage_load_solo holds_ptr_def remove_storage_solo view_take_out)
qed

lemma any_drop_ok:
  assumes "holds a p w"
  obtains w' where "any_drop T S a w = (Inr (), w')" and "progress 0 w w'" and "ok w'"
    and "view cnt (sh w') = take_out a (unref p (settle p (view cnt (sh w))))"
proof -
  obtain w1 where w1: "s_wait_for_readers S p a w = (Inr (), w1)" "progress 0 w w1" "holds a p w1"
      "view cnt (sh w1) = settle p (view cnt (sh w))"
    using wait_here[OF assms] .
  have l: "live (heap (sh w1)) p" using w1(3) by (simp add: holds_ptr_def)
  let ?w2 = "w1\<lparr>sh := (sh w1)\<lparr>heap := down p (heap (sh w1))\<rparr>\<rparr>"
  let ?w' = "?w2\<lparr>sh := (sh ?w2)\<lparr>storage := (storage (sh ?w2))(a := None)\<rparr>\<rparr>"
  have ok: "ok ?w2" using w1(3) ok_heap by blast
  have s: "settled w" "settled w1" "settled ?w2" using assms w1(3) ok ok_settled by auto
  then have so: "solo w" "solo w1" by (auto simp: settled_def)
  have "progress (0 + (0 + 0)) w ?w'"
    using s by (intro progress_trans[OF w1(2)] progress_trans[OF progress_heap progress_storage])
  moreover have "any_drop T S a w = (Inr (), ?w')"
    using w1 assms so l
    by (simp add: any_drop_def bnd_apply storage_load_solo holds_ptr_def dec_ptr_solo remove_storage_solo)
  moreover have "view cnt (sh ?w') = take_out a (unref p (settle p (view cnt (sh w))))"
    using view_take_out[of cnt "sh ?w2" a] view_down[OF l] w1(4) by simp
  ultimately show ?thesis using that[of ?w'] ok_storage[OF ok] by simp
qed

lemma any_compare_and_swap_ok:
  assumes "holds a p w" and "spurious_left w < gens_left w" and "valid new"
    and "live (heap (sh w)) (into_ptr T new)" and "by_reference current"
  obtains old w' where "any_compare_and_swap S a current new w = (Inr old, w')"
    and "progress (Suc (spurious_left w)) w w'" and "ok w'" and "prot (sh w') p (inner old)"
    and "if as_raw T current = p
         then view cnt (sh w') = settle p (put a (into_ptr T new) (view cnt (sh w)))
         else fresh_debt (view cnt (sh w)) (debt_of (inner old)) \<and>
              view cnt (sh w') = unref (into_ptr T new) (acquired p (debt_of (inner old)) (view cnt (sh w)))"
proof -
  obtain old w' where r: "s_compare_and_swap S a current new w = (Inr old, w')"
      "progress (Suc (spurious_left w)) w w'" "ok w'" "prot (sh w') p old"
      "if as_raw T current = p
         then view cnt (sh w') = settle p (put a (into_ptr T new) (view cnt (sh w)))
         else fresh_debt (view cnt (sh w)) (debt_of old) \<and>
              view cnt (sh w') = unref (into_ptr T new) (acquired p (debt_of old) (view cnt (sh w)))"
    using cas_law[of w a p new current] assms unfolding holds_ptr_def by blast
  have "any_compare_and_swap S a current new w = (Inr \<lparr>inner = old\<rparr>, w')"
    using r(1) by (simp add: any_compare_and_swap_def bnd_apply)
  then show ?thesis by (rule that) (use r in auto)
qed

text \<open>
  \<open>rcu\<close> on its own: the closure is called once, on the value in the storage; its result replaces that
  value, which is returned.
\<close>

lemma rcu_finish:
  assumes "ok w" and "prot (sh w) p prev" and "prot (sh w) p cur" and "live (heap (sh w)) p" and "p \<noteq> NONE"
  obtains w' where "bnd (s_into_inner S prev) (\<lambda>result. bnd (s_drop S cur) (\<lambda>_. ret result)) w = (Inr (from_ptr T p), w')"
    and "progress 0 w w'" and "ok w'" and "cells (view cnt (sh w')) = cells (view cnt (sh w))"
    and "\<And>q. q \<noteq> 0 \<Longrightarrow> total (view cnt (sh w')) q = total (view cnt (sh w)) q - (if q = p then 1 else 0)"
proof -
  obtain w1 where w1: "s_into_inner S prev w = (Inr (from_ptr T p), w1)" "progress 0 w w1" "ok w1"
      "view cnt (sh w1) = redeemed p (debt_of prev) (view cnt (sh w))"
    using into_inner_law[OF assms(1,2,4,5)] by auto
  have l1: "live (heap (sh w1)) p"
    using assms(4) w1(4) redeemed_counts[of "view cnt (sh w)" p p "debt_of prev"] unfolding live_view by auto
  have g1: "prot (sh w1) p cur" using assms(3) w1(2) by (rule prot_progress)
  obtain w2 where w2: "s_drop S cur w1 = (Inr (), w2)" "progress 0 w1 w2" "ok w2"
      "view cnt (sh w2) = released p (debt_of cur) (view cnt (sh w1))"
    using drop_law[OF w1(3) g1 assms(5) live_not_null[OF l1]] l1 by auto
  have fin: "finite (debts_on (view cnt (sh w)) p)" "finite (debts_on (view cnt (sh w1)) p)"
    using settled_finite_debts ok_settled assms(1,5) w1(3) by auto
  have "p = 0 \<or> 0 < counts (view cnt (sh w1)) p" using l1 unfolding live_view by auto
  then have "total (view cnt (sh w2)) q = total (view cnt (sh w)) q - (if q = p then 1 else 0)" if "q \<noteq> 0" for q
    using that total_released[OF fin(2), of "debt_of cur" q] total_redeemed[OF fin(1) that, of "debt_of prev"]
    unfolding w2(4) w1(4) by auto
  moreover have "progress (0 + 0) w w2" by (rule progress_trans[OF w1(2) w2(2)])
  moreover have "cells (view cnt (sh w2)) = cells (view cnt (sh w))" unfolding w2(4) w1(4) books_frame ..
  moreover have "bnd (s_into_inner S prev) (\<lambda>result. bnd (s_drop S cur) (\<lambda>_. ret result)) w = (Inr (from_ptr T p), w2)"
    using w1(1) w2(1) by (simp add: bnd_apply)
  ultimately show ?thesis using that[of w2] w2(3) by simp
qed

lemma rcu_ok:
  assumes "holds a p w" and "0 < gens_left w"
    and "\<forall>g w1. any_load S a w = (Inr g, w1) \<longrightarrow>
          f (from_ptr T p) w1 = (Inr (new w1), upd w1) \<and> progress 0 w1 (upd w1) \<and> holds a p (upd w1) \<and>
          spurious_left (upd w1) < gens_left (upd w1) \<and> valid (new w1) \<and>
          live (heap (sh (upd w1))) (into_ptr T (new w1))"
  obtains g w1 w' where "any_load S a w = (Inr g, w1)" and "rcu T S a f w = (Inr (from_ptr T p), w')" and "ok w'"
    and "cells (view cnt (sh w')) = (cells (view cnt (sh (upd w1))))(a \<mapsto> into_ptr T (new w1))"
    and "\<And>q. q \<noteq> 0 \<Longrightarrow> total (view cnt (sh w')) q = total (view cnt (sh (upd w1))) q - (if q = p then 1 else 0)"
proof -
  obtain g w1 where g: "any_load S a w = (Inr g, w1)" "progress 1 w w1" "holds a p w1" "prot (sh w1) p (inner g)"
    using any_load_ok[OF assms(1,2)] .
  let ?w2 = "upd w1" and ?n = "new w1"
  have f: "f (from_ptr T p) w1 = (Inr ?n, ?w2)" "progress 0 w1 ?w2" "holds a p ?w2"
      "spurious_left ?w2 < gens_left ?w2" "valid ?n" "live (heap (sh ?w2)) (into_ptr T ?n)"
    using assms(3) g(1) by auto
  have nn: "p \<noteq> 0 \<or> nullable" using f(3) live_not_null by (auto simp: holds_ptr_def)
  have cur: "guard_deref S g = from_ptr T p" using prot_borrow[OF g(4)] by (simp add: guard_deref_def)
  have raw: "as_raw T (RawOfRef (from_ptr T p)) = p" using nn by (simp add: as_ptr_eq into_from)
  have br: "by_reference (RawOfRef (from_ptr T p))" by simp
  obtain prev w3 where c: "any_compare_and_swap S a (RawOfRef (from_ptr T p)) ?n ?w2 = (Inr prev, w3)"
      "progress (Suc (spurious_left ?w2)) ?w2 w3" "ok w3" "prot (sh w3) p (inner prev)"
      "view cnt (sh w3) = settle p (put a (into_ptr T ?n) (view cnt (sh ?w2)))"
    using any_compare_and_swap_ok[OF f(3-6) br] raw by auto
  have deref: "guard_deref S prev = from_ptr T p" using prot_borrow[OF c(4)] by (simp add: guard_deref_def)
  have l3: "live (heap (sh w3)) p" using f(3) c(5) settle_live by (auto simp: holds_ptr_def)
  have pcur: "prot (sh w3) p (inner g)" using prot_progress[OF prot_progress[OF g(4) f(2)] c(2)] .
  have np: "p \<noteq> NONE" using assms(1) by (simp add: holds_ptr_def)
  obtain w' where w': "bnd (s_into_inner S (inner prev)) (\<lambda>result. bnd (s_drop S (inner g)) (\<lambda>_. ret result)) w3 =
        (Inr (from_ptr T p), w')"
      "ok w'" "cells (view cnt (sh w')) = cells (view cnt (sh w3))"
      "\<And>q. q \<noteq> 0 \<Longrightarrow> total (view cnt (sh w')) q = total (view cnt (sh w3)) q - (if q = p then 1 else 0)"
    using rcu_finish[OF c(3,4) pcur l3 np] by metis
  have "settled w1" using g(3) ok_settled by blast
  then obtain k where k: "fuel w1 = Suc k" by (cases "fuel w1") (auto simp: settled_def)
  have "rcu_loop (Suc k) T S a f g w1 = (Inr (from_ptr T p), w')"
    using f(1) c(1) w'(1) by (simp add: bnd_apply cur deref ptr_eq_def guard_into_inner_def guard_drop_def)
  then have "rcu T S a f w = (Inr (from_ptr T p), w')"
    using g(1) k by (simp add: rcu_def bnd_apply loc_exec)
  moreover have "cells (view cnt (sh w')) = (cells (view cnt (sh ?w2)))(a \<mapsto> into_ptr T ?n)"
    unfolding w'(3) c(5) settle_cells by (simp add: put_def)
  moreover have "total (view cnt (sh w')) q = total (view cnt (sh ?w2)) q - (if q = p then 1 else 0)" if "q \<noteq> 0" for q
    using w'(4)[OF that] settle_total[OF that, of p "put a (into_ptr T ?n) (view cnt (sh ?w2))"]
    unfolding c(5) by (simp add: total_def put_def debts_on_def)
  ultimately show ?thesis using that[OF g(1)] w'(2) by blast
qed

end

end
