(* ===== verification/Steps.thy ===== *)
theory Steps
  imports ArcSwapAny
begin

unbundle bit_operations_syntax

text \<open>
  The programs of the hybrid strategy cut into single atomic accesses. A program counter of a load,
  of the helping loop, of \<open>pay_all\<close> says which access comes next and what the thread remembers;
  \<open>load_atom\<close>, \<open>help_atom\<close>, \<open>pay_atom\<close> perform that one access and give the next counter, and
  \<open>load_rest\<close>, \<open>help_rest\<close>, \<open>pay_rest\<close> are the programs that remain. The lemmas of this theory say
  that what remains is always the next access followed by what remains after it, so a thread that is
  interleaved with others at every access runs exactly the modelled programs.
\<close>

section \<open>Loading\<close>

text \<open>
  The counters of \<open>HybridProtection::attempt\<close> (\<open>Ld\<close>) and \<open>HybridProtection::fallback\<close> (\<open>Fb\<close>).
  \<open>LdDone p d\<close> is the result: the pointer and the debt it may owe.
\<close>

datatype lpc =
    LdPtr
  | LdNode usize
  | LdScan usize usize usize nat "nat list"
  | LdSwap usize usize nat
  | LdConf usize Debt
  | LdBack usize Debt
  | FbNode
  | FbAddr usize
  | FbCtl usize usize bool
  | FbWrap usize usize
  | FbCand usize
  | FbConf usize usize
  | FbSlot usize usize usize
  | FbIdle usize usize usize
  | FbInc usize usize
  | FbPay usize usize
  | FbDec usize
  | FbEnv usize usize usize
  | FbOffer usize usize usize usize
  | FbCancel usize usize usize
  | FbCancelDec usize usize
  | LdDone usize "Debt option"

definition slot_index :: "usize \<Rightarrow> nat \<Rightarrow> nat" where
  "slot_index off i = unat ((of_nat i + off) mod of_nat DEBT_SLOT_CNT)"

fun scan_next :: "usize \<Rightarrow> usize \<Rightarrow> usize \<Rightarrow> nat list \<Rightarrow> lpc" where
  "scan_next n p off [] = FbNode"
| "scan_next n p off (i # is) = LdScan n p off i is"

lemma scan_next_later [simp]: "scan_next n p off is \<noteq> LdPtr"
  by (cases "is") simp_all

text \<open>The position whose access announces a load, which is where the generation counter goes up.\<close>

fun announces :: "lpc \<Rightarrow> bool" where
  "announces (FbAddr n) \<longleftrightarrow> True"
| "announces _ \<longleftrightarrow> False"

fun load_atom :: "('t, 'v) RefCnt \<Rightarrow> usize \<Rightarrow> lpc \<Rightarrow> ('v, lpc) prog" where
  "load_atom T a LdPtr = bnd (storage_load a) (\<lambda>p. ret (LdNode p))"
| "load_atom T a (LdNode p) =
     bnd local_node (\<lambda>n. bnd get_loc (\<lambda>l. ret (scan_next n p (offset l) [0..<DEBT_SLOT_CNT])))"
| "load_atom T a (LdScan n p off i is) =
     bnd (slot_load (FastDebt n (slot_index off i))) (\<lambda>v.
     ret (if v = NONE then LdSwap n p (slot_index off i) else scan_next n p off is))"
| "load_atom T a (LdSwap n p j) =
     bnd (slot_swap (FastDebt n j) p) (\<lambda>old.
     bnd (debug_assert (NONE = old)) (\<lambda>_.
     bnd (modify_loc (\<lambda>l. l\<lparr>offset := of_nat j + 1\<rparr>)) (\<lambda>_.
     ret (LdConf p (FastDebt n j)))))"
| "load_atom T a (LdConf p d) =
     bnd (storage_load a) (\<lambda>confirm. ret (if p = confirm then LdDone confirm (Some d) else LdBack p d))"
| "load_atom T a (LdBack p d) = bnd (pay d p) (\<lambda>paid. ret (if paid then FbNode else LdDone p None))"
| "load_atom T a FbNode = bnd local_node (\<lambda>n. ret (FbAddr n))"
| "load_atom T a (FbAddr n) =
     bnd get_loc (\<lambda>l.
     let gen = generation l + 4 in
     bnd (debug_assert (gen AND GEN_TAG = 0)) (\<lambda>_.
     bnd (modify_loc (\<lambda>l. l\<lparr>generation := gen\<rparr>)) (\<lambda>_.
     bnd (active_addr_store n a) (\<lambda>_.
     ret (FbCtl n (gen OR GEN_TAG) (gen = 0))))))"
| "load_atom T a (FbCtl n g discard) =
     bnd (control_swap n g) (\<lambda>prev.
     bnd (debug_assert (IDLE = prev)) (\<lambda>_.
     ret (if discard then FbWrap n g else FbCand g)))"
| "load_atom T a (FbWrap n g) =
     bnd (start_cooldown n) (\<lambda>_. bnd (modify_loc (\<lambda>l. l\<lparr>node := None\<rparr>)) (\<lambda>_. ret (FbCand g)))"
| "load_atom T a (FbCand g) = bnd (storage_load a) (\<lambda>p. ret (FbConf g p))"
| "load_atom T a (FbConf g p) = bnd local_node (\<lambda>n. ret (FbSlot n g p))"
| "load_atom T a (FbSlot n g p) =
     bnd (slot_swap (HelpingDebt n) p) (\<lambda>prev.
     bnd (debug_assert (NONE = prev)) (\<lambda>_.
     ret (FbIdle n g p)))"
| "load_atom T a (FbIdle n g p) =
     bnd (control_swap n IDLE) (\<lambda>ctl.
     if ctl = g then ret (FbInc n p)
     else bnd (debug_assert (ctl AND TAG_MASK = REPLACEMENT_TAG)) (\<lambda>_.
       ret (FbEnv n p (ctl AND NOT TAG_MASK))))"
| "load_atom T a (FbInc n p) = bnd (inc_value T (from_ptr T p)) (\<lambda>_. ret (FbPay n p))"
| "load_atom T a (FbPay n p) =
     bnd (pay (HelpingDebt n) p) (\<lambda>paid. ret (if \<not> paid then FbDec p else LdDone p None))"
| "load_atom T a (FbDec p) = bnd (dec_ptr T p) (\<lambda>_. ret (LdDone p None))"
| "load_atom T a (FbEnv n p e) = bnd (envelope_load e) (\<lambda>r. ret (FbOffer n p e r))"
| "load_atom T a (FbOffer n p e r) = bnd (space_offer_store n e) (\<lambda>_. ret (FbCancel n p r))"
| "load_atom T a (FbCancel n p r) =
     bnd (pay (HelpingDebt n) p) (\<lambda>paid. ret (if \<not> paid then FbCancelDec p r else LdDone r None))"
| "load_atom T a (FbCancelDec p r) = bnd (dec_ptr T p) (\<lambda>_. ret (LdDone r None))"
| "load_atom T a (LdDone p d) = ret (LdDone p d)"

text \<open>What remains of a load, in the words of the modelled functions.\<close>

definition confirm_rest :: "('t, 'v) RefCnt \<Rightarrow> usize \<Rightarrow> Debt \<Rightarrow> ('v, usize + unit) prog \<Rightarrow> ('v, 't HybridProtection) prog" where
  "confirm_rest T p d c =
     bnd c (\<lambda>r. case r of
       Inr _ \<Rightarrow> bnd (hp_into_inner T (hp_new T p (Some d))) (\<lambda>x. ret (hp_from_inner x))
     | Inl replacement \<Rightarrow>
         bnd (pay d p) (\<lambda>paid.
         bnd (if \<not> paid then dec_ptr T p else ret ()) (\<lambda>_.
         ret (hp_new T replacement None))))"

definition attempt_rest :: "('t, 'v) RefCnt \<Rightarrow> usize \<Rightarrow> usize \<Rightarrow> ('v, Debt option) prog \<Rightarrow> ('v, 't HybridProtection) prog" where
  "attempt_rest T a p c =
     bnd c (\<lambda>slot_opt. case slot_opt of
       None \<Rightarrow> fallback T a
     | Some d \<Rightarrow> bnd (storage_load a) (\<lambda>confirm.
         if p = confirm then ret (hp_new T confirm (Some d))
         else bnd (pay d p) (\<lambda>paid. if paid then fallback T a else ret (hp_new T p None))))"

definition conf_rest :: "('t, 'v) RefCnt \<Rightarrow> usize \<Rightarrow> usize \<Rightarrow> ('v, 't HybridProtection) prog" where
  "conf_rest T g p = bnd local_node (\<lambda>n. confirm_rest T p (HelpingDebt n) (helping_confirm n g p))"

definition discard_rest :: "usize \<Rightarrow> bool \<Rightarrow> ('v, unit) prog" where
  "discard_rest n discard =
     (if discard then bnd (start_cooldown n) (\<lambda>_. modify_loc (\<lambda>l. l\<lparr>node := None\<rparr>)) else ret ())"

fun load_rest :: "('t, 'v) RefCnt \<Rightarrow> usize \<Rightarrow> lpc \<Rightarrow> ('v, 't HybridProtection) prog" where
  "load_rest T a LdPtr = bnd (storage_load a) (\<lambda>p. attempt_rest T a p (new_fast p))"
| "load_rest T a (LdNode p) = attempt_rest T a p (new_fast p)"
| "load_rest T a (LdScan n p off i is) = attempt_rest T a p (fast_scan n p off (i # is))"
| "load_rest T a (LdSwap n p j) = attempt_rest T a p (
     bnd (slot_swap (FastDebt n j) p) (\<lambda>old.
     bnd (debug_assert (NONE = old)) (\<lambda>_.
     bnd (modify_loc (\<lambda>l. l\<lparr>offset := of_nat j + 1\<rparr>)) (\<lambda>_.
     ret (Some (FastDebt n j))))))"
| "load_rest T a (LdConf p d) = attempt_rest T a p (ret (Some d))"
| "load_rest T a (LdBack p d) =
     bnd (pay d p) (\<lambda>paid. if paid then fallback T a else ret (hp_new T p None))"
| "load_rest T a FbNode = fallback T a"
| "load_rest T a (FbAddr n) =
     bnd (helping_get_debt n a) (\<lambda>(gen, discard).
     bnd (discard_rest n discard) (\<lambda>_.
     bnd (storage_load a) (\<lambda>p. conf_rest T gen p)))"
| "load_rest T a (FbCtl n g discard) =
     bnd (control_swap n g) (\<lambda>prev.
     bnd (debug_assert (IDLE = prev)) (\<lambda>_.
     bnd (discard_rest n discard) (\<lambda>_.
     bnd (storage_load a) (\<lambda>p. conf_rest T g p))))"
| "load_rest T a (FbWrap n g) =
     bnd (discard_rest n True) (\<lambda>_. bnd (storage_load a) (\<lambda>p. conf_rest T g p))"
| "load_rest T a (FbCand g) = bnd (storage_load a) (\<lambda>p. conf_rest T g p)"
| "load_rest T a (FbConf g p) = conf_rest T g p"
| "load_rest T a (FbSlot n g p) = confirm_rest T p (HelpingDebt n) (helping_confirm n g p)"
| "load_rest T a (FbIdle n g p) = confirm_rest T p (HelpingDebt n) (
     bnd (control_swap n IDLE) (\<lambda>ctl.
     if ctl = g then ret (Inr ())
     else
       bnd (debug_assert (ctl AND TAG_MASK = REPLACEMENT_TAG)) (\<lambda>_.
       let envelope = ctl AND NOT TAG_MASK in
       bnd (envelope_load envelope) (\<lambda>replacement.
       bnd (space_offer_store n envelope) (\<lambda>_.
       ret (Inl replacement))))))"
| "load_rest T a (FbInc n p) = confirm_rest T p (HelpingDebt n) (ret (Inr ()))"
| "load_rest T a (FbPay n p) =
     bnd (pay (HelpingDebt n) p) (\<lambda>paid.
     bnd (if \<not> paid then dec_ptr T p else ret ()) (\<lambda>_. ret (hp_new T p None)))"
| "load_rest T a (FbDec p) = bnd (dec_ptr T p) (\<lambda>_. ret (hp_new T p None))"
| "load_rest T a (FbEnv n p e) = confirm_rest T p (HelpingDebt n) (
     bnd (envelope_load e) (\<lambda>r. bnd (space_offer_store n e) (\<lambda>_. ret (Inl r))))"
| "load_rest T a (FbOffer n p e r) = confirm_rest T p (HelpingDebt n) (
     bnd (space_offer_store n e) (\<lambda>_. ret (Inl r)))"
| "load_rest T a (FbCancel n p r) = confirm_rest T p (HelpingDebt n) (ret (Inl r))"
| "load_rest T a (FbCancelDec p r) = bnd (dec_ptr T p) (\<lambda>_. ret (hp_new T r None))"
| "load_rest T a (LdDone p d) = ret (hp_new T p d)"

fun load_done :: "lpc \<Rightarrow> bool" where
  "load_done (LdDone p d) \<longleftrightarrow> True"
| "load_done _ \<longleftrightarrow> False"

lemma bnd_cong: "(\<And>x. f x = g x) \<Longrightarrow> bnd m f = bnd m g"
  by (simp add: bnd_def fun_eq_iff split: prod.splits sum.splits)

lemma bnd_if: "bnd (if b then m else m') f = (if b then bnd m f else bnd m' f)"
  by simp

text \<open>The first counter stands for the whole load.\<close>

lemma load_rest_LdPtr:
  "load_rest T a LdPtr = bnd (attempt T a) (\<lambda>fast. case fast of Some x \<Rightarrow> ret x | None \<Rightarrow> fallback T a)"
  unfolding load_rest.simps attempt_def attempt_rest_def bnd_assoc
proof (intro bnd_cong)
  fix p :: usize and so :: "Debt option"
  show "(case so of None \<Rightarrow> fallback T a
      | Some d \<Rightarrow> bnd (storage_load a) (\<lambda>confirm. if p = confirm then ret (hp_new T confirm (Some d))
          else bnd (pay d p) (\<lambda>paid. if paid then fallback T a else ret (hp_new T p None)))) =
    bnd (case so of None \<Rightarrow> ret None
      | Some debt \<Rightarrow> bnd (storage_load a) (\<lambda>confirm. if p = confirm then ret (Some (hp_new T confirm (Some debt)))
          else bnd (pay debt p) (\<lambda>paid. if paid then ret None else ret (Some (hp_new T p None)))))
      (\<lambda>fast. case fast of Some x \<Rightarrow> ret x | None \<Rightarrow> fallback T a)"
    by (cases so) (auto simp: bnd_assoc bnd_if intro!: bnd_cong simp del: ret_exec)
qed

lemma hybrid_load_rest: "hybrid_load T DefaultConfig a = with_local (load_rest T a LdPtr)"
  unfolding load_rest_LdPtr hybrid_load_def DefaultConfig_def by (simp del: load_rest.simps)

lemma attempt_rest_bnd: "attempt_rest T a p (bnd m f) = bnd m (\<lambda>x. attempt_rest T a p (f x))"
  by (simp add: attempt_rest_def bnd_assoc)

lemma attempt_rest_ret: "attempt_rest T a p (ret None) = fallback T a"
  by (simp add: attempt_rest_def)

lemma confirm_rest_bnd: "confirm_rest T p d (bnd m f) = bnd m (\<lambda>x. confirm_rest T p d (f x))"
  by (simp add: confirm_rest_def bnd_assoc)

lemma inc_value_result:
  "into_ptr T x = p \<Longrightarrow> bnd (inc_value T x) f = bnd (inc_value T x) (\<lambda>_. f p)"
  by (auto simp: bnd_def inc_value_def atomic_def inc_def fun_eq_iff Let_def split: sum.splits prod.splits)

text \<open>Turning a guard with a debt into its value; the result of \<open>inc\<close> is the pointer itself.\<close>

lemma into_inner_rest:
  assumes "\<And>p. into_ptr T (from_ptr T p) = p"
  shows "hp_into_inner T (hp_new T p (Some d)) =
     bnd (inc_value T (from_ptr T p)) (\<lambda>_.
     bnd (pay d p) (\<lambda>paid.
     bnd (if \<not> paid then dec_ptr T p else ret ()) (\<lambda>_.
     ret (from_ptr T p))))"
proof -
  have "hp_into_inner T (hp_new T p (Some d)) =
     bnd (inc_value T (from_ptr T p)) (\<lambda>q. bnd (pay d q) (\<lambda>paid.
     bnd (if \<not> paid then dec_ptr T q else ret ()) (\<lambda>_. ret (from_ptr T p))))"
    by (simp add: hp_into_inner_def hp_new_def bnd_assoc del: ret_exec)
  also have "\<dots> = bnd (inc_value T (from_ptr T p)) (\<lambda>_. bnd (pay d p) (\<lambda>paid.
     bnd (if \<not> paid then dec_ptr T p else ret ()) (\<lambda>_. ret (from_ptr T p))))"
    by (rule inc_value_result[OF assms])
  finally show ?thesis .
qed

lemma hp_from_inner_new: "hp_from_inner (from_ptr T p) = hp_new T p None"
  by (simp add: hp_from_inner_def hp_new_def)

lemma new_helping_rest:
  "new_helping a = bnd local_node (\<lambda>n. bnd (helping_get_debt n a) (\<lambda>(gen, discard).
     bnd (discard_rest n discard) (\<lambda>_. ret gen)))"
  unfolding new_helping_def
  by (intro bnd_cong) (auto simp: discard_rest_def bnd_assoc simp del: ret_exec)

lemma conf_rest_confirm:
  "conf_rest T g p = bnd (confirm_helping g p) (\<lambda>r. case r of
       Inr debt \<Rightarrow> bnd (hp_into_inner T (hp_new T p (Some debt))) (\<lambda>x. ret (hp_from_inner x))
     | Inl (unused_debt, replacement) \<Rightarrow>
         bnd (pay unused_debt p) (\<lambda>paid.
         bnd (if \<not> paid then dec_ptr T p else ret ()) (\<lambda>_.
         ret (hp_new T replacement None))))"
  unfolding conf_rest_def confirm_helping_def confirm_rest_def bnd_assoc
proof (intro bnd_cong)
  fix n :: usize and r :: "usize + unit"
  show "(case r of Inl replacement \<Rightarrow> bnd (pay (HelpingDebt n) p) (\<lambda>paid.
         bnd (if \<not> paid then dec_ptr T p else ret ()) (\<lambda>_. ret (hp_new T replacement None)))
      | Inr _ \<Rightarrow> bnd (hp_into_inner T (hp_new T p (Some (HelpingDebt n)))) (\<lambda>x. ret (hp_from_inner x))) =
    bnd (ret (case r of Inl repl \<Rightarrow> Inl (HelpingDebt n, repl) | Inr _ \<Rightarrow> Inr (HelpingDebt n)))
      (\<lambda>r. case r of Inl (unused_debt, replacement) \<Rightarrow> bnd (pay unused_debt p) (\<lambda>paid.
         bnd (if \<not> paid then dec_ptr T p else ret ()) (\<lambda>_. ret (hp_new T replacement None)))
      | Inr debt \<Rightarrow> bnd (hp_into_inner T (hp_new T p (Some debt))) (\<lambda>x. ret (hp_from_inner x)))"
    by (cases r) (simp_all del: ret_exec)
qed

lemma fallback_rest: "fallback T a = bnd local_node (\<lambda>n. load_rest T a (FbAddr n))"
  unfolding fallback_def new_helping_rest load_rest.simps bnd_assoc split_def conf_rest_confirm
  by (simp only: bnd_ret_left)

text \<open>One access at a time.\<close>

lemma load_rest_step:
  assumes "\<not> load_done pc" and "\<And>p. into_ptr T (from_ptr T p) = p"
  shows "load_rest T a pc = bnd (load_atom T a pc) (load_rest T a)"
proof (cases pc)
  case (LdNode p)
  have scan: "attempt_rest T a p (fast_scan n p off is) = load_rest T a (scan_next n p off is)" for n off "is"
    by (cases "is") (simp_all add: attempt_rest_ret del: ret_exec fast_scan.simps(2))
  show ?thesis
    unfolding LdNode load_rest.simps load_atom.simps new_fast_def fast_get_debt_def attempt_rest_bnd bnd_assoc bnd_ret_left scan ..
next
  case (LdScan n p off i "is")
  have scan: "attempt_rest T a p (fast_scan n p off is) = load_rest T a (scan_next n p off is)" for "is"
    by (cases "is") (simp_all add: attempt_rest_ret del: ret_exec fast_scan.simps(2))
  show ?thesis
    unfolding LdScan load_rest.simps load_atom.simps fast_scan.simps(2) Let_def slot_index_def[symmetric] attempt_rest_bnd bnd_assoc bnd_ret_left
    by (intro bnd_cong) (simp add: scan del: ret_exec)
next
  case (LdConf p d)
  then show ?thesis
    by (auto simp: attempt_rest_def bnd_assoc simp del: ret_exec intro!: bnd_cong)
next
  case (LdBack p d)
  then show ?thesis by (auto simp: bnd_assoc simp del: ret_exec intro!: bnd_cong)
next
  case FbNode
  then show ?thesis by (simp add: fallback_rest bnd_assoc del: ret_exec load_rest.simps(8))
next
  case (FbAddr n)
  then show ?thesis
    by (simp add: helping_get_debt_def Let_def bnd_assoc del: ret_exec)
next
  case (FbCtl n g b)
  then show ?thesis by (cases b) (simp_all add: bnd_assoc discard_rest_def del: ret_exec)
next
  case (FbWrap n g)
  then show ?thesis by (simp add: bnd_assoc discard_rest_def del: ret_exec)
next
  case (FbConf g p)
  then show ?thesis by (simp add: bnd_assoc conf_rest_def del: ret_exec)
next
  case (FbSlot n g p)
  then show ?thesis by (simp add: helping_confirm_def confirm_rest_bnd bnd_assoc del: ret_exec)
next
  case (FbIdle n g p)
  then show ?thesis
    by (auto simp: confirm_rest_bnd bnd_assoc Let_def simp del: ret_exec intro!: bnd_cong)
next
  case (FbInc n p)
  then show ?thesis
    by (simp add: confirm_rest_def into_inner_rest[OF assms(2)] hp_from_inner_new bnd_assoc del: ret_exec)
next
  case (FbPay n p)
  then show ?thesis by (auto simp: bnd_assoc simp del: ret_exec intro!: bnd_cong)
next
  case (FbCancel n p r)
  then show ?thesis by (auto simp: confirm_rest_def bnd_assoc simp del: ret_exec intro!: bnd_cong)
qed (use assms(1) in \<open>simp_all add: attempt_rest_bnd confirm_rest_bnd bnd_assoc del: ret_exec\<close>)

section \<open>Turning a guard into its value\<close>

datatype ipc = IiInc usize Debt | IiPay usize Debt | IiDec usize | IiDone usize

definition into_start :: "usize \<Rightarrow> Debt option \<Rightarrow> ipc" where
  "into_start p d = (case d of None \<Rightarrow> IiDone p | Some d \<Rightarrow> IiInc p d)"

fun into_atom :: "('t, 'v) RefCnt \<Rightarrow> ipc \<Rightarrow> ('v, ipc) prog" where
  "into_atom T (IiInc p d) = bnd (inc_value T (from_ptr T p)) (\<lambda>_. ret (IiPay p d))"
| "into_atom T (IiPay p d) = bnd (pay d p) (\<lambda>paid. ret (if \<not> paid then IiDec p else IiDone p))"
| "into_atom T (IiDec p) = bnd (dec_ptr T p) (\<lambda>_. ret (IiDone p))"
| "into_atom T (IiDone p) = ret (IiDone p)"

fun into_rest :: "('t, 'v) RefCnt \<Rightarrow> ipc \<Rightarrow> ('v, 't) prog" where
  "into_rest T (IiInc p d) = hp_into_inner T (hp_new T p (Some d))"
| "into_rest T (IiPay p d) =
     bnd (pay d p) (\<lambda>paid. bnd (if \<not> paid then dec_ptr T p else ret ()) (\<lambda>_. ret (from_ptr T p)))"
| "into_rest T (IiDec p) = bnd (dec_ptr T p) (\<lambda>_. ret (from_ptr T p))"
| "into_rest T (IiDone p) = ret (from_ptr T p)"

lemma into_rest_start: "hp_into_inner T (hp_new T p d) = into_rest T (into_start p d)"
  by (cases d) (simp_all add: into_start_def hp_into_inner_def hp_new_def del: ret_exec)

lemma into_rest_step:
  assumes "\<And>p. into_ptr T (from_ptr T p) = p"
  shows "into_rest T pc = bnd (into_atom T pc) (into_rest T)"
proof (cases pc)
  case (IiInc p d)
  then show ?thesis using into_inner_rest[OF assms, of p d] by (simp add: bnd_assoc del: ret_exec)
qed (auto simp: bnd_assoc simp del: ret_exec intro!: bnd_cong)

section \<open>Helping\<close>

text \<open>
  The counters of \<open>LocalNode::help\<close> on the node \<open>who\<close>: the first argument is the helper's own node,
  then the retries left, the control word last seen, and what it has in hand.
\<close>

datatype hpc =
    HNode
  | HSelf usize
  | HCtl usize
  | HAddr usize nat usize
  | HRe usize nat usize
  | HLoad usize nat usize lpc
  | HInto usize nat usize ipc
  | HTheir usize nat usize usize
  | HMine usize nat usize usize usize
  | HStore usize nat usize usize usize usize
  | HCas usize nat usize usize usize usize
  | HTake usize usize
  | HDrop usize nat usize usize
  | HDone

fun help_announces :: "hpc \<Rightarrow> bool" where
  "help_announces (HLoad n k c l) \<longleftrightarrow> announces l"
| "help_announces _ \<longleftrightarrow> False"

text \<open>The head of the loop looks at a control word without touching the memory.\<close>

fun help_enter :: "usize \<Rightarrow> usize \<Rightarrow> nat \<Rightarrow> usize \<Rightarrow> ('v, hpc) prog" where
  "help_enter n who 0 ctl = raise OutOfFuel"
| "help_enter n who (Suc k) ctl =
     (if ctl AND TAG_MASK = IDLE \<and> ctl = IDLE then ret HDone
      else if ctl AND TAG_MASK = REPLACEMENT_TAG then ret HDone
      else if ctl AND TAG_MASK = GEN_TAG then
        bnd (debug_assert (n \<noteq> who)) (\<lambda>_. ret (HAddr n k ctl))
      else raise Unreachable)"

fun help_into :: "usize \<Rightarrow> nat \<Rightarrow> usize \<Rightarrow> ipc \<Rightarrow> hpc" where
  "help_into n k c (IiDone r) = HTheir n k c r"
| "help_into n k c i = HInto n k c i"

fun help_load :: "usize \<Rightarrow> nat \<Rightarrow> usize \<Rightarrow> lpc \<Rightarrow> hpc" where
  "help_load n k c (LdDone p d) = help_into n k c (into_start p d)"
| "help_load n k c l = HLoad n k c l"

fun help_atom :: "('t, 'v) RefCnt \<Rightarrow> usize \<Rightarrow> usize \<Rightarrow> hpc \<Rightarrow> ('v, hpc) prog" where
  "help_atom T who a HNode = bnd local_node (\<lambda>n. ret (HSelf n))"
| "help_atom T who a (HSelf n) =
     bnd (control_load n) (\<lambda>own. bnd (debug_assert (IDLE = own)) (\<lambda>_. ret (HCtl n)))"
| "help_atom T who a (HCtl n) = bnd (control_load who) (\<lambda>ctl. bnd get_fuel (\<lambda>k. help_enter n who k ctl))"
| "help_atom T who a (HAddr n k c) =
     bnd (active_addr_load who) (\<lambda>active. ret (if active \<noteq> a then HRe n k c else HLoad n k c LdPtr))"
| "help_atom T who a (HRe n k c) =
     bnd (control_load who) (\<lambda>c'. if c' = c then ret HDone else help_enter n who k c')"
| "help_atom T who a (HLoad n k c l) = bnd (load_atom T a l) (\<lambda>l'. ret (help_load n k c l'))"
| "help_atom T who a (HInto n k c i) = bnd (into_atom T i) (\<lambda>i'. ret (help_into n k c i'))"
| "help_atom T who a (HTheir n k c r) = bnd (space_offer_load who) (\<lambda>th. ret (HMine n k c r th))"
| "help_atom T who a (HMine n k c r th) = bnd (space_offer_load n) (\<lambda>my. ret (HStore n k c r th my))"
| "help_atom T who a (HStore n k c r th my) =
     bnd (envelope_store my r) (\<lambda>_.
     bnd (assert_that (my AND TAG_MASK = 0)) (\<lambda>_.
     ret (HCas n k c r th my)))"
| "help_atom T who a (HCas n k c r th my) =
     bnd (control_cas who c (my OR REPLACEMENT_TAG)) (\<lambda>(c', ok).
     ret (if ok then HTake n th else HDrop n k r c'))"
| "help_atom T who a (HTake n th) = bnd (space_offer_store n th) (\<lambda>_. ret HDone)"
| "help_atom T who a (HDrop n k r c) = bnd (drop_val T (from_ptr T r)) (\<lambda>_. help_enter n who k c)"
| "help_atom T who a HDone = ret HDone"

definition replacement_of :: "('t, 'v) RefCnt \<Rightarrow> usize \<Rightarrow> ('v, 't) prog" where
  "replacement_of T a = bnd (hybrid_load T DefaultConfig a) (hp_into_inner T)"

definition cas_rest :: "('t, 'v) RefCnt \<Rightarrow> usize \<Rightarrow> usize \<Rightarrow> usize \<Rightarrow> nat \<Rightarrow> usize \<Rightarrow> usize \<Rightarrow> usize \<Rightarrow> usize \<Rightarrow> ('v, unit) prog" where
  "cas_rest T n who a k c r th my =
     bnd (control_cas who c (my OR REPLACEMENT_TAG)) (\<lambda>(c', ok).
     if ok then bnd (space_offer_store n th) (\<lambda>_. ret ())
     else bnd (drop_val T (from_ptr T r)) (\<lambda>_. help_loop k T n who a (replacement_of T a) c'))"

definition store_rest :: "('t, 'v) RefCnt \<Rightarrow> usize \<Rightarrow> usize \<Rightarrow> usize \<Rightarrow> nat \<Rightarrow> usize \<Rightarrow> usize \<Rightarrow> usize \<Rightarrow> usize \<Rightarrow> ('v, unit) prog" where
  "store_rest T n who a k c r th my =
     bnd (envelope_store my r) (\<lambda>_. bnd (assert_that (my AND TAG_MASK = 0)) (\<lambda>_. cas_rest T n who a k c r th my))"

definition mine_rest :: "('t, 'v) RefCnt \<Rightarrow> usize \<Rightarrow> usize \<Rightarrow> usize \<Rightarrow> nat \<Rightarrow> usize \<Rightarrow> usize \<Rightarrow> usize \<Rightarrow> ('v, unit) prog" where
  "mine_rest T n who a k c r th = bnd (space_offer_load n) (\<lambda>my. store_rest T n who a k c r th my)"

definition offer_rest :: "('t, 'v) RefCnt \<Rightarrow> usize \<Rightarrow> usize \<Rightarrow> usize \<Rightarrow> nat \<Rightarrow> usize \<Rightarrow> usize \<Rightarrow> ('v, unit) prog" where
  "offer_rest T n who a k c r = bnd (space_offer_load who) (\<lambda>th. mine_rest T n who a k c r th)"

definition recheck_rest :: "('t, 'v) RefCnt \<Rightarrow> usize \<Rightarrow> usize \<Rightarrow> usize \<Rightarrow> nat \<Rightarrow> usize \<Rightarrow> ('v, unit) prog" where
  "recheck_rest T n who a k c =
     bnd (control_load who) (\<lambda>c'. if c' = c then ret () else help_loop k T n who a (replacement_of T a) c')"

fun help_rest :: "('t, 'v) RefCnt \<Rightarrow> usize \<Rightarrow> usize \<Rightarrow> hpc \<Rightarrow> ('v, unit) prog" where
  "help_rest T who a HNode = local_help T who a (replacement_of T a)"
| "help_rest T who a (HSelf n) = helping_help T n who a (replacement_of T a)"
| "help_rest T who a (HCtl n) =
     bnd (control_load who) (\<lambda>ctl. bnd get_fuel (\<lambda>k. help_loop k T n who a (replacement_of T a) ctl))"
| "help_rest T who a (HAddr n k c) =
     bnd (active_addr_load who) (\<lambda>active.
     if active \<noteq> a then recheck_rest T n who a k c
     else bnd (replacement_of T a) (\<lambda>x. offer_rest T n who a k c (as_ptr T x)))"
| "help_rest T who a (HRe n k c) = recheck_rest T n who a k c"
| "help_rest T who a (HLoad n k c l) =
     (if l = LdPtr then bnd (replacement_of T a) (\<lambda>x. offer_rest T n who a k c (as_ptr T x))
      else bnd (load_rest T a l) (\<lambda>g. bnd (hp_into_inner T g) (\<lambda>x. offer_rest T n who a k c (as_ptr T x))))"
| "help_rest T who a (HInto n k c i) = bnd (into_rest T i) (\<lambda>x. offer_rest T n who a k c (as_ptr T x))"
| "help_rest T who a (HTheir n k c r) = offer_rest T n who a k c r"
| "help_rest T who a (HMine n k c r th) = mine_rest T n who a k c r th"
| "help_rest T who a (HStore n k c r th my) = store_rest T n who a k c r th my"
| "help_rest T who a (HCas n k c r th my) = cas_rest T n who a k c r th my"
| "help_rest T who a (HTake n th) = bnd (space_offer_store n th) (\<lambda>_. ret ())"
| "help_rest T who a (HDrop n k r c) =
     bnd (drop_val T (from_ptr T r)) (\<lambda>_. help_loop k T n who a (replacement_of T a) c)"
| "help_rest T who a HDone = ret ()"

text \<open>The thread has its node and its thread-local storage: \<open>LocalNode::with\<close> only calls its closure.\<close>

definition holds_node :: "'v world \<Rightarrow> bool" where
  "holds_node w \<longleftrightarrow> tls_alive w \<and> node (loc w) \<noteq> None"

lemma with_local_node: "holds_node w \<Longrightarrow> with_local f w = f w"
  by (auto simp: holds_node_def with_local_def bnd_def)

text \<open>Every value a load hands out is the pointer form of some address.\<close>

definition yields :: "('a \<Rightarrow> bool) \<Rightarrow> ('s, 'a) comp \<Rightarrow> bool" where
  "yields P m \<longleftrightarrow> (\<forall>w x w'. m w = (Inr x, w') \<longrightarrow> P x)"

lemma yields_ret [simp]: "yields P (ret x) \<longleftrightarrow> P x"
  by (simp add: yields_def)

lemma yields_bnd: "(\<And>x. yields P (f x)) \<Longrightarrow> yields P (bnd m f)"
  by (auto simp: yields_def bnd_def split: prod.splits sum.splits)

lemma yields_bnd_first: "yields Q m \<Longrightarrow> (\<And>x. Q x \<Longrightarrow> yields P (f x)) \<Longrightarrow> yields P (bnd m f)"
  by (fastforce simp: yields_def bnd_def split: prod.splits sum.splits)

lemma yields_with_local:
  assumes "yields P f"
  shows "yields P (with_local f)"
proof -
  let ?tmp = "\<lambda>l. bnd node_get (\<lambda>n. bnd (modify_loc (\<lambda>_. local_default\<lparr>node := Some n\<rparr>)) (\<lambda>_.
      bnd f (\<lambda>x. bnd local_drop (\<lambda>_. bnd (modify_loc (\<lambda>_. l)) (\<lambda>_. ret x)))))"
  have "yields P (bnd m (\<lambda>_. f))" for m by (rule yields_bnd) (rule assms)
  moreover have "yields P (?tmp l)" for l
    by (intro yields_bnd yields_bnd_first[OF assms]) simp
  ultimately show ?thesis
    unfolding yields_def with_local_def by (intro allI impI) (split if_split_asm; blast)
qed

lemma bnd_yields: "yields P m \<Longrightarrow> (\<And>x. P x \<Longrightarrow> f x = g x) \<Longrightarrow> bnd m f = bnd m g"
  by (auto simp: yields_def bnd_def fun_eq_iff split: prod.splits sum.splits)

lemma yields_load:
  assumes "\<And>p. into_ptr T (from_ptr T p) = p"
  shows "yields (\<lambda>g. \<exists>p. hp_ptr g = from_ptr T p) (hybrid_load T DefaultConfig a)"
proof -
  have new: "yields (\<lambda>g. \<exists>p. hp_ptr g = from_ptr T p) (ret (hp_new T p d))" for p d
    by (auto simp: hp_new_def)
  have conf: "yields (\<lambda>g. \<exists>p. hp_ptr g = from_ptr T p) (confirm_rest T p d c)" for p d c
    unfolding confirm_rest_def into_inner_rest[OF assms] bnd_assoc bnd_ret_left hp_from_inner_new
    by (rule yields_bnd) (auto intro!: yields_bnd new split: sum.splits simp del: yields_ret)
  have fb: "yields (\<lambda>g. \<exists>p. hp_ptr g = from_ptr T p) (fallback T a)"
    unfolding fallback_rest load_rest.simps split_def conf_rest_def by (intro yields_bnd conf)
  have "yields (\<lambda>g. \<exists>p. hp_ptr g = from_ptr T p) (load_rest T a LdPtr)"
    unfolding load_rest.simps attempt_rest_def
    by (intro yields_bnd) (auto intro!: yields_bnd new fb split: option.splits simp del: yields_ret)
  then show ?thesis unfolding hybrid_load_rest by (rule yields_with_local)
qed

lemma yields_replacement:
  assumes "\<And>p. into_ptr T (from_ptr T p) = p"
  shows "yields (\<lambda>x. \<exists>p. x = from_ptr T p) (replacement_of T a)"
  unfolding replacement_of_def
  by (rule yields_bnd_first[OF yields_load[OF assms]])
    (auto simp: hp_into_inner_def intro!: yields_bnd)

text \<open>The head of the loop, then the rest.\<close>

locale raw_form =
  fixes T :: "('t, 'v) RefCnt"
  assumes into_raw: "into_ptr T (from_ptr T p) = p"
    and as_raw_ptr: "as_ptr T (from_ptr T p) = p"
begin

lemma help_loop_enter: "help_loop k T n who a (replacement_of T a) c = bnd (help_enter n who k c) (help_rest T who a)"
proof (cases k)
  case (Suc j)
  have "bnd (replacement_of T a) (\<lambda>x. offer_rest T n who a j c (as_ptr T x)) =
      bnd (replacement_of T a) (\<lambda>x.
        bnd (space_offer_load who) (\<lambda>th. bnd (space_offer_load n) (\<lambda>my.
        bnd (envelope_store my (as_ptr T x)) (\<lambda>_. bnd (assert_that (my AND TAG_MASK = 0)) (\<lambda>_.
        bnd (control_cas who c (my OR REPLACEMENT_TAG)) (\<lambda>(c', ok).
          if ok then bnd (space_offer_store n th) (\<lambda>_. ret ())
          else bnd (drop_val T x) (\<lambda>_. help_loop j T n who a (replacement_of T a) c')))))))"
  proof (rule bnd_yields[OF yields_replacement[OF into_raw]], elim exE)
    fix x p assume "x = from_ptr T p"
    then show "offer_rest T n who a j c (as_ptr T x) =
        bnd (space_offer_load who) (\<lambda>th. bnd (space_offer_load n) (\<lambda>my.
        bnd (envelope_store my (as_ptr T x)) (\<lambda>_. bnd (assert_that (my AND TAG_MASK = 0)) (\<lambda>_.
        bnd (control_cas who c (my OR REPLACEMENT_TAG)) (\<lambda>(c', ok).
          if ok then bnd (space_offer_store n th) (\<lambda>_. ret ())
          else bnd (drop_val T x) (\<lambda>_. help_loop j T n who a (replacement_of T a) c'))))))"
      unfolding offer_rest_def mine_rest_def store_rest_def cas_rest_def by (simp only: as_raw_ptr)
  qed
  then show ?thesis
    using Suc by (auto simp: bnd_assoc recheck_rest_def Let_def simp del: ret_exec intro!: bnd_cong)
qed (simp del: ret_exec)

lemma help_into_rest: "help_rest T who a (help_into n k c i) = bnd (into_rest T i) (\<lambda>x. offer_rest T n who a k c (as_ptr T x))"
  by (cases i) (simp_all add: as_raw_ptr del: ret_exec)

lemma help_load_rest:
  "l \<noteq> LdPtr \<Longrightarrow> help_rest T who a (help_load n k c l) =
     bnd (load_rest T a l) (\<lambda>g. bnd (hp_into_inner T g) (\<lambda>x. offer_rest T n who a k c (as_ptr T x)))"
  by (cases l) (simp_all add: help_into_rest into_rest_start del: ret_exec load_rest.simps(1-21))

lemma help_rest_load_step:
  assumes "holds_node w"
  shows "help_rest T who a (HLoad n k c l) w = bnd (help_atom T who a (HLoad n k c l)) (help_rest T who a) w"
proof -
  let ?o = "\<lambda>x. offer_rest T n who a k c (as_ptr T x)"
  let ?k = "\<lambda>g. bnd (hp_into_inner T g) ?o"
  have rest: "help_rest T who a (HLoad n k c l) w = bnd (load_rest T a l) ?k w"
  proof (cases "l = LdPtr")
    case True
    have "bnd (replacement_of T a) ?o w = bnd (with_local (load_rest T a LdPtr)) ?k w"
      unfolding replacement_of_def hybrid_load_rest bnd_assoc ..
    also have "\<dots> = bnd (load_rest T a LdPtr) ?k w" using assms by (simp add: bnd_def with_local_node)
    finally show ?thesis using True by simp
  qed (simp del: load_rest.simps)
  have next_pc: "yields (\<lambda>l'. l' \<noteq> LdPtr) (load_atom T a l)"
    by (cases l) (auto intro!: yields_bnd simp: Let_def)
  have "bnd (load_rest T a l) ?k = bnd (bnd (load_atom T a l) (load_rest T a)) ?k"
  proof (cases "load_done l")
    case False
    then show ?thesis using load_rest_step[OF False into_raw] by simp
  qed (cases l; simp del: ret_exec)
  also have "\<dots> = bnd (load_atom T a l) (\<lambda>l'. help_rest T who a (help_load n k c l'))"
    unfolding bnd_assoc by (rule bnd_yields[OF next_pc]) (rule help_load_rest[symmetric])
  finally show ?thesis unfolding rest by (simp add: bnd_assoc del: ret_exec load_atom.simps load_rest.simps)
qed

lemma help_rest_step:
  assumes "holds_node w"
  shows "help_rest T who a h w = bnd (help_atom T who a h) (help_rest T who a) w"
proof (cases h)
  case (HLoad n k c l)
  then show ?thesis using help_rest_load_step[OF assms] by simp
next
  case HNode
  then show ?thesis by (simp add: local_help_def bnd_assoc del: ret_exec)
next
  case (HSelf n)
  then show ?thesis by (simp add: helping_help_def bnd_assoc del: ret_exec)
next
  case (HCtl n)
  then show ?thesis by (simp add: help_loop_enter bnd_assoc del: ret_exec)
next
  case (HAddr n k c)
  have "help_rest T who a (HAddr n k c) = bnd (help_atom T who a (HAddr n k c)) (help_rest T who a)"
    by (auto simp: bnd_assoc simp del: ret_exec intro!: bnd_cong)
  then show ?thesis using HAddr by simp
next
  case (HRe n k c)
  have "help_rest T who a (HRe n k c) = bnd (help_atom T who a (HRe n k c)) (help_rest T who a)"
    by (auto simp: bnd_assoc recheck_rest_def help_loop_enter simp del: ret_exec intro!: bnd_cong)
  then show ?thesis using HRe by simp
next
  case (HInto n k c i)
  have "bnd (into_rest T i) (\<lambda>x. offer_rest T n who a k c (as_ptr T x)) =
      bnd (bnd (into_atom T i) (into_rest T)) (\<lambda>x. offer_rest T n who a k c (as_ptr T x))"
    using into_rest_step[OF into_raw, of i] by simp
  then show ?thesis using HInto by (simp add: bnd_assoc help_into_rest del: ret_exec into_rest.simps into_atom.simps)
next
  case (HCas n k c r th my)
  have "help_rest T who a (HCas n k c r th my) = bnd (help_atom T who a (HCas n k c r th my)) (help_rest T who a)"
    by (auto simp: bnd_assoc cas_rest_def simp del: ret_exec intro!: bnd_cong)
  then show ?thesis using HCas by simp
qed (simp_all add: bnd_assoc offer_rest_def mine_rest_def store_rest_def help_loop_enter del: ret_exec)

end

section \<open>Paying all debts\<close>

text \<open>
  The counters of \<open>Debt::pay_all\<close>: the walk's bound and the node it stands on, the slots of that node
  that are still to be looked at.
\<close>

datatype ppc =
    PInc
  | PHead
  | PRes nat usize
  | PHelp nat usize hpc
  | PSlot nat usize Debt "Debt list"
  | PSlotInc nat usize "Debt list"
  | PRel nat usize
  | PNext nat usize
  | PDrop
  | PDone

fun pay_announces :: "ppc \<Rightarrow> bool" where
  "pay_announces (PHelp k cur h) \<longleftrightarrow> help_announces h"
| "pay_announces _ \<longleftrightarrow> False"

fun pay_at :: "nat \<Rightarrow> usize \<Rightarrow> ('v, ppc) prog" where
  "pay_at 0 cur = (if cur = 0 then ret PDrop else raise OutOfFuel)"
| "pay_at (Suc k) cur = (if cur = 0 then ret PDrop else ret (PRes k cur))"

fun slot_at :: "nat \<Rightarrow> usize \<Rightarrow> Debt list \<Rightarrow> ppc" where
  "slot_at k cur [] = PRel k cur"
| "slot_at k cur (d # ds) = PSlot k cur d ds"

definition all_slots :: "usize \<Rightarrow> Debt list" where
  "all_slots n = fast_slots n @ [helping_slot n]"

definition pay_help :: "nat \<Rightarrow> usize \<Rightarrow> hpc \<Rightarrow> ppc" where
  "pay_help k cur h = (if h = HDone then slot_at k cur (all_slots cur) else PHelp k cur h)"

fun pay_atom :: "('t, 'v) RefCnt \<Rightarrow> usize \<Rightarrow> usize \<Rightarrow> ppc \<Rightarrow> ('v, ppc) prog" where
  "pay_atom T p a PInc = bnd (inc_value T (from_ptr T p)) (\<lambda>_. ret PHead)"
| "pay_atom T p a PHead =
     bnd (atomic (\<lambda>s. Inr ((list_head s, node_cnt s), s))) (\<lambda>(head, k). pay_at k head)"
| "pay_atom T p a (PRes k cur) = bnd (reserve_writer cur) (\<lambda>_. ret (PHelp k cur HNode))"
| "pay_atom T p a (PHelp k cur h) = bnd (help_atom T cur a h) (\<lambda>h'. ret (pay_help k cur h'))"
| "pay_atom T p a (PSlot k cur d ds) =
     bnd (pay d p) (\<lambda>paid. ret (if paid then PSlotInc k cur ds else slot_at k cur ds))"
| "pay_atom T p a (PSlotInc k cur ds) = bnd (inc_value T (from_ptr T p)) (\<lambda>_. ret (slot_at k cur ds))"
| "pay_atom T p a (PRel k cur) = bnd (release_writer cur) (\<lambda>_. ret (PNext k cur))"
| "pay_atom T p a (PNext k cur) = bnd (node_read cur next_node) (\<lambda>nx. pay_at k nx)"
| "pay_atom T p a PDrop = bnd (drop_val T (from_ptr T p)) (\<lambda>_. ret PDone)"
| "pay_atom T p a PDone = ret PDone"

definition walk_rest :: "('t, 'v) RefCnt \<Rightarrow> usize \<Rightarrow> usize \<Rightarrow> nat \<Rightarrow> usize \<Rightarrow> ('v, unit) prog" where
  "walk_rest T p a k cur =
     bnd (traverse_from k cur (pay_node T (from_ptr T p) p a (replacement_of T a))) (\<lambda>_. drop_val T (from_ptr T p))"

definition next_rest :: "('t, 'v) RefCnt \<Rightarrow> usize \<Rightarrow> usize \<Rightarrow> nat \<Rightarrow> usize \<Rightarrow> ('v, unit) prog" where
  "next_rest T p a k cur = bnd (node_read cur next_node) (\<lambda>nx. walk_rest T p a k nx)"

definition slots_rest :: "('t, 'v) RefCnt \<Rightarrow> usize \<Rightarrow> usize \<Rightarrow> nat \<Rightarrow> usize \<Rightarrow> Debt list \<Rightarrow> ('v, unit) prog" where
  "slots_rest T p a k cur ds =
     bnd (pay_slots T (from_ptr T p) p ds) (\<lambda>_. bnd (release_writer cur) (\<lambda>_. next_rest T p a k cur))"

fun pay_rest :: "('t, 'v) RefCnt \<Rightarrow> usize \<Rightarrow> usize \<Rightarrow> ppc \<Rightarrow> ('v, unit) prog" where
  "pay_rest T p a PInc =
     bnd (inc_value T (from_ptr T p)) (\<lambda>_.
     bnd (traverse (pay_node T (from_ptr T p) p a (replacement_of T a))) (\<lambda>_. drop_val T (from_ptr T p)))"
| "pay_rest T p a PHead =
     bnd (traverse (pay_node T (from_ptr T p) p a (replacement_of T a))) (\<lambda>_. drop_val T (from_ptr T p))"
| "pay_rest T p a (PRes k cur) =
     bnd (pay_node T (from_ptr T p) p a (replacement_of T a) cur) (\<lambda>_. next_rest T p a k cur)"
| "pay_rest T p a (PHelp k cur h) = bnd (help_rest T cur a h) (\<lambda>_. slots_rest T p a k cur (all_slots cur))"
| "pay_rest T p a (PSlot k cur d ds) = slots_rest T p a k cur (d # ds)"
| "pay_rest T p a (PSlotInc k cur ds) = bnd (inc_value T (from_ptr T p)) (\<lambda>_. slots_rest T p a k cur ds)"
| "pay_rest T p a (PRel k cur) = bnd (release_writer cur) (\<lambda>_. next_rest T p a k cur)"
| "pay_rest T p a (PNext k cur) = next_rest T p a k cur"
| "pay_rest T p a PDrop = drop_val T (from_ptr T p)"
| "pay_rest T p a PDone = ret ()"

text \<open>The first counter stands for the whole of \<open>wait_for_readers\<close>.\<close>

lemma wait_for_readers_rest: "hybrid_wait_for_readers T DefaultConfig p a = with_local (pay_rest T p a PInc)"
  by (simp add: hybrid_wait_for_readers_def pay_all_def Let_def replacement_of_def)

lemma yields_pay_node: "yields (\<lambda>r. r = None) (pay_node T x p a m n)"
  by (auto simp: pay_node_def intro!: yields_bnd)

lemma walk_rest_at: "walk_rest T p a k cur = bnd (pay_at k cur) (pay_rest T p a)"
proof (cases k)
  case (Suc j)
  have "bnd (pay_node T (from_ptr T p) p a (replacement_of T a) cur)
      (\<lambda>r. bnd (case r of Some _ \<Rightarrow> ret (Some ())
        | None \<Rightarrow> bnd (node_read cur next_node) (\<lambda>nx. traverse_from j nx (pay_node T (from_ptr T p) p a (replacement_of T a))))
        (\<lambda>_. drop_val T (from_ptr T p))) =
    bnd (pay_node T (from_ptr T p) p a (replacement_of T a) cur) (\<lambda>_. next_rest T p a j cur)"
    by (rule bnd_yields[OF yields_pay_node]) (simp add: next_rest_def walk_rest_def bnd_assoc del: ret_exec)
  then show ?thesis using Suc by (simp add: walk_rest_def bnd_assoc del: ret_exec)
qed (simp add: walk_rest_def del: ret_exec)

lemma slots_rest_at: "slots_rest T p a k cur ds = pay_rest T p a (slot_at k cur ds)"
  by (cases ds) (simp_all add: slots_rest_def pay_slots_def del: ret_exec)

context raw_form
begin

lemma pay_rest_step:
  assumes "holds_node w"
  shows "pay_rest T p a pc w = bnd (pay_atom T p a pc) (pay_rest T p a) w"
proof (cases pc)
  case PHead
  have "pay_rest T p a PHead = bnd (pay_atom T p a PHead) (pay_rest T p a)"
    by (simp add: traverse_def bnd_assoc split_def walk_rest_at[symmetric] walk_rest_def del: ret_exec)
  then show ?thesis using PHead by simp
next
  case (PRes k cur)
  have "pay_rest T p a (PRes k cur) = bnd (pay_atom T p a (PRes k cur)) (pay_rest T p a)"
    by (simp add: pay_node_def slots_rest_def all_slots_def bnd_assoc del: ret_exec)
  then show ?thesis using PRes by simp
next
  case (PHelp k cur h)
  have h: "pay_rest T p a (pay_help k cur h') = bnd (help_rest T cur a h') (\<lambda>_. slots_rest T p a k cur (all_slots cur))" for h'
    by (simp add: pay_help_def slots_rest_at del: ret_exec)
  have "bnd (help_rest T cur a h) (\<lambda>_. slots_rest T p a k cur (all_slots cur)) w =
      bnd (bnd (help_atom T cur a h) (help_rest T cur a)) (\<lambda>_. slots_rest T p a k cur (all_slots cur)) w"
    using help_rest_step[OF assms, of cur a h] by (simp add: bnd_def)
  then show ?thesis using PHelp by (simp add: bnd_assoc h del: ret_exec help_rest.simps help_atom.simps)
next
  case (PSlot k cur d ds)
  have "pay_rest T p a (PSlot k cur d ds) = bnd (pay_atom T p a (PSlot k cur d ds)) (pay_rest T p a)"
    by (auto simp: bnd_assoc slots_rest_at[symmetric] slots_rest_def pay_slots_def simp del: ret_exec intro!: bnd_cong)
  then show ?thesis using PSlot by simp
qed (simp_all add: bnd_assoc slots_rest_at walk_rest_at next_rest_def del: ret_exec)

end

end
