(* ===== verification/Ownership.thy ===== *)
theory Ownership
  imports ArcSwapAny "HOL-Library.Multiset"
begin

text \<open>
  Who owns what. The handles of the program's clients (full references, and guards with the slot
  they may owe) are a multiset; together with the storages they account for every reference in
  the books. This theory keeps the account over the abstract operations of \<open>Books\<close>: as long as it
  balances, every pointer that a storage or a handle mentions is alive.
\<close>

type_synonym handle = "usize \<times> Debt option"

type_synonym handles = "handle multiset"

definition held :: "handles \<Rightarrow> usize \<Rightarrow> nat" where
  "held H p = size (filter_mset (\<lambda>h. fst h = p) H)"

definition stored :: "'v books \<Rightarrow> usize \<Rightarrow> nat" where
  "stored B p = card {a. cells B a = Some p}"

text \<open>
  The account: references match owners one to one, a debt belongs to a guard that carries its slot,
  and a debt is only outstanding while its pointer is still in some storage.
\<close>

definition balanced :: "'v books \<Rightarrow> handles \<Rightarrow> bool" where
  "balanced B H \<longleftrightarrow> finite (owed B) \<and>
     (\<forall>p. p \<noteq> 0 \<longrightarrow> total B p = stored B p + held H p) \<and>
     (\<forall>d p. (d, p) \<in> owed B \<longrightarrow> (p, Some d) \<in># H) \<and>
     (\<forall>d p. (d, p) \<in> owed B \<longrightarrow> (\<exists>a. cells B a = Some p)) \<and>
     (\<forall>a. cells B a \<noteq> Some NONE) \<and> (\<forall>x. (NONE, x) \<notin># H)"

section \<open>Counting\<close>

lemma held_add [simp]: "held (add_mset h H) p = held H p + (if fst h = p then 1 else 0)"
  by (simp add: held_def)

lemma held_remove: "h \<in># H \<Longrightarrow> held (H - {#h#}) p = held H p - (if fst h = p then 1 else 0)"
  by (auto simp: held_def size_Diff_singleton)

lemma mset_keep: "h \<in># H \<Longrightarrow> h \<noteq> k \<Longrightarrow> h \<in># H - {#k#}"
  by (simp add: in_diff_count)

lemma mset_swap: "k \<in># H \<Longrightarrow> add_mset h H - {#k#} = add_mset h (H - {#k#})"
  by (metis add_mset_commute add_mset_remove_trivial multi_member_split)

lemma held_pos: "h \<in># H \<Longrightarrow> 0 < held H (fst h)"
  by (auto dest!: multi_member_split)

lemma card_set_mset_size: "card (set_mset M) \<le> size M"
  by (induction M) (auto simp: card_insert_if le_SucI)

lemma stored_pos: "cells B a = Some p \<Longrightarrow> 0 < stored B p"
  by (auto simp: stored_def card_gt_0_iff)

lemma stored_put:
  assumes "cells B a = Some p"
  shows "stored (put a q B) r + (if r = p then 1 else 0) = stored B r + (if r = q then 1 else 0)"
proof -
  let ?R = "{b. b \<noteq> a \<and> cells B b = Some r}"
  have "{b. cells (put a q B) b = Some r} = (if r = q then insert a ?R else ?R)"
    by (auto simp: put_def)
  moreover have "{b. cells B b = Some r} = (if r = p then insert a ?R else ?R)"
    using assms by auto
  ultimately show ?thesis by (simp add: stored_def)
qed

lemma stored_place:
  assumes "cells B a = None"
  shows "stored (put a q B) r = stored B r + (if r = q then 1 else 0)"
proof -
  let ?R = "{b. cells B b = Some r}"
  have "{b. cells (put a q B) b = Some r} = (if r = q then insert a ?R else ?R)" and "a \<notin> ?R"
    using assms by (auto simp: put_def)
  then show ?thesis by (auto simp: stored_def)
qed

lemma stored_take_out:
  assumes "cells B a = Some p"
  shows "stored (take_out a B) r + (if r = p then 1 else 0) = stored B r"
proof -
  let ?R = "{b. b \<noteq> a \<and> cells B b = Some r}"
  have "{b. cells (take_out a B) b = Some r} = ?R" by (auto simp: take_out_def)
  moreover have "{b. cells B b = Some r} = (if r = p then insert a ?R else ?R)" using assms by auto
  ultimately show ?thesis by (simp add: stored_def)
qed

lemma stored_cong: "cells B = cells C \<Longrightarrow> stored B p = stored C p"
  by (simp add: stored_def)

lemma finite_debts_on: "finite (owed B) \<Longrightarrow> finite (debts_on B p)"
proof -
  assume "finite (owed B)"
  then have "finite (fst ` {x \<in> owed B. snd x = p})" by simp
  moreover have "debts_on B p = fst ` {x \<in> owed B. snd x = p}" by (force simp: debts_on_def)
  ultimately show ?thesis by simp
qed

section \<open>A balanced account keeps everything alive\<close>

lemma balanced_total: "balanced B H \<Longrightarrow> p \<noteq> 0 \<Longrightarrow> total B p = stored B p + held H p"
  by (simp add: balanced_def)

lemma balanced_debt:
  assumes "balanced B H" and "(d, p) \<in> owed B"
  shows "(p, Some d) \<in># H" and "\<exists>a. cells B a = Some p"
  using assms by (auto simp: balanced_def)

lemma balanced_finite: "balanced B H \<Longrightarrow> finite (debts_on B p)"
  by (simp add: balanced_def finite_debts_on)

lemma debts_held:
  assumes "balanced B H"
  shows "card (debts_on B p) \<le> held H p"
proof -
  let ?F = "filter_mset (\<lambda>h. fst h = p) H"
  have "(\<lambda>d. (p, Some d)) ` debts_on B p \<subseteq> set_mset ?F"
    using assms by (auto simp: balanced_def debts_on_def)
  then have "card ((\<lambda>d. (p, Some d)) ` debts_on B p) \<le> card (set_mset ?F)" by (intro card_mono) auto
  moreover have "card ((\<lambda>d. (p, Some d)) ` debts_on B p) = card (debts_on B p)"
    by (rule card_image) (simp add: inj_on_def)
  moreover have "card (set_mset ?F) \<le> size ?F" by (rule card_set_mset_size)
  ultimately show ?thesis by (simp add: held_def)
qed

lemma balanced_stored_counted: "balanced B H \<Longrightarrow> p \<noteq> 0 \<Longrightarrow> stored B p \<le> counts B p"
  using debts_held[of B H p] balanced_total[of B H p] by (simp add: total_def)

theorem balanced_alive:
  assumes "balanced B H" and "p \<noteq> 0" and "(\<exists>a. cells B a = Some p) \<or> (\<exists>x. (p, x) \<in># H)"
  shows "0 < counts B p"
proof (cases "\<exists>a. cells B a = Some p")
  case True
  then have "0 < stored B p" using stored_pos by blast
  then show ?thesis using balanced_stored_counted[OF assms(1,2)] by simp
next
  case False
  then obtain x where "(p, x) \<in># H" using assms(3) by blast
  then have "0 < held H p" using held_pos[of "(p, x)"] by simp
  moreover have "(d, p) \<notin> owed B" for d using False assms(1) unfolding balanced_def by blast
  then have "debts_on B p = {}" by (simp add: debts_on_def)
  moreover have "total B p = stored B p + held H p" using assms(1,2) by (rule balanced_total)
  ultimately show ?thesis by (simp add: total_def)
qed

section \<open>Every operation keeps the account balanced\<close>

text \<open>How an operation moves references: the balance of every pointer changes as much as its owners
  do, debts keep their guards and stay within the stored pointers.\<close>

lemma balancedI:
  assumes "finite (owed B)" and "\<And>p. p \<noteq> 0 \<Longrightarrow> total B p = stored B p + held H p"
    and "\<And>d p. (d, p) \<in> owed B \<Longrightarrow> (p, Some d) \<in># H \<and> (\<exists>a. cells B a = Some p)"
    and "\<And>a. cells B a \<noteq> Some NONE" and "\<And>x. (NONE, x) \<notin># H"
  shows "balanced B H"
  using assms by (simp add: balanced_def)

lemma balanced_not_NONE:
  assumes "balanced B H"
  shows "cells B a = Some p \<Longrightarrow> p \<noteq> NONE" and "(p, x) \<in># H \<Longrightarrow> p \<noteq> NONE"
  using assms by (auto simp: balanced_def)

lemma bump_owed [simp]: "owed (bump p k B) = owed B"
  by (simp add: bump_def)

lemma unref_owed [simp]: "owed (unref p B) = owed B"
  by (simp add: unref_def)

lemma balanced_acquired:
  assumes "balanced B H" and "cells B a = Some p" and "fresh_debt B x"
  shows "balanced (acquired p x B) (add_mset (p, x) H)"
proof (rule balancedI)
  fix q :: usize assume q: "q \<noteq> 0"
  have "total (acquired p x B) q = total B q + (if q = p then 1 else 0)"
    using q balanced_finite[OF assms(1)] assms(3) by (intro total_acquired) (auto simp: fresh_debt_def)
  then show "total (acquired p x B) q = stored (acquired p x B) q + held (add_mset (p, x) H) q"
    using balanced_total[OF assms(1) q] stored_cong[of "acquired p x B" B q] by simp
next
  fix d q assume "(d, q) \<in> owed (acquired p x B)"
  then have "(d, q) \<in> owed B \<or> x = Some d \<and> q = p" by (cases x) auto
  then show "(q, Some d) \<in># add_mset (p, x) H \<and> (\<exists>a. cells (acquired p x B) a = Some q)"
    using balanced_debt[OF assms(1)] assms(2) by auto
qed (use assms balanced_not_NONE[OF assms(1)] in \<open>cases x; auto simp: balanced_def\<close>)+

lemma released_owed: "owed (released p x B) \<subseteq> owed B - {(d, p) |d. x = Some d}"
  by (cases x) auto

lemma balanced_released:
  assumes "balanced B H" and "(p, x) \<in># H"
  shows "balanced (released p x B) (H - {#(p, x)#})"
proof (rule balancedI)
  fix q :: usize assume q: "q \<noteq> 0"
  have "p = 0 \<or> 0 < counts B p" using balanced_alive[OF assms(1), of p] assms(2) by (cases "p = 0") auto
  then have "total (released p x B) q = total B q - (if q = p then 1 else 0)"
    using q balanced_finite[OF assms(1)] by (intro total_released) auto
  then show "total (released p x B) q = stored (released p x B) q + held (H - {#(p, x)#}) q"
    using balanced_total[OF assms(1) q] stored_cong[of "released p x B" B q] held_remove[OF assms(2), of q]
      held_pos[OF assms(2)] by (simp split: if_splits)
next
  fix d q assume "(d, q) \<in> owed (released p x B)"
  then have "(d, q) \<in> owed B" "(q, Some d) \<noteq> (p, x)" using released_owed[of p x B] by auto
  then show "(q, Some d) \<in># H - {#(p, x)#} \<and> (\<exists>a. cells (released p x B) a = Some q)"
    using balanced_debt[OF assms(1) \<open>(d, q) \<in> owed B\<close>] mset_keep[of "(q, Some d)" H "(p, x)"] by simp
next
  show "finite (owed (released p x B))"
    using released_owed[of p x B] assms(1) by (auto simp: balanced_def intro: finite_subset)
qed (use assms in \<open>auto simp: balanced_def dest: in_diffD\<close>)

lemma redeemed_owed: "owed (redeemed p x B) = owed B - {(d, p) |d. x = Some d}"
  by (cases x) auto

lemma balanced_redeemed:
  assumes "balanced B H" and "(p, x) \<in># H"
  shows "balanced (redeemed p x B) (add_mset (p, None) (H - {#(p, x)#}))"
proof (rule balancedI)
  fix q :: usize assume q: "q \<noteq> 0"
  show "total (redeemed p x B) q = stored (redeemed p x B) q + held (add_mset (p, None) (H - {#(p, x)#})) q"
    using total_redeemed[OF balanced_finite[OF assms(1), of p] q, of x]
      balanced_total[OF assms(1) q] stored_cong[of "redeemed p x B" B q] held_remove[OF assms(2), of q]
      held_pos[OF assms(2)] by (simp split: if_splits)
next
  fix d q assume "(d, q) \<in> owed (redeemed p x B)"
  then have "(d, q) \<in> owed B" "(q, Some d) \<noteq> (p, x)" by (auto simp: redeemed_owed)
  then show "(q, Some d) \<in># add_mset (p, None) (H - {#(p, x)#}) \<and> (\<exists>a. cells (redeemed p x B) a = Some q)"
    using balanced_debt[OF assms(1) \<open>(d, q) \<in> owed B\<close>] mset_keep[of "(q, Some d)" H "(p, x)"] by simp
next
  show "finite (owed (redeemed p x B))" using assms(1) by (simp add: redeemed_owed balanced_def)
qed (use assms balanced_not_NONE(2)[OF assms] in \<open>auto simp: balanced_def dest: in_diffD\<close>)

lemma put_owed [simp]: "owed (put a q B) = owed B"
  by (simp add: put_def)

lemma put_cells [simp]: "cells (put a q B) = (cells B)(a \<mapsto> q)"
  by (simp add: put_def)

lemma total_put [simp]: "total (put a q B) r = total B r"
  by (simp add: total_def put_def debts_on_def)

lemma take_out_owed [simp]: "owed (take_out a B) = owed B"
  by (simp add: take_out_def)

lemma take_out_cells [simp]: "cells (take_out a B) = (cells B)(a := None)"
  by (simp add: take_out_def)

lemma total_take_out [simp]: "total (take_out a B) r = total B r"
  by (simp add: total_def take_out_def debts_on_def)

lemma paid_off_owed [simp]: "owed (paid_off p B) = {x \<in> owed B. snd x \<noteq> p}"
  by (simp add: paid_off_def)

text \<open>A new pointer goes in, the old one comes out: the owner of the new reference becomes the owner of
  the old one, with or without a slot that is already paid.\<close>

lemma balanced_swap:
  assumes "balanced B H" and "cells B a = Some p" and "(q, None) \<in># H"
  shows "balanced (paid_off p (put a q B)) (add_mset (p, x) (H - {#(q, None)#}))"
proof (rule balancedI)
  fix r :: usize assume r: "r \<noteq> 0"
  have "stored (paid_off p (put a q B)) r = stored (put a q B) r" by (rule stored_cong) simp
  then show "total (paid_off p (put a q B)) r =
      stored (paid_off p (put a q B)) r + held (add_mset (p, x) (H - {#(q, None)#})) r"
    using total_paid_off[OF r, of p "put a q B"] balanced_total[OF assms(1) r] stored_put[OF assms(2), of q r]
      held_remove[OF assms(3), of r] held_pos[OF assms(3)] by (simp split: if_splits)
next
  fix d r assume "(d, r) \<in> owed (paid_off p (put a q B))"
  then have dr: "(d, r) \<in> owed B" "r \<noteq> p" by auto
  obtain b where b: "cells B b = Some r" using balanced_debt(2)[OF assms(1) dr(1)] by blast
  then have "b \<noteq> a" using assms(2) dr(2) by auto
  then show "(r, Some d) \<in># add_mset (p, x) (H - {#(q, None)#}) \<and> (\<exists>b. cells (paid_off p (put a q B)) b = Some r)"
    using b balanced_debt(1)[OF assms(1) dr(1)] mset_keep[of "(r, Some d)" H "(q, None)"] by auto
next
  show "finite (owed (paid_off p (put a q B)))" using assms(1) by (simp add: balanced_def)
  show "cells (paid_off p (put a q B)) b \<noteq> Some NONE" for b
    using assms balanced_not_NONE(2)[OF assms(1,3)] by (simp add: balanced_def)
  show "(NONE, y) \<notin># add_mset (p, x) (H - {#(q, None)#})" for y
    using assms balanced_not_NONE(1)[OF assms(1,2)] by (auto simp: balanced_def dest: in_diffD)
qed

lemma balanced_place:
  assumes "balanced B H" and "cells B a = None" and "(q, None) \<in># H"
  shows "balanced (put a q B) (H - {#(q, None)#})"
proof (rule balancedI)
  fix r :: usize assume r: "r \<noteq> 0"
  show "total (put a q B) r = stored (put a q B) r + held (H - {#(q, None)#}) r"
    using balanced_total[OF assms(1) r] stored_place[OF assms(2), of q r]
      held_remove[OF assms(3), of r] held_pos[OF assms(3)] by (simp split: if_splits)
next
  fix d r assume "(d, r) \<in> owed (put a q B)"
  then have dr: "(d, r) \<in> owed B" by simp
  obtain b where b: "cells B b = Some r" using balanced_debt(2)[OF assms(1) dr] by blast
  then have "b \<noteq> a" using assms(2) by auto
  then show "(r, Some d) \<in># H - {#(q, None)#} \<and> (\<exists>b. cells (put a q B) b = Some r)"
    using b balanced_debt(1)[OF assms(1) dr] mset_keep[of "(r, Some d)" H "(q, None)"] by auto
next
  show "finite (owed (put a q B))" using assms(1) by (simp add: balanced_def)
  show "cells (put a q B) b \<noteq> Some NONE" for b
    using assms balanced_not_NONE(2)[OF assms(1,3)] by (simp add: balanced_def)
  show "(NONE, y) \<notin># H - {#(q, None)#}" for y using assms by (auto simp: balanced_def dest: in_diffD)
qed

lemma balanced_take_out:
  assumes "balanced B H" and "cells B a = Some p"
  shows "balanced (take_out a (paid_off p B)) (add_mset (p, None) H)"
proof (rule balancedI)
  fix r :: usize assume r: "r \<noteq> 0"
  have "stored (take_out a (paid_off p B)) r + (if r = p then 1 else 0) = stored (paid_off p B) r"
    using assms(2) by (intro stored_take_out) simp
  moreover have "stored (paid_off p B) r = stored B r" by (rule stored_cong) simp
  ultimately show "total (take_out a (paid_off p B)) r =
      stored (take_out a (paid_off p B)) r + held (add_mset (p, None) H) r"
    using total_paid_off[OF r, of p B] balanced_total[OF assms(1) r] by (simp split: if_splits)
next
  fix d r assume "(d, r) \<in> owed (take_out a (paid_off p B))"
  then have dr: "(d, r) \<in> owed B" "r \<noteq> p" by auto
  obtain b where b: "cells B b = Some r" using balanced_debt(2)[OF assms(1) dr(1)] by blast
  then have "b \<noteq> a" using assms(2) dr(2) by auto
  then show "(r, Some d) \<in># add_mset (p, None) H \<and> (\<exists>b. cells (take_out a (paid_off p B)) b = Some r)"
    using b balanced_debt(1)[OF assms(1) dr(1)] by auto
next
  show "finite (owed (take_out a (paid_off p B)))" using assms(1) by (simp add: balanced_def)
  show "cells (take_out a (paid_off p B)) b \<noteq> Some NONE" for b using assms by (simp add: balanced_def)
  show "(NONE, y) \<notin># add_mset (p, None) H" for y
    using assms balanced_not_NONE(1)[OF assms] by (auto simp: balanced_def)
qed

lemma balanced_clone:
  assumes "balanced B H" and "(p, x) \<in># H"
  shows "balanced (bump p 1 B) (add_mset (p, None) H)"
proof (rule balancedI)
  fix r :: usize assume r: "r \<noteq> 0"
  have "stored (bump p 1 B) r = stored B r" by (rule stored_cong) simp
  then show "total (bump p 1 B) r = stored (bump p 1 B) r + held (add_mset (p, None) H) r"
    using total_bump[OF r, of p 1 B] balanced_total[OF assms(1) r] by simp
qed (use assms balanced_not_NONE(2)[OF assms] balanced_debt[OF assms(1)] in \<open>auto simp: balanced_def\<close>)

lemma balanced_null: "balanced B H \<Longrightarrow> balanced B (add_mset (0, None) H)"
  by (auto simp: balanced_def NONE_def)

lemma balanced_alloc:
  assumes "balanced B H" and "q \<noteq> 0" and "q \<noteq> NONE" and "counts B q = 0"
  shows "balanced (B\<lparr>counts := (counts B)(q := 1), vals := f\<rparr>) (add_mset (q, None) H)"
proof (rule balancedI)
  let ?B = "B\<lparr>counts := (counts B)(q := 1), vals := f\<rparr>"
  fix r :: usize assume r: "r \<noteq> 0"
  have "stored ?B r = stored B r" by (rule stored_cong) simp
  moreover have "total ?B r = total B r + (if r = q then 1 else 0)"
    using assms(4) by (simp add: total_def debts_on_def)
  ultimately show "total ?B r = stored ?B r + held (add_mset (q, None) H) r"
    using balanced_total[OF assms(1) r] by simp
qed (use assms balanced_debt[OF assms(1)] in \<open>auto simp: balanced_def\<close>)

end
