(* ===== verification/Account.thy ===== *)
theory Account
  imports Ownership
begin

text \<open>
  The account of references while operations are under way. Here a claim is anything entitled to a
  reference: a handle of the program, or a reference or debt in the hands of a thread in the middle of
  an operation. As in \<open>Ownership\<close> the references of the books match the storages and the claims one to
  one and every debt on record belongs to a claim that carries its slot; that a debt is safe (some
  reference keeps its pointer alive) is no longer part of the account, because a reader may have
  written a debt it has not confirmed yet.
\<close>

definition account :: "'v books \<Rightarrow> handles \<Rightarrow> bool" where
  "account B H \<longleftrightarrow> finite (owed B) \<and>
     (\<forall>p. p \<noteq> 0 \<longrightarrow> total B p = stored B p + held H p) \<and>
     (\<forall>d p. (d, p) \<in> owed B \<longrightarrow> (p, Some d) \<in># H) \<and>
     (\<forall>a. cells B a \<noteq> Some NONE) \<and> (\<forall>x. (NONE, x) \<notin># H)"

lemma accountI:
  assumes "finite (owed B)" and "\<And>p. p \<noteq> 0 \<Longrightarrow> total B p = stored B p + held H p"
    and "\<And>d p. (d, p) \<in> owed B \<Longrightarrow> (p, Some d) \<in># H"
    and "\<And>a. cells B a \<noteq> Some NONE" and "\<And>x. (NONE, x) \<notin># H"
  shows "account B H"
  using assms by (simp add: account_def)

lemma account_total: "account B H \<Longrightarrow> p \<noteq> 0 \<Longrightarrow> total B p = stored B p + held H p"
  by (simp add: account_def)

lemma account_debt: "account B H \<Longrightarrow> (d, p) \<in> owed B \<Longrightarrow> (p, Some d) \<in># H"
  by (simp add: account_def)

lemma account_finite: "account B H \<Longrightarrow> finite (debts_on B p)"
  by (simp add: account_def finite_debts_on)

lemma account_not_NONE:
  assumes "account B H"
  shows "cells B a = Some p \<Longrightarrow> p \<noteq> NONE" and "(p, x) \<in># H \<Longrightarrow> p \<noteq> NONE"
  using assms by (auto simp: account_def)

section \<open>What keeps a pointer alive\<close>

text \<open>The debts on a pointer use up at most the claims that carry their slots.\<close>

lemma debts_le:
  assumes "\<And>d. d \<in> D \<Longrightarrow> (p, Some d) \<in># H" and "finite D"
  shows "card D \<le> held H p"
proof -
  let ?F = "filter_mset (\<lambda>h. fst h = p) H"
  have "(\<lambda>d. (p, Some d)) ` D \<subseteq> set_mset ?F" using assms(1) by auto
  then have "card ((\<lambda>d. (p, Some d)) ` D) \<le> card (set_mset ?F)" by (intro card_mono) auto
  moreover have "card ((\<lambda>d. (p, Some d)) ` D) = card D" by (rule card_image) (simp add: inj_on_def)
  moreover have "card (set_mset ?F) \<le> size ?F" by (rule card_set_mset_size)
  ultimately show ?thesis by (simp add: held_def)
qed

lemma account_stored_counted: "account B H \<Longrightarrow> p \<noteq> 0 \<Longrightarrow> stored B p \<le> counts B p"
  using debts_le[of "debts_on B p" p H] account_total[of B H p] account_finite[of B H p]
  by (simp add: total_def debts_on_def account_debt)

lemma account_alive_stored: "account B H \<Longrightarrow> p \<noteq> 0 \<Longrightarrow> cells B a = Some p \<Longrightarrow> 0 < counts B p"
  using account_stored_counted[of B H p] stored_pos[of B a p] by simp

text \<open>A claim that no debt needs stands for a counted reference.\<close>

lemma account_alive_claim:
  assumes "account B H" and "p \<noteq> 0" and "(p, x) \<in># H"
    and "\<And>d. x = Some d \<Longrightarrow> (d, p) \<in> owed B \<Longrightarrow> 2 \<le> count H (p, x)"
  shows "0 < counts B p"
proof -
  have "(p, Some d) \<in># H - {#(p, x)#}" if "d \<in> debts_on B p" for d
  proof (cases "x = Some d")
    case True
    then have "2 \<le> count H (p, x)" using assms(4) that by (simp add: debts_on_def)
    then show ?thesis using True by (simp add: in_diff_count)
  next
    case False
    then show ?thesis using account_debt[OF assms(1)] that by (auto simp: debts_on_def intro: mset_keep)
  qed
  then have "card (debts_on B p) \<le> held (H - {#(p, x)#}) p"
    by (rule debts_le[OF _ account_finite[OF assms(1)]])
  then show ?thesis
    using account_total[OF assms(1,2)] held_remove[OF assms(3), of p] held_pos[OF assms(3)]
    by (simp add: total_def)
qed

lemma account_alive_owner: "account B H \<Longrightarrow> p \<noteq> 0 \<Longrightarrow> (p, None) \<in># H \<Longrightarrow> 0 < counts B p"
  by (rule account_alive_claim) auto

lemma account_alive_paid:
  "account B H \<Longrightarrow> p \<noteq> 0 \<Longrightarrow> (p, Some d) \<in># H \<Longrightarrow> (d, p) \<notin> owed B \<Longrightarrow> 0 < counts B p"
  by (rule account_alive_claim) auto

section \<open>Movements\<close>

text \<open>A debt is written into a free slot.\<close>

lemma account_write:
  assumes "account B H" and "\<And>q. (d, q) \<notin> owed B" and "p \<noteq> NONE"
  shows "account (acquired p (Some d) B) (add_mset (p, Some d) H)"
proof (rule accountI)
  fix q :: usize assume q: "q \<noteq> 0"
  have "total (acquired p (Some d) B) q = total B q + (if q = p then 1 else 0)"
    using q account_finite[OF assms(1)] assms(2) by (intro total_acquired) auto
  then show "total (acquired p (Some d) B) q = stored (acquired p (Some d) B) q + held (add_mset (p, Some d) H) q"
    using account_total[OF assms(1) q] stored_cong[of "acquired p (Some d) B" B q] by simp
qed (use assms account_debt[OF assms(1)] in \<open>auto simp: account_def\<close>)

text \<open>A debt is paid: one claim on the pointer goes, either the one that carried the slot or a
  reference somebody had set aside for it.\<close>

lemma account_pay:
  assumes "account B H" and "(d, p) \<in> owed B" and "\<And>q. (d, q) \<in> owed B \<Longrightarrow> q = p"
    and "(p, x) \<in># H" and "x = None \<or> x = Some d"
  shows "account (B\<lparr>owed := owed B - {(d, p)}\<rparr>) (H - {#(p, x)#})"
proof (rule accountI)
  let ?B = "B\<lparr>owed := owed B - {(d, p)}\<rparr>"
  fix q :: usize assume q: "q \<noteq> 0"
  have "card (debts_on ?B q) = card (debts_on B q) - (if q = p then 1 else 0)"
    using card_debts_on_remove[OF account_finite[OF assms(1)] assms(2)] .
  then have "total ?B q = total B q - (if q = p then 1 else 0)"
    using card_debts_on_pos[OF account_finite[OF assms(1)] assms(2)] by (auto simp: total_def)
  then show "total ?B q = stored ?B q + held (H - {#(p, x)#}) q"
    using account_total[OF assms(1) q] stored_cong[of ?B B q] held_remove[OF assms(4), of q]
      held_pos[OF assms(4)] by (simp split: if_splits)
next
  fix e q assume e: "(e, q) \<in> owed (B\<lparr>owed := owed B - {(d, p)}\<rparr>)"
  then have "(q, Some e) \<in># H" "(q, Some e) \<noteq> (p, x)" using account_debt[OF assms(1)] assms(3,5) by auto
  then show "(q, Some e) \<in># H - {#(p, x)#}" by (rule mset_keep)
qed (use assms(1) in \<open>auto simp: account_def dest: in_diffD\<close>)

text \<open>A claim whose slot does not owe the pointer any more is an ordinary reference.\<close>

lemma account_relabel:
  assumes "account B H" and "(p, Some d) \<in># H" and "(d, p) \<notin> owed B"
  shows "account B (add_mset (p, None) (H - {#(p, Some d)#}))"
proof (rule accountI)
  fix q :: usize assume q: "q \<noteq> 0"
  show "total B q = stored B q + held (add_mset (p, None) (H - {#(p, Some d)#})) q"
    using account_total[OF assms(1) q] held_remove[OF assms(2), of q] held_pos[OF assms(2)]
    by (simp split: if_splits)
next
  fix e q assume e: "(e, q) \<in> owed B"
  then have "(q, Some e) \<noteq> (p, Some d)" using assms(3) by auto
  then show "(q, Some e) \<in># add_mset (p, None) (H - {#(p, Some d)#})"
    using mset_keep[OF account_debt[OF assms(1) e]] by simp
qed (use assms(1) account_not_NONE(2)[OF assms(1,2)] in \<open>auto simp: account_def dest: in_diffD\<close>)

lemma account_inc:
  assumes "account B H" and "p \<noteq> NONE"
  shows "account (bump p 1 B) (add_mset (p, None) H)"
proof (rule accountI)
  fix r :: usize assume r: "r \<noteq> 0"
  have "stored (bump p 1 B) r = stored B r" by (rule stored_cong) simp
  then show "total (bump p 1 B) r = stored (bump p 1 B) r + held (add_mset (p, None) H) r"
    using total_bump[OF r, of p 1 B] account_total[OF assms(1) r] by simp
qed (use assms account_debt[OF assms(1)] in \<open>auto simp: account_def\<close>)

lemma account_dec:
  assumes "account B H" and "(p, None) \<in># H"
  shows "account (unref p B) (H - {#(p, None)#})"
proof (rule accountI)
  fix q :: usize assume q: "q \<noteq> 0"
  have "p = 0 \<or> 0 < counts B p" using account_alive_owner[OF assms(1) _ assms(2)] by (cases "p = 0") simp_all
  then have "total (released p None B) q = total B q - (if q = p then 1 else 0)"
    using q account_finite[OF assms(1)] by (intro total_released) auto
  then show "total (unref p B) q = stored (unref p B) q + held (H - {#(p, None)#}) q"
    using account_total[OF assms(1) q] stored_cong[of "unref p B" B q] held_remove[OF assms(2), of q]
      held_pos[OF assms(2)] by (simp split: if_splits)
next
  fix e q assume "(e, q) \<in> owed (unref p B)"
  then show "(q, Some e) \<in># H - {#(p, None)#}" using account_debt[OF assms(1)] by (auto intro: mset_keep)
qed (use assms in \<open>auto simp: account_def dest: in_diffD\<close>)

lemma account_put:
  assumes "account B H" and "cells B a = Some p" and "(q, None) \<in># H"
  shows "account (put a q B) (add_mset (p, None) (H - {#(q, None)#}))"
proof (rule accountI)
  fix r :: usize assume r: "r \<noteq> 0"
  show "total (put a q B) r = stored (put a q B) r + held (add_mset (p, None) (H - {#(q, None)#})) r"
    using account_total[OF assms(1) r] stored_put[OF assms(2), of q r]
      held_remove[OF assms(3), of r] held_pos[OF assms(3)] by (simp split: if_splits)
next
  fix e r assume "(e, r) \<in> owed (put a q B)"
  then show "(r, Some e) \<in># add_mset (p, None) (H - {#(q, None)#})"
    using account_debt[OF assms(1)] by (auto intro: mset_keep)
qed (use assms account_not_NONE[OF assms(1)] in \<open>auto simp: account_def dest: in_diffD\<close>)

lemma account_place:
  assumes "account B H" and "cells B a = None" and "(q, None) \<in># H"
  shows "account (put a q B) (H - {#(q, None)#})"
proof (rule accountI)
  fix r :: usize assume r: "r \<noteq> 0"
  show "total (put a q B) r = stored (put a q B) r + held (H - {#(q, None)#}) r"
    using account_total[OF assms(1) r] stored_place[OF assms(2), of q r]
      held_remove[OF assms(3), of r] held_pos[OF assms(3)] by (simp split: if_splits)
next
  fix e r assume "(e, r) \<in> owed (put a q B)"
  then show "(r, Some e) \<in># H - {#(q, None)#}" using account_debt[OF assms(1)] by (auto intro: mset_keep)
qed (use assms account_not_NONE[OF assms(1)] in \<open>auto simp: account_def dest: in_diffD\<close>)

lemma account_alloc:
  assumes "account B H" and "q \<noteq> 0" and "q \<noteq> NONE" and "counts B q = 0"
  shows "account (B\<lparr>counts := (counts B)(q := 1), vals := f\<rparr>) (add_mset (q, None) H)"
proof (rule accountI)
  let ?B = "B\<lparr>counts := (counts B)(q := 1), vals := f\<rparr>"
  fix r :: usize assume r: "r \<noteq> 0"
  have "stored ?B r = stored B r" by (rule stored_cong) simp
  moreover have "total ?B r = total B r + (if r = q then 1 else 0)"
    using assms(4) by (simp add: total_def debts_on_def)
  ultimately show "total ?B r = stored ?B r + held (add_mset (q, None) H) r"
    using account_total[OF assms(1) r] by simp
qed (use assms account_debt[OF assms(1)] in \<open>auto simp: account_def\<close>)

lemma account_null: "account B H \<Longrightarrow> account B (add_mset (0, None) H)"
  by (auto simp: account_def NONE_def)

end
