(* ===== verification/System.thy ===== *)
theory System
  imports Ownership
begin

text \<open>
  A program with many threads that uses storages of a nullable pointer type through the public interface, one
  complete call at a time. The state is the shared memory, the \<open>LocalNode\<close> of every thread and the
  multiset of handles the program holds (a handle may be passed between threads). A call runs the
  modelled function in the world of its thread.

  Every reachable state is balanced, no two threads hold the same node, and no call ever faults: no
  assertion fails, no freed value is touched, no index leaves its array.
\<close>

record 'v sys =
  mem :: "'v shared"
  thr :: "nat \<Rightarrow> LocalNode"
  hnd :: handles

definition in_thread :: "nat \<Rightarrow> nat \<Rightarrow> bool list \<Rightarrow> 'v sys \<Rightarrow> 'v world" where
  "in_thread t k ws Z =
     \<lparr>sh = mem Z, loc = thr Z t, tls_alive = True, sched = [], weak_cas = ws, fuel = k\<rparr>"

text \<open>The calls a client can make. A handle is named by its pointer and slot.\<close>

datatype 'v call =
    Null
  | Alloc 'v
  | Clone handle
  | DropHandle handle
  | IntoInner handle
  | Place usize handle
  | Load usize
  | Store usize handle
  | Swap usize handle
  | CompareAndSwap usize usize handle
  | TakeStorage usize
  | DropStorage usize
  | Exit

definition guard_of :: "('t, 'v) RefCnt \<Rightarrow> handle \<Rightarrow> 't HybridProtection Guard" where
  "guard_of T h = \<lparr>inner = hp_new T (fst h) (snd h)\<rparr>"

text \<open>What a call does: the modelled function, and the handles the client has afterwards.\<close>

fun perform :: "('t, 'v) RefCnt \<Rightarrow> Config \<Rightarrow> 'v call \<Rightarrow> handles \<Rightarrow> ('v, handles) prog" where
  "perform T cfg Null H = ret (add_mset (0, None) H)"
| "perform T cfg (Alloc v) H = bnd (arc_new v) (\<lambda>x. ret (add_mset (arc_into_raw x, None) H))"
| "perform T cfg (Clone h) H = bnd (clone_val T (from_ptr T (fst h))) (\<lambda>_. ret (add_mset (fst h, None) H))"
| "perform T cfg (DropHandle h) H = bnd (guard_drop (hybrid_Strategy T cfg) (guard_of T h)) (\<lambda>_. ret (H - {#h#}))"
| "perform T cfg (IntoInner h) H =
     bnd (guard_into_inner (hybrid_Strategy T cfg) (guard_of T h)) (\<lambda>x.
     ret (add_mset (into_ptr T x, None) (H - {#h#})))"
| "perform T cfg (Place a h) H = bnd (any_new T a (from_ptr T (fst h))) (\<lambda>_. ret (H - {#h#}))"
| "perform T cfg (Load a) H =
     bnd (any_load (hybrid_Strategy T cfg) a) (\<lambda>g.
     ret (add_mset (hp_as_ptr T (inner g), hp_debt (inner g)) H))"
| "perform T cfg (Store a h) H = bnd (any_store T (hybrid_Strategy T cfg) a (from_ptr T (fst h))) (\<lambda>_. ret (H - {#h#}))"
| "perform T cfg (Swap a h) H =
     bnd (any_swap T (hybrid_Strategy T cfg) a (from_ptr T (fst h))) (\<lambda>x.
     ret (add_mset (into_ptr T x, None) (H - {#h#})))"
| "perform T cfg (CompareAndSwap a c h) H =
     bnd (any_compare_and_swap (hybrid_Strategy T cfg) a (RawConst c) (from_ptr T (fst h))) (\<lambda>g.
     ret (add_mset (hp_as_ptr T (inner g), hp_debt (inner g)) (H - {#h#})))"
| "perform T cfg (TakeStorage a) H =
     bnd (any_into_inner T (hybrid_Strategy T cfg) a) (\<lambda>x. ret (add_mset (into_ptr T x, None) H))"
| "perform T cfg (DropStorage a) H = bnd (any_drop T (hybrid_Strategy T cfg) a) (\<lambda>_. ret H)"
| "perform T cfg Exit H =
     bnd local_drop (\<lambda>_. bnd (modify_loc (\<lambda>_. local_default)) (\<lambda>_. ret H))"

text \<open>What the language and the allocator guarantee before a call: the handles used exist and those
  moved in are full references, a storage used exists, a new one goes to a free place, fresh memory is
  fresh. The thread has a node or memory for one, and its generation counter has not run out.\<close>

fun may_call :: "'v call \<Rightarrow> 'v sys \<Rightarrow> bool" where
  "may_call Null Z \<longleftrightarrow> True"
| "may_call (Alloc v) Z \<longleftrightarrow>
     (case arc_supply (mem Z) of [] \<Rightarrow> False | p # _ \<Rightarrow> p \<noteq> 0 \<and> p \<noteq> NONE \<and> heap (mem Z) p = None)"
| "may_call (Clone h) Z \<longleftrightarrow> h \<in># hnd Z"
| "may_call (DropHandle h) Z \<longleftrightarrow> h \<in># hnd Z"
| "may_call (IntoInner h) Z \<longleftrightarrow> h \<in># hnd Z"
| "may_call (Place a h) Z \<longleftrightarrow> h \<in># hnd Z \<and> snd h = None \<and> storage (mem Z) a = None"
| "may_call (Load a) Z \<longleftrightarrow> storage (mem Z) a \<noteq> None"
| "may_call (Store a h) Z \<longleftrightarrow> storage (mem Z) a \<noteq> None \<and> h \<in># hnd Z \<and> snd h = None"
| "may_call (Swap a h) Z \<longleftrightarrow> storage (mem Z) a \<noteq> None \<and> h \<in># hnd Z \<and> snd h = None"
| "may_call (CompareAndSwap a c h) Z \<longleftrightarrow> storage (mem Z) a \<noteq> None \<and> h \<in># hnd Z \<and> snd h = None"
| "may_call (TakeStorage a) Z \<longleftrightarrow> storage (mem Z) a \<noteq> None"
| "may_call (DropStorage a) Z \<longleftrightarrow> storage (mem Z) a \<noteq> None"
| "may_call Exit Z \<longleftrightarrow> True"

definition resources :: "nat \<Rightarrow> nat \<Rightarrow> bool list \<Rightarrow> 'v sys \<Rightarrow> bool" where
  "resources t k ws Z \<longleftrightarrow> spurious_left (in_thread t k ws Z) < k \<and>
     spurious_left (in_thread t k ws Z) < gens_left (in_thread t k ws Z) \<and>
     (node (thr Z t) = None \<longrightarrow> box_available (mem Z))"

section \<open>Runs\<close>

definition boot_mem :: "(usize \<times> usize) list \<Rightarrow> usize list \<Rightarrow> 'v shared" where
  "boot_mem boxes arcs =
     \<lparr>heap = Map.empty, envelopes = Map.empty, storage = Map.empty, nodes = Map.empty, list_head = 0,
      node_cnt = 0, box_supply = boxes, arc_supply = arcs, rw_readers = (\<lambda>_. 0), rw_writer = (\<lambda>_. False)\<rparr>"

definition boot :: "(usize \<times> usize) list \<Rightarrow> usize list \<Rightarrow> 'v sys" where
  "boot boxes arcs = \<lparr>mem = boot_mem boxes arcs, thr = (\<lambda>_. local_default), hnd = {#}\<rparr>"

inductive reachable :: "('t, 'v) RefCnt \<Rightarrow> Config \<Rightarrow> 'v sys \<Rightarrow> bool" for T cfg where
  start: "reachable T cfg (boot boxes arcs)"
| call: "reachable T cfg Z \<Longrightarrow> may_call c Z \<Longrightarrow> resources t k ws Z \<Longrightarrow>
         perform T cfg c (hnd Z) (in_thread t k ws Z) = (Inr H, w') \<Longrightarrow>
         reachable T cfg \<lparr>mem = sh w', thr = (thr Z)(t := loc w'), hnd = H\<rparr>"

section \<open>The invariant\<close>

definition sys_ok :: "('v heap \<Rightarrow> usize \<Rightarrow> nat) \<Rightarrow> 'v sys \<Rightarrow> bool" where
  "sys_ok cnt Z \<longleftrightarrow> (\<exists>ns. chained (mem Z) ns) \<and> quiet (mem Z) \<and> (\<forall>t. local_ok (mem Z) (thr Z t)) \<and>
     (\<forall>t u n. node (thr Z t) = Some n \<and> node (thr Z u) = Some n \<longrightarrow> t = u) \<and>
     balanced (view cnt (mem Z)) (hnd Z) \<and>
     (\<forall>p d. (p, Some d) \<in># hnd Z \<longrightarrow> slot_get (mem Z) d \<noteq> None)"

lemma boot_fields [simp]:
  "heap (boot_mem boxes arcs) = Map.empty" "storage (boot_mem boxes arcs) = Map.empty"
  "nodes (boot_mem boxes arcs) = Map.empty" "list_head (boot_mem boxes arcs) = 0"
  "node_cnt (boot_mem boxes arcs) = 0" "box_supply (boot_mem boxes arcs) = boxes"
  "arc_supply (boot_mem boxes arcs) = arcs" "envelopes (boot_mem boxes arcs) = Map.empty"
  by (simp_all add: boot_mem_def)

lemma no_nodes_owed: "nodes s = Map.empty \<Longrightarrow> owed_of s = {}"
proof -
  assume a: "nodes s = Map.empty"
  have "slot_get s d \<noteq> Some p" for d p using a by (cases d) auto
  then show ?thesis by (simp add: owed_of_def)
qed

lemma boot_ok:
  assumes "\<And>p. cnt Map.empty p = 0"
  shows "sys_ok cnt (boot boxes arcs)"
proof -
  have "balanced (view cnt (boot_mem boxes arcs)) {#}"
    using assms by (intro balancedI) (auto simp: total_def stored_def held_def debts_on_def no_nodes_owed)
  moreover have "chained (boot_mem boxes arcs) []" by (simp add: chained_def)
  ultimately show ?thesis
    by (auto simp: sys_ok_def boot_def quiet_def local_ok_def local_default_def)
qed

lemma sys_settled: "sys_ok cnt Z \<Longrightarrow> resources t k ws Z \<Longrightarrow> settled (in_thread t k ws Z)"
  by (auto simp: sys_ok_def resources_def settled_def in_thread_def solo_def)

text \<open>A call that makes progress in its thread and keeps the account keeps the invariant.\<close>

lemma sys_step:
  assumes "sys_ok cnt Z" and "progress j (in_thread t k ws Z) w'" and "balanced (view cnt (sh w')) H"
    and "\<And>p d. (p, Some d) \<in># H \<Longrightarrow> slot_get (sh w') d \<noteq> None"
  shows "sys_ok cnt \<lparr>mem = sh w', thr = (thr Z)(t := loc w'), hnd = H\<rparr>"
proof -
  have pr: "settled w'" "used_nodes (mem Z) \<subseteq> used_nodes (sh w')"
      "\<And>n. node (loc w') = Some n \<Longrightarrow> node (thr Z t) = Some n \<or> n \<notin> used_nodes (mem Z)"
    using assms(2) by (auto simp: progress_def in_thread_def)
  have used: "n \<in> used_nodes (mem Z)" if "node (thr Z u) = Some n" for u n
    using assms(1) that by (auto simp: sys_ok_def local_ok_def used_nodes_def)
  have "local_ok (sh w') (thr Z u)" for u
  proof -
    have "local_ok (mem Z) (thr Z u)" using assms(1) by (simp add: sys_ok_def)
    then show ?thesis using pr(2) by (fastforce simp: local_ok_def used_nodes_def)
  qed
  then have "local_ok (sh w') (((thr Z)(t := loc w')) u)" for u
    using pr(1) by (simp add: settled_def)
  moreover have "u = v" if "node (((thr Z)(t := loc w')) u) = Some n" "node (((thr Z)(t := loc w')) v) = Some n" for u v n
  proof -
    have excl: "x = y" if "node (thr Z x) = Some n" "node (thr Z y) = Some n" for x y
      using assms(1) that unfolding sys_ok_def by blast
    show ?thesis using that excl used pr(3) by (auto split: if_splits)
  qed
  ultimately show ?thesis using assms(3,4) pr(1) unfolding sys_ok_def settled_def sys.simps by blast
qed

section \<open>No call faults\<close>

text \<open>
  The pointer types this is about: nullable, and counting one reference for a value that was just
  allocated.
\<close>

locale shared_cnt = ref_cnt T cnt up down valid nullable
  for T :: "('t, 'v) RefCnt" and cnt up down valid nullable +
  assumes null_ok: nullable
    and cnt_empty: "cnt Map.empty p = 0"
    and cnt_alloc: "q \<noteq> 0 \<Longrightarrow> h q = None \<Longrightarrow>
          cnt (h(q \<mapsto> \<lparr>strong = 1, weak = 0, payload = v\<rparr>)) p = (if p = q then 1 else cnt h p)"
    and cnt_free: "h q = None \<Longrightarrow> cnt h q = 0"

definition call_ok :: "('v heap \<Rightarrow> usize \<Rightarrow> nat) \<Rightarrow> ('t, 'v) RefCnt \<Rightarrow> Config \<Rightarrow> 'v call \<Rightarrow> 'v sys \<Rightarrow> 'v world \<Rightarrow> nat \<Rightarrow> bool" where
  "call_ok cnt T cfg c Z w t \<longleftrightarrow> (\<exists>H w'. perform T cfg c (hnd Z) w = (Inr H, w') \<and>
     sys_ok cnt \<lparr>mem = sh w', thr = (thr Z)(t := loc w'), hnd = H\<rparr>)"

lemma in_thread_fields [simp]:
  "sh (in_thread t k ws Z) = mem Z" "loc (in_thread t k ws Z) = thr Z t" "solo (in_thread t k ws Z)"
  by (simp_all add: in_thread_def solo_def)

lemma sys_protects:
  "sys_ok cnt Z \<Longrightarrow> h \<in># hnd Z \<Longrightarrow> protects T (mem Z) (fst h) (inner (guard_of T h))"
  by (cases h) (auto simp: sys_ok_def protects_def guard_of_def hp_new_def)

lemma protects_slot: "protects T s p g \<Longrightarrow> Some d = hp_debt g \<Longrightarrow> slot_get s d \<noteq> None"
  by (simp add: protects_def)

context shared_cnt
begin

lemma into_from_any [simp]: "into_ptr T (from_ptr T p) = p"
  by (rule into_from) (simp add: null_ok)

lemma valid_from_any [simp]: "valid (from_ptr T p)"
  by (rule valid_from) (simp add: null_ok)

lemma as_ptr_any: "protects T s p g \<Longrightarrow> hp_as_ptr T g = p"
  by (rule hp_as_ptr_protects) (simp_all add: null_ok)

lemmas load_fact = strategy.any_load_ok[OF hybrid_strategy]

lemmas swap_fact = strategy.any_swap_ok[OF hybrid_strategy]

lemmas store_fact = strategy.any_store_ok[OF hybrid_strategy]

lemmas cas_fact = strategy.any_compare_and_swap_ok[OF hybrid_strategy]

lemmas take_fact = strategy.any_into_inner_ok[OF hybrid_strategy]

lemmas drop_fact = strategy.any_drop_ok[OF hybrid_strategy]

text \<open>What the invariant gives to a call: the pointers in storages and handles are alive.\<close>

lemma sys_live:
  assumes "sys_ok cnt Z" and "storage (mem Z) a = Some p \<or> (p, x) \<in># hnd Z"
  shows "live (heap (mem Z)) p" and "p \<noteq> NONE"
proof -
  have b: "balanced (view cnt (mem Z)) (hnd Z)" using assms(1) by (simp add: sys_ok_def)
  show "live (heap (mem Z)) p"
    using balanced_alive[OF b, of p] assms(2) by (cases "p = 0") (auto simp: live_ptr_def null_ok)
  show "p \<noteq> NONE" using balanced_not_NONE[OF b] assms(2) by auto
qed

lemma sys_holds:
  "sys_ok cnt Z \<Longrightarrow> resources t k ws Z \<Longrightarrow> storage (mem Z) a = Some p \<Longrightarrow>
   settled (in_thread t k ws Z) \<and> holds_ptr nullable cnt a p (in_thread t k ws Z)"
  using sys_settled[of cnt Z t k ws] sys_live[of Z a p] by (simp add: holds_ptr_def in_thread_def)

text \<open>The common case: the modelled function returned, made progress and moved handles around.\<close>

lemma call_okI:
  assumes "sys_ok cnt Z" and "perform T cfg c (hnd Z) (in_thread t k ws Z) = (Inr H, w')"
    and "progress j (in_thread t k ws Z) w'" and "balanced (view cnt (sh w')) H"
    and "\<And>p d. (p, Some d) \<in># H \<Longrightarrow> (p, Some d) \<in># hnd Z \<or> slot_get (sh w') d \<noteq> None"
  shows "call_ok cnt T cfg c Z (in_thread t k ws Z) t"
proof -
  have "slot_get (sh w') d \<noteq> None" if "(p, Some d) \<in># H" for p d
    using assms(1,3) assms(5)[OF that] by (auto simp: sys_ok_def progress_def)
  then show ?thesis using sys_step[OF assms(1,3,4)] assms(2) unfolding call_ok_def by blast
qed

lemma load_call:
  assumes "sys_ok cnt Z" and "resources t k ws Z" and "storage (mem Z) a = Some p"
  shows "call_ok cnt T cfg (Load a) Z (in_thread t k ws Z) t"
proof -
  let ?w = "in_thread t k ws Z"
  have b: "balanced (view cnt (mem Z)) (hnd Z)" using assms(1) by (simp add: sys_ok_def)
  have g: "0 < gens_left ?w" using assms(2) by (simp add: resources_def)
  obtain g w' where r: "any_load (hybrid_Strategy T cfg) a ?w = (Inr g, w')" "progress 1 ?w w'"
      "settled w' \<and> holds_ptr nullable cnt a p w'"
      "protects T (sh w') p (inner g)" "fresh_debt (view cnt (mem Z)) (hp_debt (inner g))"
      "view cnt (sh w') = acquired p (hp_debt (inner g)) (view cnt (mem Z))"
    using load_fact[OF sys_holds[OF assms] g, where cfg = cfg] unfolding in_thread_fields .
  have "balanced (view cnt (sh w')) (add_mset (p, hp_debt (inner g)) (hnd Z))"
    unfolding r(6) using assms(3) r(5) by (intro balanced_acquired[OF b]) simp_all
  moreover have "perform T cfg (Load a) (hnd Z) ?w = (Inr (add_mset (p, hp_debt (inner g)) (hnd Z)), w')"
    using r(1) as_ptr_any[OF r(4)] by (simp add: bnd_apply)
  moreover have "(q, Some d) \<in># hnd Z \<or> slot_get (sh w') d \<noteq> None"
    if "(q, Some d) \<in># add_mset (p, hp_debt (inner g)) (hnd Z)" for q d
    using that protects_slot[OF r(4), of d] by auto
  ultimately show ?thesis by (intro call_okI[OF assms(1) _ r(2)])
qed

lemma swap_call:
  assumes "sys_ok cnt Z" and "resources t k ws Z" and "storage (mem Z) a = Some p" and "(q, None) \<in># hnd Z"
  shows "call_ok cnt T cfg (Swap a (q, None)) Z (in_thread t k ws Z) t"
proof -
  let ?w = "in_thread t k ws Z"
  have b: "balanced (view cnt (mem Z)) (hnd Z)" using assms(1) by (simp add: sys_ok_def)
  obtain w' where r: "any_swap T (hybrid_Strategy T cfg) a (from_ptr T q) ?w = (Inr (from_ptr T p), w')"
      "progress 0 ?w w'" "settled w'" "view cnt (sh w') = paid_off p (put a q (view cnt (mem Z)))"
    using swap_fact[OF sys_holds[OF assms(1-3)], where cfg = cfg and new = "from_ptr T q"]
    unfolding in_thread_fields into_from_any .
  have "balanced (view cnt (sh w')) (add_mset (p, None) (hnd Z - {#(q, None)#}))"
    unfolding r(4) using assms(3,4) by (intro balanced_swap[OF b]) simp_all
  moreover have "perform T cfg (Swap a (q, None)) (hnd Z) ?w = (Inr (add_mset (p, None) (hnd Z - {#(q, None)#})), w')"
    using r(1) by (simp add: bnd_apply)
  moreover have "(s, Some d) \<in># hnd Z \<or> slot_get (sh w') d \<noteq> None"
    if "(s, Some d) \<in># add_mset (p, None) (hnd Z - {#(q, None)#})" for s d
    using that by (auto dest: in_diffD)
  ultimately show ?thesis by (intro call_okI[OF assms(1) _ r(2)])
qed

lemma store_call:
  assumes "sys_ok cnt Z" and "resources t k ws Z" and "storage (mem Z) a = Some p" and "(q, None) \<in># hnd Z"
  shows "call_ok cnt T cfg (Store a (q, None)) Z (in_thread t k ws Z) t"
proof -
  let ?w = "in_thread t k ws Z" and ?H = "hnd Z - {#(q, None)#}"
  have b: "balanced (view cnt (mem Z)) (hnd Z)" using assms(1) by (simp add: sys_ok_def)
  obtain w' where r: "any_store T (hybrid_Strategy T cfg) a (from_ptr T q) ?w = (Inr (), w')" "progress 0 ?w w'"
      "settled w'" "view cnt (sh w') = unref p (paid_off p (put a q (view cnt (mem Z))))"
    using store_fact[OF sys_holds[OF assms(1-3)], where cfg = cfg and new = "from_ptr T q"]
    unfolding in_thread_fields into_from_any .
  have "balanced (paid_off p (put a q (view cnt (mem Z)))) (add_mset (p, None) ?H)"
    using assms(3,4) by (intro balanced_swap[OF b]) simp_all
  then have "balanced (released p None (paid_off p (put a q (view cnt (mem Z))))) (add_mset (p, None) ?H - {#(p, None)#})"
    by (rule balanced_released) simp
  then have "balanced (view cnt (sh w')) ?H" unfolding r(4) by simp
  moreover have "perform T cfg (Store a (q, None)) (hnd Z) ?w = (Inr ?H, w')"
    using r(1) by (simp add: bnd_apply)
  ultimately show ?thesis by (intro call_okI[OF assms(1) _ r(2)]) (auto dest: in_diffD)
qed

lemma cas_call:
  assumes "sys_ok cnt Z" and "resources t k ws Z" and "storage (mem Z) a = Some p" and "(q, None) \<in># hnd Z"
  shows "call_ok cnt T cfg (CompareAndSwap a c (q, None)) Z (in_thread t k ws Z) t"
proof -
  let ?w = "in_thread t k ws Z"
  have b: "balanced (view cnt (mem Z)) (hnd Z)" using assms(1) by (simp add: sys_ok_def)
  have g: "spurious_left ?w < gens_left ?w" using assms(2) by (simp add: resources_def)
  have l: "live (heap (sh ?w)) (into_ptr T (from_ptr T q))"
    using sys_live(1)[OF assms(1), of a q None] assms(4) by simp
  have raw: "as_raw T (RawConst c) = c" "by_reference (RawConst c)" by simp_all
  obtain old w' where r: "any_compare_and_swap (hybrid_Strategy T cfg) a (RawConst c) (from_ptr T q) ?w = (Inr old, w')"
      "progress (Suc (spurious_left ?w)) ?w w'" "settled w'" "protects T (sh w') p (inner old)"
      "if c = p then view cnt (sh w') = paid_off p (put a q (view cnt (mem Z)))
       else fresh_debt (view cnt (mem Z)) (hp_debt (inner old)) \<and>
            view cnt (sh w') = unref q (acquired p (hp_debt (inner old)) (view cnt (mem Z)))"
    using cas_fact[OF sys_holds[OF assms(1-3)] g valid_from_any l raw(2), where cfg = cfg]
    unfolding in_thread_fields into_from_any raw(1) .
  let ?x = "hp_debt (inner old)" and ?V = "view cnt (mem Z)"
  have "balanced (view cnt (sh w')) (add_mset (p, ?x) (hnd Z - {#(q, None)#}))"
  proof (cases "c = p")
    case True
    then show ?thesis using r(5) balanced_swap[OF b, of a p q ?x] assms(3,4) by simp
  next
    case False
    have "balanced (acquired p ?x ?V) (add_mset (p, ?x) (hnd Z))"
      using r(5) False assms(3) by (intro balanced_acquired[OF b]) simp_all
    then have "balanced (released q None (acquired p ?x ?V)) (add_mset (p, ?x) (hnd Z) - {#(q, None)#})"
      by (rule balanced_released) (use assms(4) in simp)
    moreover have "add_mset (p, ?x) (hnd Z) - {#(q, None)#} = add_mset (p, ?x) (hnd Z - {#(q, None)#})"
      using assms(4) by (rule mset_swap)
    ultimately show ?thesis using r(5) False by simp
  qed
  moreover have "perform T cfg (CompareAndSwap a c (q, None)) (hnd Z) ?w =
      (Inr (add_mset (p, ?x) (hnd Z - {#(q, None)#})), w')"
    using r(1) as_ptr_any[OF r(4)] by (simp add: bnd_apply)
  moreover have "(s, Some d) \<in># hnd Z \<or> slot_get (sh w') d \<noteq> None"
    if "(s, Some d) \<in># add_mset (p, ?x) (hnd Z - {#(q, None)#})" for s d
    using that protects_slot[OF r(4), of d] by (auto dest: in_diffD)
  ultimately show ?thesis by (intro call_okI[OF assms(1) _ r(2)])
qed

lemma null_call:
  assumes "sys_ok cnt Z" and "resources t k ws Z"
  shows "call_ok cnt T cfg Null Z (in_thread t k ws Z) t"
proof (rule call_okI[OF assms(1)])
  show "progress 0 (in_thread t k ws Z) (in_thread t k ws Z)"
    using sys_settled[OF assms] by (rule progress_refl)
  show "balanced (view cnt (sh (in_thread t k ws Z))) (add_mset (0, None) (hnd Z))"
    using assms(1) by (simp add: sys_ok_def balanced_null)
qed auto

lemma alloc_call:
  assumes "sys_ok cnt Z" and "resources t k ws Z" and "arc_supply (mem Z) = q # ps" and "q \<noteq> 0" and "q \<noteq> NONE"
    and "heap (mem Z) q = None"
  shows "call_ok cnt T cfg (Alloc v) Z (in_thread t k ws Z) t"
proof -
  let ?w = "in_thread t k ws Z"
  let ?h = "(heap (mem Z))(q \<mapsto> \<lparr>strong = 1, weak = 0, payload = v\<rparr>)"
  let ?w' = "?w\<lparr>sh := (mem Z)\<lparr>arc_supply := ps, heap := ?h\<rparr>\<rparr>"
  have b: "balanced (view cnt (mem Z)) (hnd Z)" using assms(1) by (simp add: sys_ok_def)
  have s: "settled ?w" using sys_settled[OF assms(1,2)] .
  have pr: "progress 0 ?w ?w'"
    using s by (simp add: progress_def settled_def spurious_left_def gens_left_def in_thread_def solo_def)
  have "cnt ?h = (cnt (heap (mem Z)))(q := 1)" using cnt_alloc[of q "heap (mem Z)" v] assms(4,6) by auto
  then have v: "view cnt (sh ?w') = (view cnt (mem Z))\<lparr>counts := (counts (view cnt (mem Z)))(q := 1), vals := vals_of cnt ?h\<rparr>"
    by (simp add: view_def del: fun_upd_apply)
  have "counts (view cnt (mem Z)) q = 0" using cnt_free[of "heap (mem Z)" q] assms(6) by simp
  then have "balanced (view cnt (sh ?w')) (add_mset (q, None) (hnd Z))"
    unfolding v using balanced_alloc[OF b assms(4,5)] by simp
  moreover have "perform T cfg (Alloc v) (hnd Z) ?w = (Inr (add_mset (q, None) (hnd Z)), ?w')"
    using assms(3) by (simp add: bnd_apply arc_new_def atomic_solo)
  ultimately show ?thesis by (intro call_okI[OF assms(1) _ pr]) auto
qed

lemma clone_call:
  assumes "sys_ok cnt Z" and "resources t k ws Z" and "(p, x) \<in># hnd Z"
  shows "call_ok cnt T cfg (Clone (p, x)) Z (in_thread t k ws Z) t"
proof -
  let ?w = "in_thread t k ws Z"
  let ?w' = "?w\<lparr>sh := (sh ?w)\<lparr>heap := up p (heap (sh ?w))\<rparr>\<rparr>"
  have b: "balanced (view cnt (mem Z)) (hnd Z)" using assms(1) by (simp add: sys_ok_def)
  have l: "live (heap (mem Z)) p" using sys_live(1)[OF assms(1), of _ p x] assms(3) by simp
  have pr: "progress 0 ?w ?w'" using sys_settled[OF assms(1,2)] by (rule progress_heap)
  have "balanced (view cnt (sh ?w')) (add_mset (p, None) (hnd Z))"
    using balanced_clone[OF b assms(3)] view_up[OF l] by simp
  moreover have "perform T cfg (Clone (p, x)) (hnd Z) ?w = (Inr (add_mset (p, None) (hnd Z)), ?w')"
    using l clone_live[OF valid_from_any, of "heap (mem Z)" p]
    by (simp add: bnd_apply clone_val_def atomic_solo)
  ultimately show ?thesis by (intro call_okI[OF assms(1) _ pr]) auto
qed

lemma drop_run:
  assumes "sys_ok cnt Z" and "resources t k ws Z" and "(p, x) \<in># hnd Z"
  obtains w' where "perform T cfg (DropHandle (p, x)) (hnd Z) (in_thread t k ws Z) = (Inr (hnd Z - {#(p, x)#}), w')"
    and "progress 0 (in_thread t k ws Z) w'" and "view cnt (sh w') = released p x (view cnt (mem Z))"
proof -
  let ?w = "in_thread t k ws Z" and ?g = "inner (guard_of T (p, x))"
  have l: "live (heap (mem Z)) p" "p \<noteq> NONE" using sys_live[OF assms(1), of _ p x] assms(3) by auto
  have x: "hp_debt ?g = x" by (simp add: guard_of_def hp_new_def)
  have pg: "protects T (sh ?w) p ?g" using sys_protects[OF assms(1,3)] by simp
  obtain w' where r: "hp_drop T ?g ?w = (Inr (), w')" "progress 0 ?w w'"
      "view cnt (sh w') = released p (hp_debt ?g) (view cnt (sh ?w))"
    using hybrid_drop_ok[OF sys_settled[OF assms(1,2)] pg l(2)] l(1) null_ok by auto
  have "perform T cfg (DropHandle (p, x)) (hnd Z) ?w = (Inr (hnd Z - {#(p, x)#}), w')"
    using r(1) by (simp add: bnd_apply guard_drop_def hybrid_Strategy_def)
  then show ?thesis using that r(2,3) x by simp
qed

lemma drop_call:
  assumes "sys_ok cnt Z" and "resources t k ws Z" and "(p, x) \<in># hnd Z"
  shows "call_ok cnt T cfg (DropHandle (p, x)) Z (in_thread t k ws Z) t"
proof -
  have b: "balanced (view cnt (mem Z)) (hnd Z)" using assms(1) by (simp add: sys_ok_def)
  obtain w' where r: "perform T cfg (DropHandle (p, x)) (hnd Z) (in_thread t k ws Z) = (Inr (hnd Z - {#(p, x)#}), w')"
      "progress 0 (in_thread t k ws Z) w'" "view cnt (sh w') = released p x (view cnt (mem Z))"
    using drop_run[OF assms] .
  have "balanced (view cnt (sh w')) (hnd Z - {#(p, x)#})" unfolding r(3) by (rule balanced_released[OF b assms(3)])
  then show ?thesis by (intro call_okI[OF assms(1) r(1,2)]) (auto dest: in_diffD)
qed

lemma into_inner_call:
  assumes "sys_ok cnt Z" and "resources t k ws Z" and "(p, x) \<in># hnd Z"
  shows "call_ok cnt T cfg (IntoInner (p, x)) Z (in_thread t k ws Z) t"
proof -
  let ?w = "in_thread t k ws Z" and ?g = "inner (guard_of T (p, x))"
  have b: "balanced (view cnt (mem Z)) (hnd Z)" using assms(1) by (simp add: sys_ok_def)
  have l: "live (heap (sh ?w)) p" "p \<noteq> NONE" using sys_live[OF assms(1), of _ p x] assms(3) by auto
  have x: "hp_debt ?g = x" by (simp add: guard_of_def hp_new_def)
  have pg: "protects T (sh ?w) p ?g" using sys_protects[OF assms(1,3)] by simp
  obtain w' where r: "hp_into_inner T ?g ?w = (Inr (from_ptr T p), w')" "progress 0 ?w w'"
      "view cnt (sh w') = redeemed p (hp_debt ?g) (view cnt (sh ?w))"
    using hybrid_into_inner_ok[OF sys_settled[OF assms(1,2)] pg l] .
  have "balanced (view cnt (sh w')) (add_mset (p, None) (hnd Z - {#(p, x)#}))"
    unfolding r(3) x using balanced_redeemed[OF b assms(3)] by simp
  moreover have "perform T cfg (IntoInner (p, x)) (hnd Z) ?w = (Inr (add_mset (p, None) (hnd Z - {#(p, x)#})), w')"
    using r(1) by (simp add: bnd_apply guard_into_inner_def hybrid_Strategy_def)
  ultimately show ?thesis by (intro call_okI[OF assms(1) _ r(2)]) (auto dest: in_diffD)
qed

lemma place_call:
  assumes "sys_ok cnt Z" and "resources t k ws Z" and "(q, None) \<in># hnd Z" and "storage (mem Z) a = None"
  shows "call_ok cnt T cfg (Place a (q, None)) Z (in_thread t k ws Z) t"
proof -
  let ?w = "in_thread t k ws Z"
  let ?w' = "?w\<lparr>sh := (sh ?w)\<lparr>storage := (storage (sh ?w))(a \<mapsto> q)\<rparr>\<rparr>"
  have b: "balanced (view cnt (mem Z)) (hnd Z)" using assms(1) by (simp add: sys_ok_def)
  have pr: "progress 0 ?w ?w'" using sys_settled[OF assms(1,2)] by (rule progress_storage)
  have "balanced (view cnt (sh ?w')) (hnd Z - {#(q, None)#})"
    using balanced_place[OF b _ assms(3)] assms(4) by (simp add: view_storage)
  moreover have "perform T cfg (Place a (q, None)) (hnd Z) ?w = (Inr (hnd Z - {#(q, None)#}), ?w')"
    using assms(4) by (simp add: bnd_apply any_new_def any_from_def with_strategy_def place_storage_def atomic_solo)
  ultimately show ?thesis by (intro call_okI[OF assms(1) _ pr]) (auto dest: in_diffD)
qed

lemma take_call:
  assumes "sys_ok cnt Z" and "resources t k ws Z" and "storage (mem Z) a = Some p"
  shows "call_ok cnt T cfg (TakeStorage a) Z (in_thread t k ws Z) t"
proof -
  let ?w = "in_thread t k ws Z"
  have b: "balanced (view cnt (mem Z)) (hnd Z)" using assms(1) by (simp add: sys_ok_def)
  obtain w' where r: "any_into_inner T (hybrid_Strategy T cfg) a ?w = (Inr (from_ptr T p), w')" "progress 0 ?w w'"
      "settled w'" "view cnt (sh w') = take_out a (paid_off p (view cnt (mem Z)))"
    using take_fact[OF sys_holds[OF assms], where cfg = cfg] unfolding in_thread_fields .
  have "balanced (view cnt (sh w')) (add_mset (p, None) (hnd Z))"
    unfolding r(4) using assms(3) by (intro balanced_take_out[OF b]) simp
  moreover have "perform T cfg (TakeStorage a) (hnd Z) ?w = (Inr (add_mset (p, None) (hnd Z)), w')"
    using r(1) by (simp add: bnd_apply)
  ultimately show ?thesis by (intro call_okI[OF assms(1) _ r(2)]) auto
qed

lemma take_out_unref: "take_out a (unref p B) = unref p (take_out a B)"
  by (simp add: take_out_def unref_def)

lemma drop_storage_run:
  assumes "sys_ok cnt Z" and "resources t k ws Z" and "storage (mem Z) a = Some p"
  obtains w' where "perform T cfg (DropStorage a) (hnd Z) (in_thread t k ws Z) = (Inr (hnd Z), w')"
    and "progress 0 (in_thread t k ws Z) w'"
    and "view cnt (sh w') = take_out a (unref p (paid_off p (view cnt (mem Z))))"
proof -
  let ?w = "in_thread t k ws Z"
  obtain w' where r: "any_drop T (hybrid_Strategy T cfg) a ?w = (Inr (), w')" "progress 0 ?w w'"
      "settled w'" "view cnt (sh w') = take_out a (unref p (paid_off p (view cnt (mem Z))))"
    using drop_fact[OF sys_holds[OF assms], where cfg = cfg] unfolding in_thread_fields .
  then show ?thesis using that by (simp add: bnd_apply)
qed

lemma drop_storage_call:
  assumes "sys_ok cnt Z" and "resources t k ws Z" and "storage (mem Z) a = Some p"
  shows "call_ok cnt T cfg (DropStorage a) Z (in_thread t k ws Z) t"
proof -
  have b: "balanced (view cnt (mem Z)) (hnd Z)" using assms(1) by (simp add: sys_ok_def)
  obtain w' where r: "perform T cfg (DropStorage a) (hnd Z) (in_thread t k ws Z) = (Inr (hnd Z), w')"
      "progress 0 (in_thread t k ws Z) w'" "view cnt (sh w') = take_out a (unref p (paid_off p (view cnt (mem Z))))"
    using drop_storage_run[OF assms] .
  have "balanced (take_out a (paid_off p (view cnt (mem Z)))) (add_mset (p, None) (hnd Z))"
    using assms(3) by (intro balanced_take_out[OF b]) simp
  then have "balanced (released p None (take_out a (paid_off p (view cnt (mem Z))))) (add_mset (p, None) (hnd Z) - {#(p, None)#})"
    by (rule balanced_released) simp
  then have "balanced (view cnt (sh w')) (hnd Z)" unfolding r(3) take_out_unref by simp
  then show ?thesis by (intro call_okI[OF assms(1) r(1,2)]) auto
qed

text \<open>A thread that exits sends its node into cooldown; nobody else holds it.\<close>

lemma exit_call:
  assumes "sys_ok cnt Z" and "resources t k ws Z"
  shows "call_ok cnt T cfg Exit Z (in_thread t k ws Z) t"
proof (cases "node (thr Z t)")
  case None
  have run: "perform T cfg Exit (hnd Z) (in_thread t k ws Z) = (Inr (hnd Z), (in_thread t k ws Z)\<lparr>loc := local_default\<rparr>)"
    using None by (simp add: bnd_apply local_drop_def loc_exec)
  have "sys_ok cnt \<lparr>mem = mem Z, thr = (thr Z)(t := local_default), hnd = hnd Z\<rparr>"
    using assms(1) by (auto simp: sys_ok_def local_ok_def local_default_def split: if_splits)
  then show ?thesis using run unfolding call_ok_def by fastforce
next
  case (Some n)
  have lo: "local_ok (mem Z) (thr Z u)" for u using assms(1) by (simp add: sys_ok_def)
  obtain nd where nd: "nodes (mem Z) n = Some nd" "in_use nd = NODE_USED"
    using lo[of t] Some by (auto simp: local_ok_def)
  let ?nd = "nd\<lparr>in_use := NODE_COOLDOWN\<rparr>"
  let ?s = "(mem Z)\<lparr>nodes := (nodes (mem Z))(n \<mapsto> ?nd)\<rparr>"
  have run: "perform T cfg Exit (hnd Z) (in_thread t k ws Z) =
      (Inr (hnd Z), (in_thread t k ws Z)\<lparr>sh := ?s, loc := local_default\<rparr>)"
    using Some nd by (simp add: bnd_apply local_drop_def loc_exec start_cooldown_solo)
  obtain ns where ns: "chained (mem Z) ns" using assms(1) by (auto simp: sys_ok_def)
  have "node_ok ?nd" using ns nd(1) by (auto simp: chained_def node_ok_def)
  then have "chained ?s ns" using chained_update[OF ns nd(1), of ?nd] by simp
  moreover have "quiet ?s"
    using assms(1) nd(1) by (intro quiet_update) (auto simp: sys_ok_def quiet_def quiet_node_def)
  moreover have "local_ok ?s (((thr Z)(t := local_default)) u)" for u
  proof (cases "u = t")
    case False
    then have "node (thr Z u) \<noteq> Some n" using assms(1) Some unfolding sys_ok_def by blast
    then show ?thesis using lo[of u] False by (auto simp: local_ok_def)
  qed (simp add: local_ok_def local_default_def)
  moreover have "u = v" if "node (((thr Z)(t := local_default)) u) = Some m"
      "node (((thr Z)(t := local_default)) v) = Some m" for u v m
  proof -
    have "node (thr Z u) = Some m" "node (thr Z v) = Some m"
      using that by (auto simp: local_default_def split: if_splits)
    then show ?thesis using assms(1) unfolding sys_ok_def by blast
  qed
  moreover have "view cnt ?s = view cnt (mem Z)" using nd(1) by (rule view_same_slots) simp_all
  moreover have "slot_get ?s d = slot_get (mem Z) d" for d using nd(1) by (rule slot_get_same_slots) simp_all
  moreover have "balanced (view cnt (mem Z)) (hnd Z)" "\<forall>p d. (p, Some d) \<in># hnd Z \<longrightarrow> slot_get (mem Z) d \<noteq> None"
    using assms(1) by (simp_all add: sys_ok_def)
  ultimately have "sys_ok cnt \<lparr>mem = ?s, thr = (thr Z)(t := local_default), hnd = hnd Z\<rparr>"
    unfolding sys_ok_def sys.simps by metis
  then show ?thesis using run unfolding call_ok_def by fastforce
qed

theorem perform_ok:
  assumes "sys_ok cnt Z" and "may_call c Z" and "resources t k ws Z"
  shows "call_ok cnt T cfg c Z (in_thread t k ws Z) t"
proof (cases c)
  case Null then show ?thesis using null_call[OF assms(1,3)] by simp
next
  case (Alloc v)
  then obtain q ps where "arc_supply (mem Z) = q # ps" "q \<noteq> 0" "q \<noteq> NONE" "heap (mem Z) q = None"
    using assms(2) by (auto split: list.splits)
  then show ?thesis using alloc_call[OF assms(1,3)] Alloc by simp
next
  case (Clone h) then show ?thesis using clone_call[OF assms(1,3)] assms(2) by (cases h) simp
next
  case (DropHandle h) then show ?thesis using drop_call[OF assms(1,3)] assms(2) by (cases h) simp
next
  case (IntoInner h) then show ?thesis using into_inner_call[OF assms(1,3)] assms(2) by (cases h) simp
next
  case (Place a h) then show ?thesis using place_call[OF assms(1,3)] assms(2) by (cases h) simp
next
  case (Load a) then show ?thesis using load_call[OF assms(1,3)] assms(2) by auto
next
  case (Store a h) then show ?thesis using store_call[OF assms(1,3)] assms(2) by (cases h) auto
next
  case (Swap a h) then show ?thesis using swap_call[OF assms(1,3)] assms(2) by (cases h) auto
next
  case (CompareAndSwap a x h) then show ?thesis using cas_call[OF assms(1,3)] assms(2) by (cases h) auto
next
  case (TakeStorage a) then show ?thesis using take_call[OF assms(1,3)] assms(2) by auto
next
  case (DropStorage a) then show ?thesis using drop_storage_call[OF assms(1,3)] assms(2) by auto
next
  case Exit then show ?thesis using exit_call[OF assms(1,3)] by simp
qed

lemma reachable_ok: "reachable T cfg Z \<Longrightarrow> sys_ok cnt Z"
proof (induction rule: reachable.induct)
  case (start boxes arcs) then show ?case by (intro boot_ok cnt_empty)
next
  case (call Z c t k ws H w')
  then show ?case using perform_ok[OF call.IH call.hyps(2,3), of cfg] by (auto simp: call_ok_def)
qed

end

interpretation option_arc: shared_cnt "option_RefCnt arc_RefCnt" strong_rc "unless_null strong_up"
  "unless_null strong_down" "option_valid arc_valid" True
  by unfold_locales (auto simp: strong_rc_def)

interpretation option_rc: shared_cnt "option_RefCnt rc_RefCnt" strong_rc "unless_null strong_up"
  "unless_null strong_down" "option_valid rc_valid" True
  by unfold_locales (auto simp: strong_rc_def)

end
