(* ===== verification/Pool.thy ===== *)
theory Pool
  imports Steps Account System
begin

unbundle bit_operations_syntax

text \<open>
  Many threads on one memory, interleaved at every atomic access. Each thread holds a node of the list
  and is either idle or in the middle of an operation of the hybrid strategy: a load, a swap, a
  compare-and-swap, dropping a guard or a reference, turning a guard into a reference. One step of the
  pool is one atomic access of one thread, or a client starting an operation on an idle thread.
\<close>

section \<open>The operations of a thread\<close>

text \<open>
  \<open>Loading a l\<close>: a load from \<open>a\<close>. \<open>Swapping a q\<close>, \<open>Paying a p pp\<close>: a swap of \<open>q\<close> into \<open>a\<close>, before and
  after the exchange (\<open>p\<close> came out). \<open>Releasing\<close>, \<open>Freeing\<close>: a guard or a reference being dropped.
  \<open>Redeeming\<close>: a guard on its way to a full reference. \<open>Cas...\<close>: a compare-and-swap of \<open>c\<close> by \<open>q\<close> at \<open>a\<close>, whose
  load returned \<open>(p, d)\<close>. \<open>Done H\<close>: the operation returns the handles \<open>H\<close>.
\<close>

datatype pc =
    Idle
  | Loading usize lpc
  | Swapping usize usize
  | Paying usize usize ppc
  | Releasing usize Debt
  | Freeing usize
  | Redeeming ipc
  | CasLoad nat usize usize usize lpc
  | CasMiss usize usize "Debt option"
  | CasTry nat usize usize usize usize "Debt option"
  | CasPay usize usize "Debt option" ppc
  | CasDec usize "Debt option"
  | CasRel nat usize usize usize usize Debt
  | CasFree nat usize usize usize usize
  | Done handles

fun thread_announces :: "pc \<Rightarrow> bool" where
  "thread_announces (Loading a l) \<longleftrightarrow> announces l"
| "thread_announces (CasLoad k a c q l) \<longleftrightarrow> announces l"
| "thread_announces (Paying a p pp) \<longleftrightarrow> pay_announces pp"
| "thread_announces (CasPay a p d pp) \<longleftrightarrow> pay_announces pp"
| "thread_announces _ \<longleftrightarrow> False"

fun loading :: "usize \<Rightarrow> lpc \<Rightarrow> pc" where
  "loading a (LdDone p d) = Done {#(p, d)#}"
| "loading a l = Loading a l"

fun paying :: "usize \<Rightarrow> usize \<Rightarrow> ppc \<Rightarrow> pc" where
  "paying a p PDone = Done {#(p, None)#}"
| "paying a p pp = Paying a p pp"

fun redeeming :: "ipc \<Rightarrow> pc" where
  "redeeming (IiDone p) = Done {#(p, None)#}"
| "redeeming i = Redeeming i"

fun cas_load :: "nat \<Rightarrow> usize \<Rightarrow> usize \<Rightarrow> usize \<Rightarrow> lpc \<Rightarrow> pc" where
  "cas_load k a c q (LdDone p d) = (if p \<noteq> c then CasMiss q p d else CasTry k a c q p d)"
| "cas_load k a c q l = CasLoad k a c q l"

fun cas_pay :: "usize \<Rightarrow> usize \<Rightarrow> Debt option \<Rightarrow> ppc \<Rightarrow> pc" where
  "cas_pay a p d PDone = CasDec p d"
| "cas_pay a p d pp = CasPay a p d pp"

fun cas_retry :: "nat \<Rightarrow> usize \<Rightarrow> usize \<Rightarrow> usize \<Rightarrow> ('v, pc) prog" where
  "cas_retry 0 a c q = raise OutOfFuel"
| "cas_retry (Suc k) a c q = ret (CasLoad k a c q LdPtr)"

fun thread_atom :: "('t, 'v) RefCnt \<Rightarrow> pc \<Rightarrow> ('v, pc) prog" where
  "thread_atom T Idle = ret Idle"
| "thread_atom T (Loading a l) = bnd (load_atom T a l) (\<lambda>l'. ret (loading a l'))"
| "thread_atom T (Swapping a q) = bnd (storage_swap a q) (\<lambda>p. ret (Paying a p PInc))"
| "thread_atom T (Paying a p pp) = bnd (pay_atom T p a pp) (\<lambda>pp'. ret (paying a p pp'))"
| "thread_atom T (Releasing p d) = bnd (pay d p) (\<lambda>paid. ret (if paid then Done {#} else Freeing p))"
| "thread_atom T (Freeing p) = bnd (drop_val T (from_ptr T p)) (\<lambda>_. ret (Done {#}))"
| "thread_atom T (Redeeming i) = bnd (into_atom T i) (\<lambda>i'. ret (redeeming i'))"
| "thread_atom T (CasLoad k a c q l) = bnd (load_atom T a l) (\<lambda>l'. ret (cas_load k a c q l'))"
| "thread_atom T (CasMiss q p d) = bnd (drop_val T (from_ptr T q)) (\<lambda>_. ret (Done {#(p, d)#}))"
| "thread_atom T (CasTry k a c q p d) =
     bnd (storage_cas_weak a c q) (\<lambda>ok.
     ret (if ok then CasPay a p d PInc
          else case d of None \<Rightarrow> CasFree k a c q p | Some d \<Rightarrow> CasRel k a c q p d))"
| "thread_atom T (CasPay a p d pp) = bnd (pay_atom T p a pp) (\<lambda>pp'. ret (cas_pay a p d pp'))"
| "thread_atom T (CasDec p d) = bnd (dec_ptr T p) (\<lambda>_. ret (Done {#(p, d)#}))"
| "thread_atom T (CasRel k a c q p d) =
     bnd (pay d p) (\<lambda>paid. if paid then cas_retry k a c q else ret (CasFree k a c q p))"
| "thread_atom T (CasFree k a c q p) = bnd (drop_val T (from_ptr T p)) (\<lambda>_. cas_retry k a c q)"
| "thread_atom T (Done H) = ret (Done H)"

text \<open>What remains of an operation, in the words of the modelled functions.\<close>

definition the_load :: "('t, 'v) RefCnt \<Rightarrow> usize \<Rightarrow> lpc \<Rightarrow> ('v, 't HybridProtection) prog" where
  "the_load T a l = (if l = LdPtr then hybrid_load T DefaultConfig a else load_rest T a l)"

definition the_pay :: "('t, 'v) RefCnt \<Rightarrow> usize \<Rightarrow> usize \<Rightarrow> ppc \<Rightarrow> ('v, unit) prog" where
  "the_pay T p a pp = (if pp = PInc then hybrid_wait_for_readers T DefaultConfig p a else pay_rest T p a pp)"

definition the_handle :: "('t, 'v) RefCnt \<Rightarrow> 't HybridProtection \<Rightarrow> handles" where
  "the_handle T g = {#(hp_as_ptr T g, hp_debt g)#}"

definition cas_again :: "('t, 'v) RefCnt \<Rightarrow> nat \<Rightarrow> usize \<Rightarrow> usize \<Rightarrow> usize \<Rightarrow> ('v, handles) prog" where
  "cas_again T k a c q =
     bnd (hybrid_cas_loop k T DefaultConfig a (RawConst c) (from_ptr T q)) (\<lambda>g. ret (the_handle T g))"

definition after_load :: "('t, 'v) RefCnt \<Rightarrow> nat \<Rightarrow> usize \<Rightarrow> usize \<Rightarrow> usize \<Rightarrow> 't HybridProtection \<Rightarrow> ('v, handles) prog" where
  "after_load T k a c q old =
     (if hp_as_ptr T old \<noteq> c then bnd (drop_val T (from_ptr T q)) (\<lambda>_. ret (the_handle T old))
      else bnd (storage_cas_weak a c q) (\<lambda>ok.
        if ok then
          bnd (hybrid_wait_for_readers T DefaultConfig (hp_as_ptr T old) a) (\<lambda>_.
          bnd (dec_ptr T (hp_as_ptr T old)) (\<lambda>_. ret (the_handle T old)))
        else bnd (hp_drop T old) (\<lambda>_. cas_again T k a c q)))"

fun thread_rest :: "('t, 'v) RefCnt \<Rightarrow> pc \<Rightarrow> ('v, handles) prog" where
  "thread_rest T Idle = ret {#}"
| "thread_rest T (Loading a l) = bnd (the_load T a l) (\<lambda>g. ret (the_handle T g))"
| "thread_rest T (Swapping a q) =
     bnd (any_swap T (hybrid_Strategy T DefaultConfig) a (from_ptr T q)) (\<lambda>x. ret {#(into_ptr T x, None)#})"
| "thread_rest T (Paying a p pp) = bnd (the_pay T p a pp) (\<lambda>_. ret {#(p, None)#})"
| "thread_rest T (Releasing p d) = bnd (hp_drop T (hp_new T p (Some d))) (\<lambda>_. ret {#})"
| "thread_rest T (Freeing p) = bnd (hp_drop T (hp_new T p None)) (\<lambda>_. ret {#})"
| "thread_rest T (Redeeming i) = bnd (into_rest T i) (\<lambda>x. ret {#(into_ptr T x, None)#})"
| "thread_rest T (CasLoad k a c q l) = bnd (the_load T a l) (after_load T k a c q)"
| "thread_rest T (CasMiss q p d) = bnd (drop_val T (from_ptr T q)) (\<lambda>_. ret {#(p, d)#})"
| "thread_rest T (CasTry k a c q p d) =
     bnd (storage_cas_weak a c q) (\<lambda>ok.
       if ok then
         bnd (hybrid_wait_for_readers T DefaultConfig p a) (\<lambda>_. bnd (dec_ptr T p) (\<lambda>_. ret {#(p, d)#}))
       else bnd (hp_drop T (hp_new T p d)) (\<lambda>_. cas_again T k a c q))"
| "thread_rest T (CasPay a p d pp) = bnd (the_pay T p a pp) (\<lambda>_. bnd (dec_ptr T p) (\<lambda>_. ret {#(p, d)#}))"
| "thread_rest T (CasDec p d) = bnd (dec_ptr T p) (\<lambda>_. ret {#(p, d)#})"
| "thread_rest T (CasRel k a c q p d) = bnd (hp_drop T (hp_new T p (Some d))) (\<lambda>_. cas_again T k a c q)"
| "thread_rest T (CasFree k a c q p) = bnd (hp_drop T (hp_new T p None)) (\<lambda>_. cas_again T k a c q)"
| "thread_rest T (Done H) = ret H"

text \<open>One access at a time, for every operation.\<close>

context raw_form
begin

lemma hp_as_ptr_new [simp]: "hp_as_ptr T (hp_new T p d) = p"
  by (simp add: hp_as_ptr_def hp_new_def as_raw_ptr)

lemma hp_drop_new:
  "hp_drop T (hp_new T p (Some d)) =
     bnd (pay d p) (\<lambda>paid. if paid then ret () else hp_drop T (hp_new T p None))"
  "hp_drop T (hp_new T p None) = drop_val T (from_ptr T p)"
  by (simp_all add: hp_drop_def hp_new_def as_raw_ptr cong: if_cong)

lemma the_handle_new [simp]: "the_handle T (hp_new T p d) = {#(p, d)#}"
  unfolding the_handle_def hp_as_ptr_new by (simp add: hp_new_def)

lemma the_load_step:
  assumes "holds_node w"
  shows "the_load T a l w = bnd (load_atom T a l) (load_rest T a) w"
proof -
  have "the_load T a l w = load_rest T a l w"
    by (simp add: the_load_def hybrid_load_rest with_local_node[OF assms] del: load_rest.simps)
  moreover have "load_rest T a l = bnd (load_atom T a l) (load_rest T a)"
  proof (cases "load_done l")
    case False
    then show ?thesis by (rule load_rest_step[OF _ into_raw])
  qed (cases l; simp del: ret_exec)
  ultimately show ?thesis by simp
qed

lemma load_atom_later: "yields (\<lambda>l'. l' \<noteq> LdPtr) (load_atom T a l)"
  by (cases l) (auto intro!: yields_bnd simp: Let_def)

lemma the_load_bnd:
  assumes "holds_node w" and "\<And>l'. l' \<noteq> LdPtr \<Longrightarrow> bnd (the_load T a l') f = g l'"
  shows "bnd (the_load T a l) f w = bnd (load_atom T a l) g w"
proof -
  have "bnd (the_load T a l) f w = bnd (bnd (load_atom T a l) (load_rest T a)) f w"
    using the_load_step[OF assms(1)] by (simp add: bnd_def)
  moreover have "bnd (bnd (load_atom T a l) (load_rest T a)) f = bnd (load_atom T a l) g"
    unfolding bnd_assoc
    by (rule bnd_yields[OF load_atom_later]) (use assms(2) in \<open>simp add: the_load_def\<close>)
  ultimately show ?thesis by simp
qed

lemma the_pay_step:
  assumes "holds_node w"
  shows "the_pay T p a pp w = bnd (pay_atom T p a pp) (pay_rest T p a) w"
  unfolding pay_rest_step[OF assms, symmetric]
  by (simp add: the_pay_def wait_for_readers_rest with_local_node[OF assms] del: pay_rest.simps pay_atom.simps)

lemma pay_atom_later: "yields (\<lambda>pp'. pp' \<noteq> PInc) (pay_atom T p a pp)"
proof -
  have at: "yields (\<lambda>pp'. pp' \<noteq> PInc) (pay_at k cur)" for k cur by (cases k) (auto simp: yields_def)
  have slot: "slot_at k cur ds \<noteq> PInc" for k cur ds by (cases ds) simp_all
  show ?thesis
    by (cases pp) (auto intro!: yields_bnd at simp: slot pay_help_def)
qed

lemma the_pay_bnd:
  assumes "holds_node w" and "\<And>pp'. pp' \<noteq> PInc \<Longrightarrow> bnd (the_pay T p a pp') f = g pp'"
  shows "bnd (the_pay T p a pp) f w = bnd (pay_atom T p a pp) g w"
proof -
  have "bnd (the_pay T p a pp) f w = bnd (bnd (pay_atom T p a pp) (pay_rest T p a)) f w"
    using the_pay_step[OF assms(1)] by (simp add: bnd_def)
  moreover have "bnd (bnd (pay_atom T p a pp) (pay_rest T p a)) f = bnd (pay_atom T p a pp) g"
    unfolding bnd_assoc
    by (rule bnd_yields[OF pay_atom_later]) (use assms(2) in \<open>simp add: the_pay_def\<close>)
  ultimately show ?thesis by simp
qed

lemma cas_again_retry: "cas_again T k a c q = bnd (cas_retry k a c q) (thread_rest T)"
proof (cases k)
  case (Suc j)
  have "cas_again T (Suc j) a c q = bnd (hybrid_load T DefaultConfig a) (after_load T j a c q)"
    unfolding cas_again_def hybrid_cas_loop.simps bnd_assoc
    by (intro bnd_cong)
      (auto simp: after_load_def cas_again_def bnd_assoc as_raw_ptr Let_def simp del: ret_exec hybrid_cas_loop.simps intro!: bnd_cong)
  then show ?thesis using Suc by (simp add: the_load_def del: ret_exec)
qed (simp add: cas_again_def del: ret_exec)

lemma after_load_new:
  "after_load T k a c q (hp_new T p d) = thread_rest T (cas_load k a c q (LdDone p d))"
  by (auto simp: after_load_def simp del: ret_exec cong: if_cong)

lemma thread_rest_step:
  assumes "holds_node w"
  shows "thread_rest T pc w = bnd (thread_atom T pc) (thread_rest T) w"
proof (cases pc)
  case (Loading a l)
  have "bnd (the_load T a l') (\<lambda>g. ret (the_handle T g)) = thread_rest T (loading a l')" if "l' \<noteq> LdPtr" for l'
    using that by (cases l') (simp_all add: the_load_def del: ret_exec load_rest.simps(1-21))
  from the_load_bnd[OF assms this] show ?thesis
    unfolding Loading thread_rest.simps thread_atom.simps bnd_assoc bnd_ret_left .
next
  case (CasLoad k a c q l)
  have "bnd (the_load T a l') (after_load T k a c q) = thread_rest T (cas_load k a c q l')" if "l' \<noteq> LdPtr" for l'
    using that by (cases l') (simp_all add: the_load_def after_load_new del: ret_exec load_rest.simps(1-21) cas_load.simps(1))
  from the_load_bnd[OF assms this] show ?thesis
    unfolding CasLoad thread_rest.simps thread_atom.simps bnd_assoc bnd_ret_left .
next
  case (Paying a p pp)
  have "bnd (the_pay T p a pp') (\<lambda>_. ret {#(p, None)#}) = thread_rest T (paying a p pp')" if "pp' \<noteq> PInc" for pp'
    using that by (cases pp') (simp_all add: the_pay_def del: ret_exec pay_rest.simps(1-9))
  from the_pay_bnd[OF assms this] show ?thesis
    unfolding Paying thread_rest.simps thread_atom.simps bnd_assoc bnd_ret_left .
next
  case (CasPay a p d pp)
  have "bnd (the_pay T p a pp') (\<lambda>_. bnd (dec_ptr T p) (\<lambda>_. ret {#(p, d)#})) = thread_rest T (cas_pay a p d pp')" if "pp' \<noteq> PInc" for pp'
    using that by (cases pp') (simp_all add: the_pay_def del: ret_exec pay_rest.simps(1-9))
  from the_pay_bnd[OF assms this] show ?thesis
    unfolding CasPay thread_rest.simps thread_atom.simps bnd_assoc bnd_ret_left .
next
  case (Swapping a q)
  then show ?thesis
    by (simp add: any_swap_def hybrid_Strategy_def the_pay_def bnd_assoc into_raw Let_def del: ret_exec)
next
  case (Releasing p d)
  have "thread_rest T (Releasing p d) = bnd (thread_atom T (Releasing p d)) (thread_rest T)"
    by (auto simp: hp_drop_new bnd_assoc simp del: ret_exec intro!: bnd_cong)
  then show ?thesis using Releasing by simp
next
  case (Redeeming i)
  have "bnd (into_rest T i') (\<lambda>x. ret {#(into_ptr T x, None)#}) = thread_rest T (redeeming i')" for i'
    by (cases i') (simp_all add: into_raw del: ret_exec)
  moreover have "into_rest T i = bnd (into_atom T i) (into_rest T)" by (rule into_rest_step[OF into_raw])
  ultimately show ?thesis using Redeeming by (simp add: bnd_assoc del: ret_exec into_atom.simps into_rest.simps)
next
  case (CasTry k a c q p d)
  have "thread_rest T (CasTry k a c q p d) = bnd (thread_atom T (CasTry k a c q p d)) (thread_rest T)"
    by (cases d) (auto simp: the_pay_def bnd_assoc simp del: ret_exec intro!: bnd_cong)
  then show ?thesis using CasTry by simp
next
  case (CasRel k a c q p d)
  have "thread_rest T (CasRel k a c q p d) = bnd (thread_atom T (CasRel k a c q p d)) (thread_rest T)"
    by (auto simp: hp_drop_new bnd_assoc cas_again_retry simp del: ret_exec intro!: bnd_cong)
  then show ?thesis using CasRel by simp
qed (simp_all add: hp_drop_new cas_again_retry bnd_assoc del: ret_exec)

end

section \<open>The pointer types\<close>

text \<open>The types whose pointers may be null keep every address apart, so the laws above hold for them.\<close>

sublocale shared_cnt \<subseteq> raw_form T
  by unfold_locales (simp_all add: into_from as_ptr_eq null_ok)

interpretation weak_raw_form: raw_form weak_RefCnt
  by unfold_locales (simp_all add: weak.into_from weak.as_ptr_eq)

end
