(* ===== verification/Protocol.thy ===== *)
theory Protocol
  imports Pool
begin

unbundle bit_operations_syntax

text \<open>
  Why the interleaved algorithm is safe. A thread is seen through a \<open>tv\<close>: its load in progress, the
  pointer it took out of a storage and the slots it has still to look at, its position in a helping
  transaction, and the references in its hands. The predicate \<open>core\<close> relates these views to the
  memory:

  \<^item> the references and debts are accounted for (\<open>account\<close>),
  \<^item> every debt on record is covered: its pointer is still in a storage, or a writer that took it out
    has not come to the slot yet, or it belongs to a reader that has not confirmed it,
  \<^item> a reader in the middle of a helping transaction is linked: its candidate is still in the storage,
    or the writer that took it out has not come past the reader's node,
  \<^item> envelopes are never shared, and a helper only succeeds in the transaction it looked at.
\<close>

section \<open>Views\<close>

datatype hview =
    Seen usize
  | Their usize usize
  | Mine usize usize usize
  | Stored usize usize usize usize
  | Take usize

record tv =
  ld :: "(usize \<times> lpc) option"
  wr :: "(usize \<times> usize \<times> Debt set \<times> (usize \<Rightarrow> usize \<Rightarrow> bool)) option"
  hp :: "(usize \<times> hview) option"
  oc :: handles
  gen :: usize

definition ctl :: "'v shared \<Rightarrow> usize \<Rightarrow> usize" where
  "ctl s n = control (helping (node_at s n))"

definition addr :: "'v shared \<Rightarrow> usize \<Rightarrow> usize" where
  "addr s n = active_addr (helping (node_at s n))"

definition offer :: "'v shared \<Rightarrow> usize \<Rightarrow> usize" where
  "offer s n = space_offer (helping (node_at s n))"

definition is_gen :: "usize \<Rightarrow> bool" where
  "is_gen c \<longleftrightarrow> c AND TAG_MASK = GEN_TAG"

definition is_env :: "usize \<Rightarrow> bool" where
  "is_env c \<longleftrightarrow> c AND TAG_MASK = REPLACEMENT_TAG"

definition untag :: "usize \<Rightarrow> usize" where
  "untag c = c AND NOT TAG_MASK"

section \<open>Claims\<close>

fun lclaims :: "'v shared \<Rightarrow> lpc \<Rightarrow> handles" where
  "lclaims s (LdConf p d) = {#(p, Some d)#}"
| "lclaims s (LdBack p d) = {#(p, Some d)#}"
| "lclaims s (LdDone p d) = {#(p, d)#}"
| "lclaims s (FbIdle n g p) = {#(p, Some (HelpingDebt n))#}"
| "lclaims s (FbInc n p) = {#(p, Some (HelpingDebt n))#}"
| "lclaims s (FbPay n p) = {#(p, Some (HelpingDebt n)), (p, None)#}"
| "lclaims s (FbDec p) = {#(p, None), (p, None)#}"
| "lclaims s (FbEnv n p e) = {#(p, Some (HelpingDebt n)), (the (envelopes s e), None)#}"
| "lclaims s (FbOffer n p e r) = {#(p, Some (HelpingDebt n)), (r, None)#}"
| "lclaims s (FbCancel n p r) = {#(p, Some (HelpingDebt n)), (r, None)#}"
| "lclaims s (FbCancelDec p r) = {#(p, None), (r, None)#}"
| "lclaims s l = {#}"

definition load_claims :: "'v shared \<Rightarrow> (usize \<times> lpc) option \<Rightarrow> handles" where
  "load_claims s x = (case x of None \<Rightarrow> {#} | Some (a, l) \<Rightarrow> lclaims s l)"

text \<open>A replacement on its way to a reader.\<close>

definition inflight :: "'v shared \<Rightarrow> usize \<Rightarrow> handles" where
  "inflight s n = (if is_env (ctl s n) then {#(the (envelopes s (untag (ctl s n))), None)#} else {#})"

definition part :: "'v shared \<Rightarrow> usize \<Rightarrow> tv \<Rightarrow> handles" where
  "part s n v = oc v + load_claims s (ld v) + inflight s n"

definition claims :: "usize set \<Rightarrow> 'v shared \<Rightarrow> (usize \<Rightarrow> tv) \<Rightarrow> handles \<Rightarrow> handles" where
  "claims N s V H = H + (\<Sum>n\<in>N. part s n (V n))"

section \<open>The invariant\<close>

text \<open>Debts a reader wrote and has not confirmed.\<close>

fun pending :: "lpc \<Rightarrow> (usize \<times> Debt) option" where
  "pending (LdConf p d) = Some (p, d)"
| "pending (LdBack p d) = Some (p, d)"
| "pending (FbIdle n g p) = Some (p, HelpingDebt n)"
| "pending (FbEnv n p e) = Some (p, HelpingDebt n)"
| "pending (FbOffer n p e r) = Some (p, HelpingDebt n)"
| "pending (FbCancel n p r) = Some (p, HelpingDebt n)"
| "pending l = None"

text \<open>A helping transaction between the load of the candidate and its confirmation.\<close>

fun awaiting :: "lpc \<Rightarrow> (usize \<times> usize) option" where
  "awaiting (FbConf g p) = Some (g, p)"
| "awaiting (FbSlot n g p) = Some (g, p)"
| "awaiting (FbIdle n g p) = Some (g, p)"
| "awaiting l = None"

text \<open>A thread covers a debt when it will come past the slot with a reference of its own, or when the debt
  is its own and unconfirmed. A writer is ahead of a helping transaction it will still look at.\<close>

definition covers :: "tv \<Rightarrow> Debt \<Rightarrow> usize \<Rightarrow> bool" where
  "covers v d p \<longleftrightarrow> (\<exists>a R U. wr v = Some (p, a, R, U) \<and> d \<in> R) \<or>
     (\<exists>a l. ld v = Some (a, l) \<and> pending l = Some (p, d))"

definition covered :: "usize set \<Rightarrow> 'v shared \<Rightarrow> (usize \<Rightarrow> tv) \<Rightarrow> Debt \<Rightarrow> usize \<Rightarrow> bool" where
  "covered N s V d p \<longleftrightarrow> (\<exists>a. storage s a = Some p) \<or> (\<exists>m\<in>N. covers (V m) d p)"

definition ahead :: "tv \<Rightarrow> usize \<Rightarrow> usize \<Rightarrow> usize \<Rightarrow> usize \<Rightarrow> bool" where
  "ahead v p a n g \<longleftrightarrow> (\<exists>R U. wr v = Some (p, a, R, U) \<and> U n g)"

definition waiting :: "'v shared \<Rightarrow> usize \<Rightarrow> tv \<Rightarrow> usize \<Rightarrow> usize \<Rightarrow> usize \<Rightarrow> bool" where
  "waiting s n v a g p \<longleftrightarrow> (\<exists>l. ld v = Some (a, l) \<and> awaiting l = Some (g, p)) \<and> ctl s n = g"

definition linked :: "usize set \<Rightarrow> 'v shared \<Rightarrow> (usize \<Rightarrow> tv) \<Rightarrow> usize \<Rightarrow> bool" where
  "linked N s V n \<longleftrightarrow> (\<forall>a g p. waiting s n (V n) a g p \<longrightarrow>
     storage s a = Some p \<or> (\<exists>m\<in>N. ahead (V m) p a n g))"

text \<open>The control word, the announced address, the helping slot and the fast slots of a reader's own node
  at each point of its load.\<close>

definition in_transaction :: "'v shared \<Rightarrow> usize \<Rightarrow> usize \<Rightarrow> usize \<Rightarrow> usize \<Rightarrow> bool" where
  "in_transaction s n g a c \<longleftrightarrow> c = g OR GEN_TAG \<and> (ctl s n = c \<or> is_env (ctl s n)) \<and> addr s n = a"

fun ctl_ok :: "'v shared \<Rightarrow> usize \<Rightarrow> usize \<Rightarrow> usize \<Rightarrow> lpc \<Rightarrow> bool" where
  "ctl_ok s n g a (FbCand c) \<longleftrightarrow> in_transaction s n g a c"
| "ctl_ok s n g a (FbConf c p) \<longleftrightarrow> in_transaction s n g a c"
| "ctl_ok s n g a (FbSlot m c p) \<longleftrightarrow> in_transaction s n g a c"
| "ctl_ok s n g a (FbIdle m c p) \<longleftrightarrow> in_transaction s n g a c"
| "ctl_ok s n g a (FbCtl m c discard) \<longleftrightarrow> ctl s n = IDLE \<and> c = g OR GEN_TAG \<and> addr s n = a \<and> 4 \<le> unat g"
| "ctl_ok s n g a l \<longleftrightarrow> ctl s n = IDLE"

fun owes :: "lpc \<Rightarrow> usize option" where
  "owes (FbIdle n g p) = Some p"
| "owes (FbInc n p) = Some p"
| "owes (FbPay n p) = Some p"
| "owes (FbEnv n p e) = Some p"
| "owes (FbOffer n p e r) = Some p"
| "owes (FbCancel n p r) = Some p"
| "owes l = None"

definition slot_ok :: "'v shared \<Rightarrow> usize \<Rightarrow> lpc \<Rightarrow> bool" where
  "slot_ok s n l \<longleftrightarrow> slot_get s (HelpingDebt n) = Some NONE \<or> slot_get s (HelpingDebt n) = owes l \<and> owes l \<noteq> None"

text \<open>The counter itself makes sense: it names the thread's own node and pointers that can be owed.\<close>

fun lpc_ok :: "'v shared \<Rightarrow> usize \<Rightarrow> lpc \<Rightarrow> bool" where
  "lpc_ok s n (LdNode p) \<longleftrightarrow> p \<noteq> NONE"
| "lpc_ok s n (LdScan m p off i is) \<longleftrightarrow> m = n \<and> p \<noteq> NONE"
| "lpc_ok s n (LdSwap m p j) \<longleftrightarrow> m = n \<and> p \<noteq> NONE \<and> slot_get s (FastDebt n j) = Some NONE"
| "lpc_ok s n (LdConf p d) \<longleftrightarrow> (\<exists>j. d = FastDebt n j)"
| "lpc_ok s n (LdBack p d) \<longleftrightarrow> (\<exists>j. d = FastDebt n j)"
| "lpc_ok s n (FbAddr m) \<longleftrightarrow> m = n"
| "lpc_ok s n (FbCtl m c discard) \<longleftrightarrow> m = n \<and> \<not> discard"
| "lpc_ok s n (FbWrap m c) \<longleftrightarrow> False"
| "lpc_ok s n (FbConf c p) \<longleftrightarrow> p \<noteq> NONE"
| "lpc_ok s n (FbSlot m c p) \<longleftrightarrow> m = n \<and> p \<noteq> NONE"
| "lpc_ok s n (FbIdle m c p) \<longleftrightarrow> m = n"
| "lpc_ok s n (FbInc m p) \<longleftrightarrow> m = n"
| "lpc_ok s n (FbPay m p) \<longleftrightarrow> m = n"
| "lpc_ok s n (FbEnv m p e) \<longleftrightarrow> m = n"
| "lpc_ok s n (FbOffer m p e r) \<longleftrightarrow> m = n"
| "lpc_ok s n (FbCancel m p r) \<longleftrightarrow> m = n"
| "lpc_ok s n l \<longleftrightarrow> True"

definition load_ok :: "'v shared \<Rightarrow> usize \<Rightarrow> tv \<Rightarrow> bool" where
  "load_ok s n v \<longleftrightarrow> aligned4 (gen v) \<and>
     (case ld v of
        None \<Rightarrow> ctl s n = IDLE \<and> slot_get s (HelpingDebt n) = Some NONE
      | Some (a, l) \<Rightarrow> ctl_ok s n (gen v) a l \<and> slot_ok s n l \<and> lpc_ok s n l \<and> storage s a \<noteq> None)"

text \<open>The generations a thread has announced so far.\<close>

definition published :: "tv \<Rightarrow> nat" where
  "published v = (case ld v of Some (a, FbCtl m c discard) \<Rightarrow> unat (gen v) - 4 | _ \<Rightarrow> unat (gen v))"

definition issued :: "tv \<Rightarrow> usize \<Rightarrow> bool" where
  "issued v c \<longleftrightarrow> (\<exists>g. c = g OR GEN_TAG \<and> aligned4 g \<and> unat g \<le> published v)"

fun seen :: "hview \<Rightarrow> usize option" where
  "seen (Seen c) = Some c"
| "seen (Their c th) = Some c"
| "seen (Mine c th my) = Some c"
| "seen (Stored c th my r) = Some c"
| "seen (Take th) = None"

fun hview_ok :: "'v shared \<Rightarrow> usize \<Rightarrow> usize \<Rightarrow> hview \<Rightarrow> bool" where
  "hview_ok s m who (Their c th) \<longleftrightarrow> is_gen c \<and> (ctl s who = c \<longrightarrow> th = offer s who)"
| "hview_ok s m who (Mine c th my) \<longleftrightarrow> is_gen c \<and> (ctl s who = c \<longrightarrow> th = offer s who) \<and> my = offer s m"
| "hview_ok s m who (Stored c th my r) \<longleftrightarrow>
     is_gen c \<and> (ctl s who = c \<longrightarrow> th = offer s who) \<and> my = offer s m \<and> envelopes s my = Some r"
| "hview_ok s m who h \<longleftrightarrow> True"

definition help_ok :: "usize set \<Rightarrow> 'v shared \<Rightarrow> (usize \<Rightarrow> tv) \<Rightarrow> usize \<Rightarrow> bool" where
  "help_ok N s V m \<longleftrightarrow> (\<forall>who h. hp (V m) = Some (who, h) \<longrightarrow> who \<in> N \<and> who \<noteq> m \<and> hview_ok s m who h \<and>
     (\<forall>c. seen h = Some c \<and> is_gen c \<longrightarrow> issued (V who) c) \<and> (ld (V m) = None \<or> (\<exists>c. h = Seen c)))"

text \<open>The envelope a thread owns, through all exchanges.\<close>

definition envelope :: "'v shared \<Rightarrow> usize \<Rightarrow> tv \<Rightarrow> usize" where
  "envelope s n v =
     (case ld v of
        Some (a, FbEnv m p e) \<Rightarrow> e
      | Some (a, FbOffer m p e r) \<Rightarrow> e
      | Some (a, l) \<Rightarrow> if is_env (ctl s n) then untag (ctl s n) else offer s n
      | None \<Rightarrow> (case hp v of Some (who, Take th) \<Rightarrow> th | _ \<Rightarrow> offer s n))"

definition envelopes_ok :: "usize set \<Rightarrow> 'v shared \<Rightarrow> (usize \<Rightarrow> tv) \<Rightarrow> bool" where
  "envelopes_ok N s V \<longleftrightarrow> inj_on (\<lambda>n. envelope s n (V n)) N \<and>
     (\<forall>n\<in>N. aligned4 (envelope s n (V n)) \<and> envelopes s (envelope s n (V n)) \<noteq> None)"

text \<open>A writer owns a reference to what it took out.\<close>

definition owner_ok :: "tv \<Rightarrow> bool" where
  "owner_ok v \<longleftrightarrow> (\<forall>p a R U. wr v = Some (p, a, R, U) \<longrightarrow> (p, None) \<in># oc v \<and>
     (\<forall>n g. U n g \<longrightarrow> HelpingDebt n \<in> R))"

definition shape :: "usize set \<Rightarrow> 'v shared \<Rightarrow> (usize \<Rightarrow> tv) \<Rightarrow> bool" where
  "shape N s V \<longleftrightarrow> (\<forall>d p. (d, p) \<in> owed_of s \<longrightarrow> covered N s V d p) \<and>
     (\<forall>n\<in>N. linked N s V n \<and> load_ok s n (V n) \<and> help_ok N s V n \<and> owner_ok (V n)) \<and> envelopes_ok N s V"

definition accounted :: "('v heap \<Rightarrow> usize \<Rightarrow> nat) \<Rightarrow> usize set \<Rightarrow> 'v shared \<Rightarrow> (usize \<Rightarrow> tv) \<Rightarrow> handles \<Rightarrow> bool" where
  "accounted cnt N s V H \<longleftrightarrow> account (view cnt s) (claims N s V H) \<and>
     (\<forall>p d. (p, Some d) \<in># claims N s V H \<longrightarrow> slot_get s d \<noteq> None)"

definition core :: "('v heap \<Rightarrow> usize \<Rightarrow> nat) \<Rightarrow> usize set \<Rightarrow> 'v shared \<Rightarrow> (usize \<Rightarrow> tv) \<Rightarrow> handles \<Rightarrow> bool" where
  "core cnt N s V H \<longleftrightarrow> finite N \<and> N \<subseteq> dom (nodes s) \<and> shape N s V \<and> accounted cnt N s V H"

section \<open>Steps on the thread's own fields\<close>

text \<open>What a thread sees of itself does not depend on other nodes.\<close>

lemma load_ok_frame:
  assumes "load_ok s m v" and "ctl s' m = ctl s m" "addr s' m = addr s m" and "dom (storage s') = dom (storage s)"
    and "\<And>d. debt_node d = m \<Longrightarrow> slot_get s' d = slot_get s d \<or> slot_get s' d = Some NONE"
  shows "load_ok s' m v"
proof (cases "ld v")
  case None
  then show ?thesis using assms(1,2) assms(5)[of "HelpingDebt m"] by (auto simp: load_ok_def)
next
  case (Some x)
  obtain a l where x: "x = (a, l)" by (cases x)
  have "ctl_ok s' m (gen v) a l = ctl_ok s m (gen v) a l"
    using assms(2,3) by (cases l) (simp_all add: in_transaction_def)
  moreover have "lpc_ok s m l \<Longrightarrow> lpc_ok s' m l"
    using assms(5)[of "FastDebt m j" for j] by (cases l) (simp_all del: slot_get.simps, metis debt_node.simps(1))
  moreover have "slot_ok s m l \<Longrightarrow> slot_ok s' m l" using assms(5)[of "HelpingDebt m"] by (auto simp: slot_ok_def)
  moreover have "storage s' a \<noteq> None \<longleftrightarrow> storage s a \<noteq> None" using assms(4) by (metis domIff)
  ultimately show ?thesis using assms(1) Some x by (simp add: load_ok_def)
qed

lemma idle_envelope: "ld v = None \<Longrightarrow> \<forall>who th. hp v \<noteq> Some (who, Take th) \<Longrightarrow> envelope s n v = offer s n"
  by (auto simp: envelope_def split: option.splits hview.splits)

lemma envelope_frame:
  assumes "ctl s' m = ctl s m" and "offer s' m = offer s m"
  shows "envelope s' m v = envelope s m v"
  unfolding envelope_def assms ..

lemma hview_ok_frame:
  assumes "help_ok N s V m" and "hp (V m) = Some (who, h)"
    and "ctl s' who = ctl s who" "offer s' who = offer s who" "offer s' m = offer s m"
    and "envelopes s' (envelope s m (V m)) = envelopes s (envelope s m (V m))"
  shows "hview_ok s' m who h"
proof -
  have h: "hview_ok s m who h" "ld (V m) = None \<or> (\<exists>c. h = Seen c)" using assms(1,2) by (auto simp: help_ok_def)
  show ?thesis
  proof (cases h)
    case (Stored c th my r)
    then have "ld (V m) = None" using h(2) by simp
    then have "envelope s m (V m) = my" using idle_envelope[of "V m" s m] assms(2) h(1) Stored by simp
    then show ?thesis using h(1) assms(3-5) assms(6) Stored \<open>ld (V m) = None\<close> by auto
  qed (use h assms(3-5) in auto)
qed

lemma envelope_cong:
  assumes "ld v' = ld v" and "hp v' = hp v"
  shows "envelope s n v' = envelope s n v"
  unfolding envelope_def assms ..

text \<open>
  One thread moves from the view \<open>V n\<close> to \<open>v'\<close> and touches nothing of the others but their debts,
  which it may pay.
\<close>

definition apart :: "usize \<Rightarrow> 'v shared \<Rightarrow> 'v shared \<Rightarrow> bool" where
  "apart n s s' \<longleftrightarrow> (\<forall>m. m \<noteq> n \<longrightarrow> ctl s' m = ctl s m \<and> addr s' m = addr s m \<and> offer s' m = offer s m) \<and>
     storage s' = storage s \<and> dom (nodes s') = dom (nodes s)"

definition slots_step :: "usize \<Rightarrow> tv \<Rightarrow> 'v shared \<Rightarrow> 'v shared \<Rightarrow> bool" where
  "slots_step n v' s s' \<longleftrightarrow> (\<forall>d. slot_get s' d = slot_get s d \<or> slot_get s d \<noteq> None \<and> slot_get s' d = Some NONE \<or>
      slot_get s d \<noteq> None \<and> debt_node d = n \<and> (\<exists>p. slot_get s' d = Some p \<and> covers v' d p))"

definition advance :: "usize set \<Rightarrow> 'v shared \<Rightarrow> (usize \<Rightarrow> tv) \<Rightarrow> usize \<Rightarrow> 'v shared \<Rightarrow> tv \<Rightarrow> bool" where
  "advance N s V n s' v' \<longleftrightarrow> apart n s s' \<and> slots_step n v' s s' \<and>
     (\<forall>e. e \<noteq> envelope s n (V n) \<longrightarrow> envelopes s' e = envelopes s e) \<and> envelopes s' (envelope s n (V n)) \<noteq> None \<and>
     (\<forall>d p. (d, p) \<in> owed_of s' \<and> covers (V n) d p \<longrightarrow> covered N s' (V(n := v')) d p) \<and>
     (\<forall>m\<in>N. m \<noteq> n \<longrightarrow> (\<forall>p a g. waiting s m (V m) a g p \<and> ahead (V n) p a m g \<longrightarrow> ahead v' p a m g)) \<and>
     linked N s' (V(n := v')) n \<and> load_ok s' n v' \<and> help_ok N s' (V(n := v')) n \<and> owner_ok v' \<and>
     published (V n) \<le> published v' \<and>
     (\<forall>c. issued (V n) c \<and> ctl s' n = c \<longrightarrow> ctl s n = c \<and> offer s' n = offer s n) \<and>
     envelope s' n v' = envelope s n (V n)"

lemma issued_mono: "published v \<le> published v' \<Longrightarrow> issued v c \<Longrightarrow> issued v' c"
  unfolding issued_def by (elim exE conjE, intro exI conjI, assumption+, erule le_trans)

lemma shape_advance:
  assumes S: "shape N s V" and n: "n \<in> N" and A: "advance N s V n s' v'"
  shows "shape N s' (V(n := v'))"
proof -
  have frame: "\<And>m. m \<noteq> n \<Longrightarrow> ctl s' m = ctl s m \<and> addr s' m = addr s m \<and> offer s' m = offer s m"
    and stor: "storage s' = storage s"
    using A unfolding advance_def apart_def by blast+
  have slots: "\<And>d. slot_get s' d = slot_get s d \<or> slot_get s' d = Some NONE \<or>
      debt_node d = n \<and> (\<exists>p. slot_get s' d = Some p \<and> covers v' d p)"
    using A unfolding advance_def slots_step_def by blast
  have env: "\<And>e. e \<noteq> envelope s n (V n) \<Longrightarrow> envelopes s' e = envelopes s e" "envelopes s' (envelope s n (V n)) \<noteq> None"
    and cov: "\<And>d p. (d, p) \<in> owed_of s' \<Longrightarrow> covers (V n) d p \<Longrightarrow> covered N s' (V(n := v')) d p"
    and ahead: "\<And>m p a g. m \<in> N \<Longrightarrow> m \<noteq> n \<Longrightarrow> waiting s m (V m) a g p \<Longrightarrow> ahead (V n) p a m g \<Longrightarrow> ahead v' p a m g"
    and own: "linked N s' (V(n := v')) n" "load_ok s' n v'" "help_ok N s' (V(n := v')) n" "owner_ok v'"
    and fresh: "\<And>c. issued (V n) c \<Longrightarrow> ctl s' n = c \<Longrightarrow> ctl s n = c \<and> offer s' n = offer s n"
    and envn: "envelope s' n v' = envelope s n (V n)"
    using A unfolding advance_def by blast+
  have iss: "\<And>c. issued (V n) c \<Longrightarrow> issued v' c"
    using A issued_mono unfolding advance_def by blast
  let ?V = "V(n := v')"
  have envs: "envelope s' m (?V m) = envelope s m (V m)" for m
    using envn frame[of m] envelope_frame[of s' m s "V m"] by (cases "m = n") simp_all
  have dist: "envelope s m (V m) \<noteq> envelope s n (V n)" if "m \<in> N" "m \<noteq> n" for m
    using S n that by (auto simp: shape_def envelopes_ok_def inj_on_def)
  have "covered N s' ?V d p" if dp: "(d, p) \<in> owed_of s'" for d p
  proof -
    have "(d, p) \<in> owed_of s \<or> covers v' d p" using slots[of d] dp by auto
    then show ?thesis
    proof
      assume "(d, p) \<in> owed_of s"
      then have "covered N s V d p" using S by (simp add: shape_def del: owed_of_iff)
      then consider a where "storage s a = Some p" | "covers (V n) d p" | m where "m \<in> N" "m \<noteq> n" "covers (V m) d p"
        by (auto simp: covered_def)
      then show ?thesis
      proof cases
        case 2 then show ?thesis by (rule cov[OF dp])
      next
        case (3 m) then show ?thesis by (auto simp: covered_def intro!: bexI[of _ m])
      qed (auto simp: covered_def stor)
    next
      assume "covers v' d p" then show ?thesis using n by (auto simp: covered_def intro!: bexI[of _ n])
    qed
  qed
  moreover have "linked N s' ?V m \<and> load_ok s' m (?V m) \<and> help_ok N s' ?V m \<and> owner_ok (?V m)" if m: "m \<in> N" "m \<noteq> n" for m
  proof -
    have old: "linked N s V m" "load_ok s m (V m)" "help_ok N s V m" "owner_ok (V m)" using S m by (auto simp: shape_def)
    have "linked N s' ?V m"
      unfolding linked_def
    proof (intro allI impI)
      fix a g p assume w: "waiting s' m (?V m) a g p"
      then have w': "waiting s m (V m) a g p" using frame[OF m(2)] m(2) by (simp add: waiting_def)
      then consider "storage s a = Some p" | k where "k \<in> N" "ahead (V k) p a m g"
        using old(1) unfolding linked_def by blast
      then show "storage s' a = Some p \<or> (\<exists>k\<in>N. ahead (?V k) p a m g)"
      proof cases
        case (2 k)
        then have "ahead (?V k) p a m g" using ahead[OF m w'] by (cases "k = n") simp_all
        then show ?thesis using 2 by blast
      qed (simp add: stor)
    qed
    moreover have "load_ok s' m (V m)"
      using load_ok_frame[OF old(2)] frame[OF m(2)] stor slots m(2) by (metis)
    moreover have "help_ok N s' ?V m"
      unfolding help_ok_def
    proof (intro allI impI)
      fix who h assume "hp (?V m) = Some (who, h)"
      then have h: "hp (V m) = Some (who, h)" using m(2) by simp
      then have o: "who \<in> N" "who \<noteq> m" "hview_ok s m who h" "ld (V m) = None \<or> (\<exists>c. h = Seen c)"
          "\<And>c. seen h = Some c \<Longrightarrow> is_gen c \<Longrightarrow> issued (V who) c"
        using old(3) by (auto simp: help_ok_def)
      have e: "envelopes s' (envelope s m (V m)) = envelopes s (envelope s m (V m))" by (rule env(1)[OF dist[OF m]])
      have "hview_ok s' m who h"
      proof (cases "who = n")
        case False
        then show ?thesis by (intro hview_ok_frame[OF old(3) h] e) (simp_all add: frame m(2))
      next
        case True
        let ?s = "s\<lparr>envelopes := envelopes s'\<rparr>"
        have f: "ctl ?s k = ctl s k" "offer ?s k = offer s k" for k by (simp_all add: ctl_def offer_def node_at_def)
        have "hview_ok ?s m who h" by (rule hview_ok_frame[OF old(3) h f f(2)]) (simp add: e)
        then show ?thesis
          using o(5) fresh frame[OF m(2)] True by (cases h) (auto simp: f)
      qed
      moreover have "issued (?V who) c" if "seen h = Some c" "is_gen c" for c
        using o(5)[OF that] iss by auto
      ultimately show "who \<in> N \<and> who \<noteq> m \<and> hview_ok s' m who h \<and> (\<forall>c. seen h = Some c \<and> is_gen c \<longrightarrow> issued (?V who) c) \<and>
          (ld (?V m) = None \<or> (\<exists>c. h = Seen c))"
        using o(1,2,4) m(2) by simp
    qed
    ultimately show ?thesis using old(4) m(2) by simp
  qed
  moreover have "envelopes_ok N s' ?V"
    unfolding envelopes_ok_def envs
  proof (intro conjI ballI)
    show "inj_on (\<lambda>m. envelope s m (V m)) N" using S by (simp add: shape_def envelopes_ok_def)
    fix m assume m: "m \<in> N"
    show "aligned4 (envelope s m (V m))" using S m by (simp add: shape_def envelopes_ok_def)
    show "envelopes s' (envelope s m (V m)) \<noteq> None"
      using S m env(1)[OF dist[OF m]] env(2) by (cases "m = n") (auto simp: shape_def envelopes_ok_def)
  qed
  ultimately show ?thesis using own unfolding shape_def by (metis fun_upd_same)
qed

section \<open>The books of the threads\<close>

definition rest :: "usize set \<Rightarrow> 'v shared \<Rightarrow> (usize \<Rightarrow> tv) \<Rightarrow> usize \<Rightarrow> handles" where
  "rest N s V n = (\<Sum>m\<in>N - {n}. part s m (V m))"

lemma claims_split: "finite N \<Longrightarrow> n \<in> N \<Longrightarrow> claims N s V H = H + part s n (V n) + rest N s V n"
  by (simp add: claims_def rest_def sum.remove[of N n])

lemma IDLE_not_env [simp]: "\<not> is_env IDLE" "\<not> is_gen IDLE"
  by (simp_all add: is_env_def is_gen_def tag_defs)

lemma gen_not_env: "is_gen c \<Longrightarrow> \<not> is_env c"
  by (simp add: is_env_def is_gen_def tag_defs)

lemma part_frame:
  assumes "load_ok s m v" and "ctl s' m = ctl s m"
    and "envelopes s' (envelope s m v) = envelopes s (envelope s m v)"
  shows "part s' m v = part s m v"
proof (cases "ld v")
  case None
  then show ?thesis using assms(1,2) by (simp add: part_def load_claims_def inflight_def load_ok_def)
next
  case (Some x)
  obtain a l where x: "x = (a, l)" by (cases x)
  have "lclaims s' l = lclaims s l" using assms(3) Some x by (cases l) (simp_all add: envelope_def)
  moreover have "inflight s' m = inflight s m"
  proof (cases "is_env (ctl s m)")
    case True
    then have "envelope s m v = untag (ctl s m)"
      using assms(1) Some x by (cases l) (auto simp: load_ok_def envelope_def)
    then show ?thesis using assms(2,3) by (simp add: inflight_def)
  qed (simp add: inflight_def assms(2))
  ultimately show ?thesis using Some x by (simp add: part_def load_claims_def)
qed

lemma shape_distinct:
  "shape N s V \<Longrightarrow> n \<in> N \<Longrightarrow> m \<in> N \<Longrightarrow> m \<noteq> n \<Longrightarrow> envelope s m (V m) \<noteq> envelope s n (V n)"
  by (auto simp: shape_def envelopes_ok_def inj_on_def)

lemma rest_frame:
  assumes "shape N s V" and "n \<in> N" and "\<And>m. m \<noteq> n \<Longrightarrow> ctl s' m = ctl s m"
    and "\<And>e. e \<noteq> envelope s n (V n) \<Longrightarrow> envelopes s' e = envelopes s e"
  shows "rest N s' (V(n := v')) n = rest N s V n"
  unfolding rest_def
proof (rule sum.cong)
  fix m assume m: "m \<in> N - {n}"
  then have "envelopes s' (envelope s m (V m)) = envelopes s (envelope s m (V m))"
    using shape_distinct[OF assms(1,2)] assms(4) by simp
  then have "part s' m (V m) = part s m (V m)"
    using m assms(1,3) by (intro part_frame) (auto simp: shape_def)
  then show "part s' m ((V(n := v')) m) = part s m (V m)" using m by simp
qed simp

text \<open>What keeps the pointer of a claim alive: a storage, a writer, or a second claim on the same debt.\<close>

lemma pending_claimed: "pending l = Some (p, d) \<Longrightarrow> (p, Some d) \<in># lclaims s l"
  by (cases l) auto

lemma part_in_claims: "finite N \<Longrightarrow> m \<in> N \<Longrightarrow> part s m (V m) \<subseteq># claims N s V H"
  by (simp add: claims_split[of N m] add.assoc add.left_commute)

lemma claim_alive:
  assumes C: "core cnt N s V H" and p: "p \<noteq> 0" and n: "n \<in> N"
    and x: "(p, x) \<in># H + oc (V n) + load_claims s (ld (V n)) + inflight s n"
    and own: "\<And>d a l. x = Some d \<Longrightarrow> ld (V n) = Some (a, l) \<Longrightarrow> pending l = Some (p, d) \<Longrightarrow> (p, x) \<in># H + oc (V n)"
  shows "0 < cnt (heap s) p"
proof -
  let ?C = "claims N s V H"
  have fin: "finite N" and acc: "account (view cnt s) ?C" and S: "shape N s V"
    using C by (auto simp: core_def accounted_def)
  have split: "?C = H + oc (V n) + load_claims s (ld (V n)) + inflight s n + rest N s V n"
    using claims_split[OF fin n] by (simp add: part_def ac_simps)
  have claim: "(p, x) \<in># ?C" using x split by auto
  have "0 < counts (view cnt s) p"
  proof (cases "\<exists>d. x = Some d \<and> (d, p) \<in> owed_of s")
    case False
    then show ?thesis using account_alive_claim[OF acc p claim] by (auto simp del: owed_of_iff)
  next
    case True
    then obtain d where d: "x = Some d" "(d, p) \<in> owed_of s" by blast
    then have "covered N s V d p" using S by (simp add: shape_def del: owed_of_iff)
    then consider a where "storage s a = Some p" | m a R U where "m \<in> N" "wr (V m) = Some (p, a, R, U)"
      | m a l where "m \<in> N" "ld (V m) = Some (a, l)" "pending l = Some (p, d)"
      by (auto simp: covered_def covers_def)
    then show ?thesis
    proof cases
      case 1 then show ?thesis using account_alive_stored[OF acc p] by simp
    next
      case (2 m a R U)
      then have "(p, None) \<in># oc (V m)" using S by (auto simp: shape_def owner_ok_def)
      then have "(p, None) \<in># ?C" using claims_split[OF fin 2(1), of s V H] by (simp add: part_def)
      then show ?thesis by (rule account_alive_owner[OF acc p])
    next
      case (3 m a l)
      have pend: "(p, x) \<in># load_claims s (ld (V m))" using pending_claimed[OF 3(3)] 3(2) d(1) by (simp add: load_claims_def)
      have "2 \<le> count ?C (p, x)"
      proof (cases "m = n")
        case True
        then have "(p, x) \<in># H + oc (V n)" using own[OF d(1)] 3 by blast
        then have "1 \<le> count (H + oc (V n)) (p, x)" "1 \<le> count (load_claims s (ld (V n))) (p, x)"
          using pend True by (simp_all only: count_greater_eq_one_iff)
        then show ?thesis unfolding split count_union by linarith
      next
        case False
        then have "rest N s V n = part s m (V m) + (\<Sum>k\<in>N - {n} - {m}. part s k (V k))"
          unfolding rest_def using fin 3(1) by (intro sum.remove) auto
        then have "(p, x) \<in># rest N s V n" using pend by (simp add: part_def)
        then have "1 \<le> count (rest N s V n) (p, x)" "1 \<le> count (H + oc (V n) + load_claims s (ld (V n)) + inflight s n) (p, x)"
          using x by (simp_all only: count_greater_eq_one_iff)
        then show ?thesis unfolding split count_union by linarith
      qed
      then show ?thesis using account_alive_claim[OF acc p claim] by blast
    qed
  qed
  then show ?thesis by simp
qed

section \<open>Steps and the books\<close>

text \<open>
  \<open>mine\<close> are the handles of the clients together with what one thread has in hand. A step of that thread
  moves references and debts in \<open>mine\<close> only.
\<close>

definition mine :: "'v shared \<Rightarrow> usize \<Rightarrow> tv \<Rightarrow> handles \<Rightarrow> handles" where
  "mine s n v H = H + part s n v"

lemma core_advance:
  assumes C: "core cnt N s V H" and n: "n \<in> N" and A: "advance N s V n s' v'"
    and acc: "\<And>R. account (view cnt s) (mine s n (V n) H + R) \<Longrightarrow> account (view cnt s') (mine s' n v' H' + R)"
    and ex: "\<And>p d. (p, Some d) \<in># mine s' n v' H' \<Longrightarrow> (p, Some d) \<in># mine s n (V n) H \<or> slot_get s d \<noteq> None"
  shows "core cnt N s' (V(n := v')) H'"
proof -
  let ?R = "rest N s V n"
  have fin: "finite N" and dom: "N \<subseteq> dom (nodes s)" and S: "shape N s V"
    and old: "account (view cnt s) (claims N s V H)" "\<And>p d. (p, Some d) \<in># claims N s V H \<Longrightarrow> slot_get s d \<noteq> None"
    using C by (auto simp: core_def accounted_def)
  have ap: "apart n s s'" and sl: "slots_step n v' s s'" using A by (auto simp: advance_def)
  have keep: "slot_get s' d \<noteq> None" if "slot_get s d \<noteq> None" for d
    using sl that unfolding slots_step_def by (metis option.distinct(1))
  have R: "rest N s' (V(n := v')) n = ?R"
    using A ap by (intro rest_frame[OF S n]) (auto simp: advance_def apart_def)
  have c: "claims N s V H = mine s n (V n) H + ?R" "claims N s' (V(n := v')) H' = mine s' n v' H' + ?R"
    using claims_split[OF fin n, of s V H] claims_split[OF fin n, of s' "V(n := v')" H'] R by (simp_all add: mine_def)
  have "slot_get s' d \<noteq> None" if "(p, Some d) \<in># claims N s' (V(n := v')) H'" for p d
    using that ex[of p d] old(2)[of p d] keep c by auto
  then show ?thesis
    using fin dom ap shape_advance[OF S n A] acc[of ?R] old(1) c by (simp add: core_def accounted_def apart_def)
qed

text \<open>The kinds of movement.\<close>

lemma core_quiet:
  assumes "core cnt N s V H" and "n \<in> N" and "advance N s V n s' v'"
    and "view cnt s' = view cnt s" and "mine s' n v' H' = mine s n (V n) H"
  shows "core cnt N s' (V(n := v')) H'"
  by (rule core_advance[OF assms(1-3)]) (simp_all add: assms(4,5))

lemma core_write:
  assumes "core cnt N s V H" and "n \<in> N" and "advance N s V n (slot_set d p s) v'"
    and "slot_get s d = Some NONE" and "p \<noteq> NONE"
    and "mine (slot_set d p s) n v' H' = add_mset (p, Some d) (mine s n (V n) H)"
  shows "core cnt N (slot_set d p s) (V(n := v')) H'"
proof (rule core_advance[OF assms(1-3)])
  fix R assume "account (view cnt s) (mine s n (V n) H + R)"
  then have "account (acquired p (Some d) (view cnt s)) (add_mset (p, Some d) (mine s n (V n) H + R))"
    by (rule account_write) (use assms(4,5) in auto)
  then show "account (view cnt (slot_set d p s)) (mine (slot_set d p s) n v' H' + R)"
    using view_claim[OF assms(4,5), of cnt] by (simp add: assms(6))
qed (use assms(4,6) in auto)

lemma core_pay:
  assumes "core cnt N s V H" and "n \<in> N" and "advance N s V n (slot_set d NONE s) v'"
    and "slot_get s d = Some p" and "p \<noteq> NONE" and "x = None \<or> x = Some d"
    and "mine s n (V n) H = add_mset (p, x) (mine (slot_set d NONE s) n v' H')"
  shows "core cnt N (slot_set d NONE s) (V(n := v')) H'"
proof (rule core_advance[OF assms(1-3)])
  fix R assume a: "account (view cnt s) (mine s n (V n) H + R)"
  have "account ((view cnt s)\<lparr>owed := owed (view cnt s) - {(d, p)}\<rparr>) (mine s n (V n) H + R - {#(p, x)#})"
    by (rule account_pay[OF a]) (use assms(4-7) in auto)
  then show "account (view cnt (slot_set d NONE s)) (mine (slot_set d NONE s) n v' H' + R)"
    using view_clear[OF assms(4), of cnt] by (simp add: assms(7))
qed (use assms(7) in auto)

lemma core_relabel:
  assumes "core cnt N s V H" and "n \<in> N" and "advance N s V n s v'" and "slot_get s d \<noteq> Some p"
    and "mine s n (V n) H = add_mset (p, Some d) X" and "mine s n v' H' = add_mset (p, None) X"
  shows "core cnt N s (V(n := v')) H'"
proof (rule core_advance[OF assms(1-3)])
  fix R assume a: "account (view cnt s) (mine s n (V n) H + R)"
  show "account (view cnt s) (mine s n v' H' + R)"
    using account_relabel[OF a, of p d] assms(4-6) by simp
qed (use assms(5,6) in auto)

context shared_cnt
begin

lemma core_inc:
  assumes "core cnt N s V H" and "n \<in> N" and "advance N s V n (s\<lparr>heap := up p (heap s)\<rparr>) v'"
    and "live (heap s) p" and "p \<noteq> NONE"
    and "mine (s\<lparr>heap := up p (heap s)\<rparr>) n v' H' = add_mset (p, None) (mine s n (V n) H)"
  shows "core cnt N (s\<lparr>heap := up p (heap s)\<rparr>) (V(n := v')) H'"
proof (rule core_advance[OF assms(1-3)])
  fix R assume a: "account (view cnt s) (mine s n (V n) H + R)"
  show "account (view cnt (s\<lparr>heap := up p (heap s)\<rparr>)) (mine (s\<lparr>heap := up p (heap s)\<rparr>) n v' H' + R)"
    using account_inc[OF a assms(5)] view_up[OF assms(4)] by (simp add: assms(6))
qed (use assms(6) in auto)

lemma core_dec:
  assumes "core cnt N s V H" and "n \<in> N" and "advance N s V n (s\<lparr>heap := down p (heap s)\<rparr>) v'"
    and "live (heap s) p"
    and "mine s n (V n) H = add_mset (p, None) (mine (s\<lparr>heap := down p (heap s)\<rparr>) n v' H')"
  shows "core cnt N (s\<lparr>heap := down p (heap s)\<rparr>) (V(n := v')) H'"
proof (rule core_advance[OF assms(1-3)])
  fix R assume a: "account (view cnt s) (mine s n (V n) H + R)"
  show "account (view cnt (s\<lparr>heap := down p (heap s)\<rparr>)) (mine (s\<lparr>heap := down p (heap s)\<rparr>) n v' H' + R)"
    using account_dec[OF a, of p] view_down[OF assms(4)] by (simp add: assms(5))
qed (use assms(5) in auto)

text \<open>A reference in hand, or a confirmed debt, can be counted up and down.\<close>

lemma claim_live:
  assumes "core cnt N s V H" and "n \<in> N" and "(p, x) \<in># mine s n (V n) H"
    and "\<And>d a l. x = Some d \<Longrightarrow> ld (V n) = Some (a, l) \<Longrightarrow> pending l \<noteq> Some (p, d)"
  shows "live (heap s) p"
proof (cases "p = 0")
  case True
  then show ?thesis using null_ok by (simp add: live_ptr_def)
next
  case False
  have "(p, x) \<in># H + oc (V n) + load_claims s (ld (V n)) + inflight s n"
    using assms(3) by (auto simp: mine_def part_def)
  then have "0 < cnt (heap s) p"
    using assms(4) by (intro claim_alive[OF assms(1) False assms(2), of x]) blast+
  then show ?thesis using False by (simp add: live_ptr_def)
qed

end

lemma claim_not_NONE: "core cnt N s V H \<Longrightarrow> n \<in> N \<Longrightarrow> (p, x) \<in># mine s n (V n) H \<Longrightarrow> p \<noteq> NONE"
  using claims_split[of N n s V H] account_not_NONE(2)[of "view cnt s" "claims N s V H" p x]
  by (auto simp: core_def accounted_def mine_def)

lemma claim_slot: "core cnt N s V H \<Longrightarrow> n \<in> N \<Longrightarrow> (p, Some d) \<in># mine s n (V n) H \<Longrightarrow> slot_get s d \<noteq> None"
  using claims_split[of N n s V H] unfolding core_def accounted_def mine_def by auto

section \<open>Steps of a load\<close>

text \<open>A load changes the counter of the load and, when it announces itself, the generation.\<close>

lemma advance_load:
  assumes C: "core cnt N s V H" and n: "n \<in> N" and l: "ld (V n) = Some (a, l)"
    and ap: "apart n s s'" and env: "envelopes s' = envelopes s"
    and slots: "\<And>d. slot_get s' d = slot_get s d \<or> slot_get s d \<noteq> None \<and> slot_get s' d = Some NONE \<or>
      slot_get s d \<noteq> None \<and> debt_node d = n \<and> (\<exists>p. slot_get s' d = Some p \<and> pending l' = Some (p, d))"
    and pend: "\<And>p d. pending l = Some (p, d) \<Longrightarrow> (d, p) \<in> owed_of s' \<Longrightarrow> pending l' = Some (p, d) \<or>
      storage s a = Some p \<or> (\<exists>m\<in>N. \<exists>a R U. wr (V m) = Some (p, a, R, U) \<and> d \<in> R)"
    and wait: "\<And>g p. awaiting l' = Some (g, p) \<Longrightarrow> ctl s' n = g \<Longrightarrow>
      storage s a = Some p \<or> awaiting l = Some (g, p) \<and> ctl s n = g"
    and ok: "load_ok s' n ((V n)\<lparr>ld := Some (a, l'), gen := g'\<rparr>)"
    and pub: "published (V n) \<le> published ((V n)\<lparr>ld := Some (a, l'), gen := g'\<rparr>)"
    and fresh: "\<And>c. issued (V n) c \<Longrightarrow> ctl s' n = c \<Longrightarrow> ctl s n = c \<and> offer s' n = offer s n"
    and envn: "envelope s' n ((V n)\<lparr>ld := Some (a, l'), gen := g'\<rparr>) = envelope s n (V n)"
  shows "advance N s V n s' ((V n)\<lparr>ld := Some (a, l'), gen := g'\<rparr>)"
proof -
  let ?v = "(V n)\<lparr>ld := Some (a, l'), gen := g'\<rparr>"
  have S: "shape N s V" using C by (simp add: core_def)
  have stor: "storage s' = storage s" using ap by (simp add: apart_def)
  have "slots_step n ?v s s'" using slots unfolding slots_step_def covers_def by fastforce
  moreover have "envelopes s (envelope s n (V n)) \<noteq> None" using S n by (auto simp: shape_def envelopes_ok_def)
  moreover have "covered N s' (V(n := ?v)) d p" if o: "(d, p) \<in> owed_of s'" and c: "covers (V n) d p" for d p
  proof -
    have wr: "\<exists>m\<in>N. covers ((V(n := ?v)) m) d p" if "m \<in> N" "wr (V m) = Some (p, b, R, U)" "d \<in> R" for m b R U
      using that by (intro bexI[of _ m]) (auto simp: covers_def)
    from c consider b R U where "wr (V n) = Some (p, b, R, U)" "d \<in> R" | "pending l = Some (p, d)"
      using l by (auto simp: covers_def)
    then show ?thesis
    proof cases
      case 1 then show ?thesis using wr[OF n] by (auto simp: covered_def)
    next
      case 2
      then consider "pending l' = Some (p, d)" | "storage s a = Some p" | m b R U where "m \<in> N" "wr (V m) = Some (p, b, R, U)" "d \<in> R"
        using pend[OF _ o] by blast
      then show ?thesis
      proof cases
        case 1 then show ?thesis using n by (auto simp: covered_def covers_def intro!: bexI[of _ n])
      next
        case 2 then show ?thesis using stor by (auto simp: covered_def)
      next
        case 3 then show ?thesis using wr by (auto simp: covered_def)
      qed
    qed
  qed
  moreover have "linked N s' (V(n := ?v)) n"
    unfolding linked_def
  proof (intro allI impI)
    fix b g p assume "waiting s' n ((V(n := ?v)) n) b g p"
    then have b: "b = a" "awaiting l' = Some (g, p)" "ctl s' n = g" by (auto simp: waiting_def)
    have "storage s a = Some p \<or> (\<exists>m\<in>N. ahead (V m) p a n g)"
      using wait[OF b(2,3)] S n l unfolding shape_def linked_def waiting_def by blast
    moreover have "ahead ((V(n := ?v)) m) p a n g" if "ahead (V m) p a n g" for m using that by (auto simp: ahead_def)
    ultimately show "storage s' b = Some p \<or> (\<exists>m\<in>N. ahead ((V(n := ?v)) m) p b n g)" unfolding stor b(1) by blast
  qed
  moreover have "help_ok N s' (V(n := ?v)) n"
    unfolding help_ok_def
  proof (intro allI impI)
    fix who h assume "hp ((V(n := ?v)) n) = Some (who, h)"
    then have h: "hp (V n) = Some (who, h)" by simp
    have "help_ok N s V n" using S n by (simp add: shape_def)
    then have o: "who \<in> N" "who \<noteq> n" "\<exists>c. h = Seen c" "\<And>c. seen h = Some c \<Longrightarrow> is_gen c \<Longrightarrow> issued (V who) c"
      using h l unfolding help_ok_def by auto
    then show "who \<in> N \<and> who \<noteq> n \<and> hview_ok s' n who h \<and> (\<forall>c. seen h = Some c \<and> is_gen c \<longrightarrow> issued ((V(n := ?v)) who) c) \<and>
        (ld ((V(n := ?v)) n) = None \<or> (\<exists>c. h = Seen c))" by auto
  qed
  moreover have "owner_ok ?v" using S n by (simp add: shape_def owner_ok_def)
  ultimately show ?thesis
    using ap env ok pub fresh envn unfolding advance_def by (auto simp: ahead_def)
qed

end
