(* ===== verification/LoadSafety.thy ===== *)
theory LoadSafety
  imports Protocol
begin

unbundle bit_operations_syntax

text \<open>
  Every atomic access of a load keeps the invariant of \<open>Protocol\<close> and does not fault, whatever the other
  threads have done before it.
\<close>

section \<open>The fields of a node\<close>

definition on_helping :: "usize \<Rightarrow> (HelpingSlots \<Rightarrow> HelpingSlots) \<Rightarrow> 'v shared \<Rightarrow> 'v shared" where
  "on_helping n f s = s\<lparr>nodes := (nodes s)(n := map_option (\<lambda>nd. nd\<lparr>helping := f (helping nd)\<rparr>) (nodes s n))\<rparr>"

lemma on_helping_frame [simp]:
  "heap (on_helping n f s) = heap s" "storage (on_helping n f s) = storage s"
  "envelopes (on_helping n f s) = envelopes s" "dom (nodes (on_helping n f s)) = dom (nodes s)"
  "list_head (on_helping n f s) = list_head s" "node_cnt (on_helping n f s) = node_cnt s"
  by (auto simp: on_helping_def split: if_splits)

lemma on_helping_other [simp]:
  "m \<noteq> n \<Longrightarrow> ctl (on_helping n f s) m = ctl s m" "m \<noteq> n \<Longrightarrow> addr (on_helping n f s) m = addr s m"
  "m \<noteq> n \<Longrightarrow> offer (on_helping n f s) m = offer s m"
  by (simp_all add: on_helping_def ctl_def addr_def offer_def node_at_def)

lemma on_helping_own:
  "n \<in> dom (nodes s) \<Longrightarrow> ctl (on_helping n f s) n = control (f (helping (node_at s n)))"
  "n \<in> dom (nodes s) \<Longrightarrow> addr (on_helping n f s) n = active_addr (f (helping (node_at s n)))"
  "n \<in> dom (nodes s) \<Longrightarrow> offer (on_helping n f s) n = space_offer (f (helping (node_at s n)))"
  by (auto simp: on_helping_def ctl_def addr_def offer_def node_at_def)

lemma slot_get_on_helping:
  assumes "\<And>h. slot (f h) = slot h"
  shows "slot_get (on_helping n f s) d = slot_get s d"
  by (cases d) (auto simp: on_helping_def assms option.map_comp comp_def split: option.splits)

lemma view_on_helping:
  assumes "\<And>h. slot (f h) = slot h"
  shows "view cnt (on_helping n f s) = view cnt s"
  by (simp add: view_def owed_of_def slot_get_on_helping[OF assms])

lemma apart_on_helping: "apart n s (on_helping n f s)"
  by (simp add: apart_def)

lemma chained_on_helping [simp]: "chained (on_helping n f s) ns \<longleftrightarrow> chained s ns"
proof -
  have "next_of (on_helping n f s) = next_of s"
    by (auto simp: on_helping_def next_of_def fun_eq_iff split: option.splits)
  moreover have "(\<forall>m nd. nodes (on_helping n f s) m = Some nd \<longrightarrow> node_ok nd) \<longleftrightarrow> (\<forall>m nd. nodes s m = Some nd \<longrightarrow> node_ok nd)"
    by (auto simp: on_helping_def node_ok_def split: if_splits)
  ultimately show ?thesis by (simp add: chained_def)
qed

text \<open>The chain with all its nodes in use.\<close>

definition steady :: "'v shared \<Rightarrow> usize list \<Rightarrow> bool" where
  "steady s ns \<longleftrightarrow> chained s ns \<and> (\<forall>n\<in>set ns. in_use (node_at s n) = NODE_USED)"

lemma steady_frame [simp]:
  "steady (s\<lparr>heap := h\<rparr>) ns = steady s ns" "steady (s\<lparr>storage := g\<rparr>) ns = steady s ns"
  "steady (s\<lparr>envelopes := e\<rparr>) ns = steady s ns" "steady (s\<lparr>arc_supply := ps\<rparr>) ns = steady s ns"
  by (simp_all add: steady_def node_at_def)

lemma steady_on_helping [simp]: "steady (on_helping n f s) ns \<longleftrightarrow> steady s ns"
proof -
  have "chained s ns \<Longrightarrow> m \<in> set ns \<Longrightarrow> in_use (node_at (on_helping n f s) m) = in_use (node_at s m)" for m
    using chained_node[of s ns m] by (auto simp: on_helping_def node_at_def)
  then show ?thesis by (auto simp: steady_def)
qed

lemma steady_slot_set [simp]: "steady (slot_set d v s) ns \<longleftrightarrow> steady s ns"
proof -
  have "chained s ns \<Longrightarrow> m \<in> set ns \<Longrightarrow> in_use (node_at (slot_set d v s) m) = in_use (node_at s m)" for m
    using chained_node[of s ns m] by (auto simp: slot_set_def node_at_def)
  then show ?thesis by (auto simp: steady_def)
qed

lemma helping_slots_solo:
  assumes "solo w" and "n \<in> dom (nodes (sh w))"
  shows "control_swap n v w = (Inr (ctl (sh w) n), w\<lparr>sh := on_helping n (control_update (\<lambda>_. v)) (sh w)\<rparr>)"
    and "active_addr_store n v w = (Inr (), w\<lparr>sh := on_helping n (active_addr_update (\<lambda>_. v)) (sh w)\<rparr>)"
    and "space_offer_store n v w = (Inr (), w\<lparr>sh := on_helping n (space_offer_update (\<lambda>_. v)) (sh w)\<rparr>)"
    and "control_load n w = (Inr (ctl (sh w) n), w)"
    and "active_addr_load n w = (Inr (addr (sh w) n), w)"
    and "space_offer_load n w = (Inr (offer (sh w) n), w)"
  using assms
  by (auto simp: control_swap_solo active_addr_store_solo space_offer_store_solo control_load_solo active_addr_load_solo
      space_offer_load_solo on_helping_def ctl_def addr_def offer_def node_at_def)

lemma slot_set_fields [simp]:
  "ctl (slot_set d v s) m = ctl s m" "addr (slot_set d v s) m = addr s m" "offer (slot_set d v s) m = offer s m"
  "dom (nodes (slot_set d v s)) = dom (nodes s)"
proof -
  have "node_at (slot_set d v s) m = node_at s m \<or> (\<exists>nd. nodes s m = Some nd \<and> node_at (slot_set d v s) m = node_set_slot d v nd)"
    by (auto simp: slot_set_def node_at_def split: if_splits option.splits)
  then show "ctl (slot_set d v s) m = ctl s m" "addr (slot_set d v s) m = addr s m" "offer (slot_set d v s) m = offer s m"
    by (cases d; auto simp: ctl_def addr_def offer_def node_at_def)+
  show "dom (nodes (slot_set d v s)) = dom (nodes s)" by (auto simp: slot_set_def split: if_splits)
qed

lemma apart_slot_set: "apart n s (slot_set d v s)"
  by (simp add: apart_def)

lemma heap_fields [simp]:
  "ctl (s\<lparr>heap := h\<rparr>) m = ctl s m" "addr (s\<lparr>heap := h\<rparr>) m = addr s m" "offer (s\<lparr>heap := h\<rparr>) m = offer s m"
  by (simp_all add: ctl_def addr_def offer_def node_at_def)

lemma apart_heap: "apart n s (s\<lparr>heap := h\<rparr>)" "apart n s s"
  by (simp_all add: apart_def)

section \<open>Kinds of steps of a load\<close>

abbreviation at_load :: "tv \<Rightarrow> usize \<Rightarrow> lpc \<Rightarrow> usize \<Rightarrow> tv" where
  "at_load v a l g \<equiv> v\<lparr>ld := Some (a, l), gen := g\<rparr>"

text \<open>The two obligations on the counter of a load that are not about its own node.\<close>

definition confirms :: "usize set \<Rightarrow> 'v shared \<Rightarrow> (usize \<Rightarrow> tv) \<Rightarrow> usize \<Rightarrow> lpc \<Rightarrow> 'v shared \<Rightarrow> lpc \<Rightarrow> bool" where
  "confirms N s V a l s' l' \<longleftrightarrow> (\<forall>p d. pending l = Some (p, d) \<and> (d, p) \<in> owed_of s' \<longrightarrow> pending l' = Some (p, d) \<or>
      storage s a = Some p \<or> (\<exists>m\<in>N. \<exists>a R U. wr (V m) = Some (p, a, R, U) \<and> d \<in> R))"

definition awaits :: "'v shared \<Rightarrow> usize \<Rightarrow> usize \<Rightarrow> lpc \<Rightarrow> 'v shared \<Rightarrow> lpc \<Rightarrow> bool" where
  "awaits s n a l s' l' \<longleftrightarrow> (\<forall>g p. awaiting l' = Some (g, p) \<and> ctl s' n = g \<longrightarrow>
      storage s a = Some p \<or> awaiting l = Some (g, p) \<and> ctl s n = g)"

definition load_next :: "usize set \<Rightarrow> 'v shared \<Rightarrow> (usize \<Rightarrow> tv) \<Rightarrow> usize \<Rightarrow> usize \<Rightarrow> lpc \<Rightarrow> 'v shared \<Rightarrow> lpc \<Rightarrow> usize \<Rightarrow> bool" where
  "load_next N s V n a l s' l' g' \<longleftrightarrow> confirms N s V a l s' l' \<and> awaits s n a l s' l' \<and>
     load_ok s' n (at_load (V n) a l' g') \<and> published (V n) \<le> published (at_load (V n) a l' g') \<and>
     envelope s' n (at_load (V n) a l' g') = envelope s n (V n)"

lemma issued_gen: "issued v c \<Longrightarrow> is_gen c"
  by (auto simp: issued_def is_gen_def aligned4_gen_tag)

lemma load_advance_same:
  assumes "core cnt N s V H" and "n \<in> N" and "ld (V n) = Some (a, l)" and "load_next N s V n a l s' l' g'"
    and "apart n s s'" and "envelopes s' = envelopes s" and "\<And>d. slot_get s' d = slot_get s d"
    and "ctl s' n = ctl s n" and "offer s' n = offer s n"
  shows "advance N s V n s' (at_load (V n) a l' g')"
  by (rule advance_load[OF assms(1-3,5,6)])
    (use assms(4,7-9) in \<open>auto simp: load_next_def confirms_def awaits_def\<close>)

lemma load_silent:
  assumes "core cnt N s V H" and "n \<in> N" and "ld (V n) = Some (a, l)" and "load_next N s V n a l s l' (gen (V n))"
    and "lclaims s l' = lclaims s l"
  shows "core cnt N s (V(n := at_load (V n) a l' (gen (V n)))) H"
  by (rule core_quiet[OF assms(1,2) load_advance_same[OF assms(1-4)]])
    (use assms(3,5) in \<open>simp_all add: apart_heap mine_def part_def load_claims_def\<close>)

lemma load_field:
  assumes "core cnt N s V H" and "n \<in> N" and "ld (V n) = Some (a, l)"
    and "load_next N s V n a l (on_helping n f s) l' g'" and "\<And>h. slot (f h) = slot h"
    and "\<And>c. is_gen c \<Longrightarrow> issued (V n) c \<Longrightarrow> ctl (on_helping n f s) n = c \<Longrightarrow> ctl s n = c \<and> offer (on_helping n f s) n = offer s n"
    and "lclaims (on_helping n f s) l' + inflight (on_helping n f s) n = lclaims s l + inflight s n"
  shows "core cnt N (on_helping n f s) (V(n := at_load (V n) a l' g')) H"
proof (rule core_quiet[OF assms(1,2)])
  show "advance N s V n (on_helping n f s) (at_load (V n) a l' g')"
    by (rule advance_load[OF assms(1-3) apart_on_helping])
      (use assms(4,6) slot_get_on_helping[OF assms(5)] issued_gen in \<open>auto simp: load_next_def confirms_def awaits_def\<close>)
  show "view cnt (on_helping n f s) = view cnt s" by (rule view_on_helping[OF assms(5)])
  show "mine (on_helping n f s) n (at_load (V n) a l' g') H = mine s n (V n) H"
    using assms(3,7) by (simp add: mine_def part_def load_claims_def add.assoc)
qed

lemma inflight_slot_set [simp]: "inflight (slot_set d v s) n = inflight s n"
  by (simp add: inflight_def)

lemma lclaims_frame [simp]: "lclaims (slot_set d v s) l = lclaims s l" "lclaims (s\<lparr>heap := h\<rparr>) l = lclaims s l"
  by (cases l; simp)+

lemma inflight_heap [simp]: "inflight (s\<lparr>heap := h\<rparr>) n = inflight s n"
  by (simp add: inflight_def)

lemma load_write:
  assumes "core cnt N s V H" and "n \<in> N" and "ld (V n) = Some (a, l)"
    and "load_next N s V n a l (slot_set d p s) l' (gen (V n))"
    and "slot_get s d = Some NONE" and "p \<noteq> NONE" and "debt_node d = n" and "pending l' = Some (p, d)"
    and "lclaims s l' = add_mset (p, Some d) (lclaims s l)"
  shows "core cnt N (slot_set d p s) (V(n := at_load (V n) a l' (gen (V n)))) H"
proof (rule core_write[OF assms(1,2) _ assms(5,6)])
  have "slot_get (slot_set d p s) e = slot_get s e \<or> e = d \<and> slot_get (slot_set d p s) e = Some p" for e
    using assms(5) by (cases "e = d") simp_all
  then show "advance N s V n (slot_set d p s) (at_load (V n) a l' (gen (V n)))"
    by (intro advance_load[OF assms(1-3) apart_slot_set])
      (use assms(4,5,7,8) in \<open>auto simp: load_next_def confirms_def awaits_def simp del: slot_get_set\<close>)
  show "mine (slot_set d p s) n (at_load (V n) a l' (gen (V n))) H = add_mset (p, Some d) (mine s n (V n) H)"
    using assms(3,9) by (simp add: mine_def part_def load_claims_def)
qed

lemma load_pay:
  assumes "core cnt N s V H" and "n \<in> N" and "ld (V n) = Some (a, l)"
    and "load_next N s V n a l (slot_set d NONE s) l' (gen (V n))" and "slot_get s d = Some p" and "p \<noteq> NONE"
    and "lclaims s l = add_mset (p, Some d) (lclaims s l')"
  shows "core cnt N (slot_set d NONE s) (V(n := at_load (V n) a l' (gen (V n)))) H"
proof (rule core_pay[OF assms(1,2) _ assms(5,6)])
  have "slot_get (slot_set d NONE s) e = slot_get s e \<or> e = d \<and> slot_get (slot_set d NONE s) e = Some NONE" for e
    using assms(5) by (cases "e = d") simp_all
  then show "advance N s V n (slot_set d NONE s) (at_load (V n) a l' (gen (V n)))"
    by (intro advance_load[OF assms(1-3) apart_slot_set])
      (use assms(4,5) in \<open>auto simp: load_next_def confirms_def awaits_def simp del: slot_get_set\<close>)
  show "mine s n (V n) H = add_mset (p, Some d) (mine (slot_set d NONE s) n (at_load (V n) a l' (gen (V n))) H)"
    using assms(3,7) by (simp add: mine_def part_def load_claims_def)
qed simp

lemma load_relabel:
  assumes "core cnt N s V H" and "n \<in> N" and "ld (V n) = Some (a, l)" and "load_next N s V n a l s l' (gen (V n))"
    and "slot_get s d \<noteq> Some p" and "lclaims s l = add_mset (p, Some d) X" and "lclaims s l' = add_mset (p, None) X"
  shows "core cnt N s (V(n := at_load (V n) a l' (gen (V n)))) H"
  by (rule core_relabel[OF assms(1,2) load_advance_same[OF assms(1-4)] assms(5), where X = "H + oc (V n) + X + inflight s n"])
    (use assms(3,6,7) in \<open>simp_all add: apart_heap mine_def part_def load_claims_def\<close>)

context shared_cnt
begin

lemma load_inc:
  assumes "core cnt N s V H" and "n \<in> N" and "ld (V n) = Some (a, l)"
    and "load_next N s V n a l (s\<lparr>heap := up p (heap s)\<rparr>) l' (gen (V n))"
    and "live (heap s) p" and "p \<noteq> NONE" and "lclaims s l' = add_mset (p, None) (lclaims s l)"
  shows "core cnt N (s\<lparr>heap := up p (heap s)\<rparr>) (V(n := at_load (V n) a l' (gen (V n)))) H"
  by (rule core_inc[OF assms(1,2) load_advance_same[OF assms(1-4)] assms(5,6)])
    (use assms(3,7) in \<open>simp_all add: apart_heap mine_def part_def load_claims_def\<close>)

lemma load_dec:
  assumes "core cnt N s V H" and "n \<in> N" and "ld (V n) = Some (a, l)"
    and "load_next N s V n a l (s\<lparr>heap := down p (heap s)\<rparr>) l' (gen (V n))"
    and "live (heap s) p" and "lclaims s l = add_mset (p, None) (lclaims s l')"
  shows "core cnt N (s\<lparr>heap := down p (heap s)\<rparr>) (V(n := at_load (V n) a l' (gen (V n)))) H"
  by (rule core_dec[OF assms(1,2) load_advance_same[OF assms(1-4)] assms(5)])
    (use assms(3,6) in \<open>simp_all add: apart_heap mine_def part_def load_claims_def\<close>)

end

section \<open>Every access of a load\<close>

definition running :: "('v heap \<Rightarrow> usize \<Rightarrow> nat) \<Rightarrow> usize list \<Rightarrow> (usize \<Rightarrow> tv) \<Rightarrow> handles \<Rightarrow> usize \<Rightarrow> 'v world \<Rightarrow> bool" where
  "running cnt ns V H n w \<longleftrightarrow> core cnt (set ns) (sh w) V H \<and> n \<in> set ns \<and> solo w \<and> steady (sh w) ns \<and>
     node (loc w) = Some n \<and> generation (loc w) = gen (V n)"

definition kept :: "'v world \<Rightarrow> 'v world \<Rightarrow> bool" where
  "kept w w' \<longleftrightarrow> solo w' \<and> dom (storage (sh w')) = dom (storage (sh w)) \<and> fuel w' = fuel w"

text \<open>The access succeeds and leaves the invariant with the next counter in place of this one.\<close>

definition load_safe :: "('t, 'v) RefCnt \<Rightarrow> ('v heap \<Rightarrow> usize \<Rightarrow> nat) \<Rightarrow> usize list \<Rightarrow> (usize \<Rightarrow> tv) \<Rightarrow> handles \<Rightarrow> usize \<Rightarrow> usize \<Rightarrow> 'v world \<Rightarrow> lpc \<Rightarrow> bool" where
  "load_safe T cnt ns V H n a w l \<longleftrightarrow> (\<exists>l' w'. load_atom T a l w = (Inr l', w') \<and> kept w w' \<and>
     running cnt ns (V(n := at_load (V n) a l' (generation (loc w')))) H n w')"

lemma load_safeI:
  assumes "running cnt ns V H n w" and "load_atom T a l w = (Inr l', w')"
    and "core cnt (set ns) (sh w') (V(n := at_load (V n) a l' (generation (loc w')))) H"
    and "steady (sh w') ns" "node (loc w') = Some n" "kept w w'"
  shows "load_safe T cnt ns V H n a w l"
  using assms unfolding load_safe_def running_def kept_def by fastforce

lemma running_facts:
  assumes "running cnt ns V H n w" and "ld (V n) = Some (a, l)"
  shows "core cnt (set ns) (sh w) V H" "n \<in> set ns" "solo w" "steady (sh w) ns" "node (loc w) = Some n"
    "generation (loc w) = gen (V n)" "n \<in> dom (nodes (sh w))"
    "ctl_ok (sh w) n (gen (V n)) a l" "slot_ok (sh w) n l" "lpc_ok (sh w) n l" "aligned4 (gen (V n))"
    "storage (sh w) a \<noteq> None" "\<And>p. storage (sh w) a = Some p \<Longrightarrow> p \<noteq> NONE"
proof -
  show C: "core cnt (set ns) (sh w) V H" and n: "n \<in> set ns" and "solo w" "steady (sh w) ns" "node (loc w) = Some n"
      "generation (loc w) = gen (V n)"
    using assms(1) by (auto simp: running_def)
  show "n \<in> dom (nodes (sh w))" using C n by (auto simp: core_def)
  have "load_ok (sh w) n (V n)" using C n by (auto simp: core_def shape_def)
  then show "ctl_ok (sh w) n (gen (V n)) a l" "slot_ok (sh w) n l" "lpc_ok (sh w) n l" "aligned4 (gen (V n))"
      "storage (sh w) a \<noteq> None"
    using assms(2) by (auto simp: load_ok_def)
  show "storage (sh w) a = Some p \<Longrightarrow> p \<noteq> NONE" for p
    using C account_not_NONE(1)[of "view cnt (sh w)" _ a p] by (auto simp: core_def accounted_def)
qed

text \<open>A silent access leaves the world as it was.\<close>

lemma load_safe_silent:
  assumes "running cnt ns V H n w" and "ld (V n) = Some (a, l)" and "load_atom T a l w = (Inr l', w)"
    and "load_next (set ns) (sh w) V n a l (sh w) l' (gen (V n))" and "lclaims (sh w) l' = lclaims (sh w) l"
  shows "load_safe T cnt ns V H n a w l"
  using assms(1,3)
proof (rule load_safeI)
  note f = running_facts[OF assms(1,2)]
  show "core cnt (set ns) (sh w) (V(n := at_load (V n) a l' (generation (loc w)))) H"
    using load_silent[OF f(1,2) assms(2,4,5)] f(6) by simp
qed (use running_facts[OF assms(1,2)] in \<open>simp_all add: kept_def\<close>)

lemmas load_defs = load_next_def confirms_def awaits_def load_ok_def published_def envelope_def slot_ok_def

lemma local_node_held:
  assumes "running cnt ns V H n w"
  shows "local_node w = (Inr n, w)"
proof -
  have c: "chained (sh w) ns" "n \<in> set ns" using assms by (simp_all add: running_def steady_def)
  obtain nd where "nodes (sh w) n = Some nd" using chained_node[OF c] by blast
  then show ?thesis using assms local_node_solo[of w n nd] by (auto simp: running_def steady_def node_at_def)
qed

lemma fast_slot: "steady s ns \<Longrightarrow> n \<in> set ns \<Longrightarrow> i < DEBT_SLOT_CNT \<Longrightarrow> slot_get s (FastDebt n i) \<noteq> None"
  using chained_node[of s ns n] by (auto simp: node_ok_def steady_def)

lemma slot_index_lt: "slot_index off i < DEBT_SLOT_CNT"
  unfolding slot_index_def unat_slot_index by (simp add: DEBT_SLOT_CNT_def)

lemma load_ptr_safe:
  assumes "running cnt ns V H n w" and "ld (V n) = Some (a, LdPtr)"
  shows "load_safe T cnt ns V H n a w LdPtr"
proof -
  note f = running_facts[OF assms]
  obtain p where p: "storage (sh w) a = Some p" "p \<noteq> NONE" using f(12,13) by blast
  show ?thesis
    by (rule load_safe_silent[OF assms, of _ "LdNode p"])
      (use f(3,8,9,11) p assms(2) in \<open>auto simp: bnd_apply storage_load_solo load_defs\<close>)
qed

lemma scan_next_ok:
  assumes "running cnt ns V H n w" and "ld (V n) = Some (a, l)" and "p \<noteq> NONE"
    and "l = LdNode p \<or> (\<exists>i is'. l = LdScan n p off i is')"
  shows "load_next (set ns) (sh w) V n a l (sh w) (scan_next n p off is) (gen (V n)) \<and>
    lclaims (sh w) (scan_next n p off is) = lclaims (sh w) l"
  using running_facts[OF assms(1,2)] assms(2-4) by (cases "is") (auto simp: load_defs)

lemma load_node_safe:
  assumes "running cnt ns V H n w" and "ld (V n) = Some (a, LdNode p)"
  shows "load_safe T cnt ns V H n a w (LdNode p)"
proof -
  note f = running_facts[OF assms]
  have p: "p \<noteq> NONE" using f(10) by simp
  show ?thesis
    by (rule load_safe_silent[OF assms, of _ "scan_next n p (offset (loc w)) [0..<DEBT_SLOT_CNT]"])
      (use local_node_held[OF assms(1)] scan_next_ok[OF assms p] in \<open>auto simp: bnd_apply loc_exec\<close>)
qed

lemma load_scan_safe:
  assumes "running cnt ns V H n w" and "ld (V n) = Some (a, LdScan m p off i is)"
  shows "load_safe T cnt ns V H n a w (LdScan m p off i is)"
proof -
  note f = running_facts[OF assms]
  have m: "m = n" "p \<noteq> NONE" using f(10) by simp_all
  obtain v where v: "slot_get (sh w) (FastDebt n (slot_index off i)) = Some v"
    using fast_slot[OF f(4,2) slot_index_lt] by blast
  let ?l = "if v = NONE then LdSwap n p (slot_index off i) else scan_next n p off is"
  have "load_next (set ns) (sh w) V n a (LdScan m p off i is) (sh w) ?l (gen (V n)) \<and> lclaims (sh w) ?l = lclaims (sh w) (LdScan m p off i is)"
  proof (cases "v = NONE")
    case True
    then show ?thesis using assms(2) f(8,9,11,12) v m by (auto simp: load_defs simp del: slot_get.simps)
  next
    case False
    then show ?thesis using scan_next_ok[OF assms m(2)] m(1) by simp
  qed
  then show ?thesis
    by (intro load_safe_silent[OF assms, of _ ?l])
      (use f(3) v m in \<open>simp_all add: bnd_apply slot_load_solo del: slot_get.simps\<close>)
qed

lemma load_swap_safe:
  assumes "running cnt ns V H n w" and "ld (V n) = Some (a, LdSwap m p j)"
  shows "load_safe T cnt ns V H n a w (LdSwap m p j)"
proof -
  note f = running_facts[OF assms]
  let ?d = "FastDebt n j"
  let ?l = "LdConf p ?d"
  have m: "m = n" "p \<noteq> NONE" "slot_get (sh w) ?d = Some NONE" using f(10) by (simp_all del: slot_get.simps)
  have "load_next (set ns) (sh w) V n a (LdSwap m p j) (slot_set ?d p (sh w)) ?l (gen (V n))"
    using f(8,9,11,12) assms(2) m by (auto simp: load_defs simp del: slot_get.simps)
  then have "core cnt (set ns) (slot_set ?d p (sh w)) (V(n := at_load (V n) a ?l (gen (V n)))) H"
    by (rule load_write[OF f(1,2) assms(2) _ m(3,2)]) simp_all
  then show ?thesis
    by (intro load_safeI[OF assms(1), of _ _ _ ?l "w\<lparr>sh := slot_set ?d p (sh w), loc := (loc w)\<lparr>offset := of_nat j + 1\<rparr>\<rparr>"])
      (use f m in \<open>simp_all add: bnd_apply slot_swap_solo loc_exec kept_def del: slot_get.simps\<close>)
qed

lemma load_conf_safe:
  assumes "running cnt ns V H n w" and "ld (V n) = Some (a, LdConf p d)"
  shows "load_safe T cnt ns V H n a w (LdConf p d)"
proof -
  note f = running_facts[OF assms]
  obtain q where q: "storage (sh w) a = Some q" using f(12) by blast
  show ?thesis
    by (rule load_safe_silent[OF assms, of _ "if p = q then LdDone q (Some d) else LdBack p d"])
      (use f(3,8-11) q assms(2) in \<open>auto simp: bnd_apply storage_load_solo load_defs simp del: slot_get.simps\<close>)
qed

text \<open>A debt given back: the slot still holds it, or a writer has paid it and left a reference.\<close>

lemma load_pay_safe:
  assumes R: "running cnt ns V H n w" and l: "ld (V n) = Some (a, l)"
    and atom: "load_atom T a l = bnd (pay d p) (\<lambda>paid. ret (if paid then lp else lu))"
    and c: "lclaims (sh w) l = add_mset (p, Some d) X" "lclaims (sh w) lp = X" "lclaims (sh w) lu = add_mset (p, None) X"
    and n1: "slot_get (sh w) d = Some p \<Longrightarrow> p \<noteq> NONE \<Longrightarrow> load_next (set ns) (sh w) V n a l (slot_set d NONE (sh w)) lp (gen (V n))"
    and n2: "slot_get (sh w) d \<noteq> Some p \<Longrightarrow> load_next (set ns) (sh w) V n a l (sh w) lu (gen (V n))"
  shows "load_safe T cnt ns V H n a w l"
proof -
  note f = running_facts[OF R l]
  have claim: "(p, Some d) \<in># mine (sh w) n (V n) H" using c(1) l by (simp add: mine_def part_def load_claims_def)
  have p: "p \<noteq> NONE" by (rule claim_not_NONE[OF f(1,2) claim])
  obtain v where v: "slot_get (sh w) d = Some v" using claim_slot[OF f(1,2) claim] by blast
  show ?thesis
  proof (cases "v = p")
    case True
    have "core cnt (set ns) (slot_set d NONE (sh w)) (V(n := at_load (V n) a lp (gen (V n)))) H"
      by (rule load_pay[OF f(1,2) l n1 _ p]) (use v True p c in simp_all)
    then show ?thesis
      by (intro load_safeI[OF R, of _ _ _ lp "w\<lparr>sh := slot_set d NONE (sh w)\<rparr>"])
        (use f v True in \<open>simp_all add: atom bnd_apply pay_solo kept_def\<close>)
  next
    case False
    have "core cnt (set ns) (sh w) (V(n := at_load (V n) a lu (gen (V n)))) H"
      by (rule load_relabel[OF f(1,2) l n2]) (use v False c in simp_all)
    then show ?thesis
      by (intro load_safeI[OF R, of _ _ _ lu w]) (use f v False in \<open>simp_all add: atom bnd_apply pay_solo kept_def\<close>)
  qed
qed

lemma load_back_safe:
  assumes "running cnt ns V H n w" and "ld (V n) = Some (a, LdBack p d)"
  shows "load_safe T cnt ns V H n a w (LdBack p d)"
proof (rule load_pay_safe[OF assms])
  note f = running_facts[OF assms]
  obtain j where j: "d = FastDebt n j" using f(10) by auto
  show "load_next (set ns) (sh w) V n a (LdBack p d) (slot_set d NONE (sh w)) FbNode (gen (V n))" if "slot_get (sh w) d = Some p" "p \<noteq> NONE"
    using f(8,9,11,12) assms(2) that j by (auto simp: load_defs simp del: slot_get.simps)
  show "load_next (set ns) (sh w) V n a (LdBack p d) (sh w) (LdDone p None) (gen (V n))" if "slot_get (sh w) d \<noteq> Some p"
    using f(8,9,11,12) assms(2) that j by (auto simp: load_defs simp del: slot_get.simps)
qed simp_all

lemma fb_node_safe:
  assumes "running cnt ns V H n w" and "ld (V n) = Some (a, FbNode)"
  shows "load_safe T cnt ns V H n a w FbNode"
  by (rule load_safe_silent[OF assms, of _ "FbAddr n"])
    (use running_facts[OF assms] local_node_held[OF assms(1)] assms(2) in \<open>auto simp: bnd_apply load_defs\<close>)

lemma unat_gen_step: "g + 4 \<noteq> (0 :: usize) \<Longrightarrow> aligned4 g \<Longrightarrow> unat (g + 4) = unat g + 4"
proof -
  assume g: "g + 4 \<noteq> 0" "aligned4 g"
  have "uint g mod 4 = 0" using g(2) by (simp add: aligned4_uint)
  moreover have "uint g < 2 ^ 64" using uint_lt2p[of g] by simp
  moreover have "uint g + 4 \<noteq> 2 ^ 64"
  proof
    assume "uint g + 4 = 2 ^ 64"
    then have "uint (g + 4) = 0" by (simp add: uint_word_ariths)
    then show False using g(1) by (simp add: uint_0_iff)
  qed
  ultimately have "uint g + 4 < 2 ^ 64" by (simp, presburger)
  then have "uint (g + 4) = uint g + 4" by (simp add: uint_word_ariths)
  then show ?thesis unfolding unat_eq_nat_uint using nat_add_distrib[of "uint g" 4] by (simp only: uint_ge_0 zero_le_numeral nat_numeral)
qed

lemma fb_addr_safe:
  assumes "running cnt ns V H n w" and "ld (V n) = Some (a, FbAddr m)" and "gen (V n) + 4 \<noteq> 0"
  shows "load_safe T cnt ns V H n a w (FbAddr m)"
proof -
  note f = running_facts[OF assms(1,2)]
  let ?g = "gen (V n) + 4" and ?f = "active_addr_update (\<lambda>_. a)"
  let ?l = "FbCtl n (?g OR GEN_TAG) False"
  have m: "m = n" using f(10) by simp
  have g: "aligned4 ?g" "unat ?g = unat (gen (V n)) + 4" using f(11) unat_gen_step[OF assms(3)] by simp_all
  have o: "ctl (on_helping n ?f (sh w)) n = ctl (sh w) n" "offer (on_helping n ?f (sh w)) n = offer (sh w) n"
      "addr (on_helping n ?f (sh w)) n = a" "slot_get (on_helping n ?f (sh w)) d = slot_get (sh w) d" for d
    using on_helping_own[OF f(7), of ?f] slot_get_on_helping[of ?f n "sh w" d] by (simp_all add: ctl_def offer_def)
  have "core cnt (set ns) (on_helping n ?f (sh w)) (V(n := at_load (V n) a ?l ?g)) H"
  proof (rule load_field[OF f(1,2) assms(2)])
    show "load_next (set ns) (sh w) V n a (FbAddr m) (on_helping n ?f (sh w)) ?l ?g"
      using f(8,9,11,12) assms(2) g o m by (auto simp: load_defs simp del: slot_get.simps)
  qed (use o in \<open>simp_all add: inflight_def\<close>)
  then show ?thesis
    by (intro load_safeI[OF assms(1), of _ _ _ ?l "w\<lparr>sh := on_helping n ?f (sh w), loc := (loc w)\<lparr>generation := ?g\<rparr>\<rparr>"])
      (use f m g assms(3) aligned4_gen_bit[OF g(1)] in \<open>simp_all add: bnd_apply helping_slots_solo loc_exec kept_def Let_def\<close>)
qed

lemma issued_bound: "issued v (g OR GEN_TAG) \<Longrightarrow> aligned4 g \<Longrightarrow> unat g \<le> published v"
  by (auto simp: issued_def) (metis gen_untag)

lemma fb_ctl_safe:
  assumes "running cnt ns V H n w" and "ld (V n) = Some (a, FbCtl m c b)"
  shows "load_safe T cnt ns V H n a w (FbCtl m c b)"
proof -
  note f = running_facts[OF assms(1,2)]
  let ?f = "control_update (\<lambda>_. c)"
  have m: "m = n" "\<not> b" "ctl (sh w) n = IDLE" "c = gen (V n) OR GEN_TAG" "addr (sh w) n = a" "4 \<le> unat (gen (V n))"
    using f(8,10) by simp_all
  have o: "ctl (on_helping n ?f (sh w)) n = c" "offer (on_helping n ?f (sh w)) n = offer (sh w) n"
      "addr (on_helping n ?f (sh w)) n = addr (sh w) n" "slot_get (on_helping n ?f (sh w)) d = slot_get (sh w) d" for d
    using on_helping_own[OF f(7), of ?f] slot_get_on_helping[of ?f n "sh w" d] by (simp_all add: addr_def offer_def)
  have c: "is_gen c" "\<not> is_env c" using aligned4_gen_tag[OF f(11)] gen_not_env m(4) by (auto simp: is_gen_def)
  have new: "\<not> issued (V n) c"
    using issued_bound[of "V n" "gen (V n)"] f(11) m assms(2) by (auto simp: published_def)
  have "core cnt (set ns) (on_helping n ?f (sh w)) (V(n := at_load (V n) a (FbCand c) (gen (V n)))) H"
  proof (rule load_field[OF f(1,2) assms(2)])
    show "load_next (set ns) (sh w) V n a (FbCtl m c b) (on_helping n ?f (sh w)) (FbCand c) (gen (V n))"
      using f(9,11,12) assms(2) o m c by (auto simp: load_defs in_transaction_def simp del: slot_get.simps)
  qed (use o c m new in \<open>auto simp: inflight_def\<close>)
  then show ?thesis
    by (intro load_safeI[OF assms(1), of _ _ _ "FbCand c" "w\<lparr>sh := on_helping n ?f (sh w)\<rparr>"])
      (use f m in \<open>simp_all add: bnd_apply helping_slots_solo kept_def\<close>)
qed

lemma fb_cand_safe:
  assumes "running cnt ns V H n w" and "ld (V n) = Some (a, FbCand g)"
  shows "load_safe T cnt ns V H n a w (FbCand g)"
proof -
  note f = running_facts[OF assms]
  obtain p where p: "storage (sh w) a = Some p" "p \<noteq> NONE" using f(12,13) by blast
  show ?thesis
    by (rule load_safe_silent[OF assms, of _ "FbConf g p"])
      (use f(3,8,9,11) p assms(2) in \<open>auto simp: bnd_apply storage_load_solo load_defs\<close>)
qed

lemma fb_conf_safe:
  assumes "running cnt ns V H n w" and "ld (V n) = Some (a, FbConf g p)"
  shows "load_safe T cnt ns V H n a w (FbConf g p)"
  by (rule load_safe_silent[OF assms, of _ "FbSlot n g p"])
    (use running_facts[OF assms] local_node_held[OF assms(1)] assms(2) in \<open>auto simp: bnd_apply load_defs\<close>)

lemma fb_slot_safe:
  assumes "running cnt ns V H n w" and "ld (V n) = Some (a, FbSlot m g p)"
  shows "load_safe T cnt ns V H n a w (FbSlot m g p)"
proof -
  note f = running_facts[OF assms]
  let ?d = "HelpingDebt n"
  let ?l = "FbIdle n g p"
  have m: "m = n" "p \<noteq> NONE" "slot_get (sh w) ?d = Some NONE" using f(9,10) by (simp_all add: slot_ok_def del: slot_get.simps)
  have "load_next (set ns) (sh w) V n a (FbSlot m g p) (slot_set ?d p (sh w)) ?l (gen (V n))"
    using f(8,11,12) assms(2) m by (auto simp: load_defs in_transaction_def simp del: slot_get.simps)
  then have "core cnt (set ns) (slot_set ?d p (sh w)) (V(n := at_load (V n) a ?l (gen (V n)))) H"
    by (rule load_write[OF f(1,2) assms(2) _ m(3,2)]) simp_all
  then show ?thesis
    by (intro load_safeI[OF assms(1), of _ _ _ ?l "w\<lparr>sh := slot_set ?d p (sh w)\<rparr>"])
      (use f m in \<open>simp_all add: bnd_apply slot_swap_solo kept_def del: slot_get.simps\<close>)
qed

text \<open>
  The confirmation. Nobody helped: the candidate is still in the storage or its writer has not come past
  this node, so the debt is covered. Somebody helped: the replacement in the envelope becomes the reader's.
\<close>

lemma fb_idle_confirmed:
  assumes "running cnt ns V H n w" and "ld (V n) = Some (a, FbIdle m g p)" and "ctl (sh w) n = g"
  shows "storage (sh w) a = Some p \<or> (\<exists>k\<in>set ns. \<exists>a R U. wr (V k) = Some (p, a, R, U) \<and> HelpingDebt n \<in> R)"
proof -
  note f = running_facts[OF assms(1,2)]
  have S: "shape (set ns) (sh w) V" using f(1) by (simp add: core_def)
  have "waiting (sh w) n (V n) a g p" using assms(2,3) by (simp add: waiting_def)
  moreover have "linked (set ns) (sh w) V n" using S f(2) by (simp add: shape_def)
  ultimately consider "storage (sh w) a = Some p" | k where "k \<in> set ns" "ahead (V k) p a n g" unfolding linked_def by blast
  then show ?thesis
  proof cases
    case (2 k)
    then obtain R U where r: "wr (V k) = Some (p, a, R, U)" "U n g" by (auto simp: ahead_def)
    moreover have "owner_ok (V k)" using S 2 by (simp add: shape_def)
    ultimately have "HelpingDebt n \<in> R" by (auto simp: owner_ok_def)
    then show ?thesis using r 2(1) by blast
  qed simp
qed

lemma fb_idle_safe:
  assumes "running cnt ns V H n w" and "ld (V n) = Some (a, FbIdle m g p)"
  shows "load_safe T cnt ns V H n a w (FbIdle m g p)"
proof -
  note f = running_facts[OF assms]
  let ?f = "control_update (\<lambda>_. IDLE)" and ?c = "ctl (sh w) n"
  let ?l = "if ?c = g then FbInc n p else FbEnv n p (untag ?c)"
  have m: "m = n" "g = gen (V n) OR GEN_TAG" "?c = g \<or> is_env ?c" using f(8,10) by (auto simp: in_transaction_def)
  have o: "ctl (on_helping n ?f (sh w)) n = IDLE" "offer (on_helping n ?f (sh w)) n = offer (sh w) n"
      "slot_get (on_helping n ?f (sh w)) d = slot_get (sh w) d" for d
    using on_helping_own[OF f(7), of ?f] slot_get_on_helping[of ?f n "sh w" d] by (simp_all add: offer_def)
  have g: "is_gen g" "\<not> is_env g" using aligned4_gen_tag[OF f(11)] gen_not_env m(2) by (auto simp: is_gen_def)
  have "core cnt (set ns) (on_helping n ?f (sh w)) (V(n := at_load (V n) a ?l (gen (V n)))) H"
  proof (rule load_field[OF f(1,2) assms(2)])
    show "load_next (set ns) (sh w) V n a (FbIdle m g p) (on_helping n ?f (sh w)) ?l (gen (V n))"
    proof (cases "?c = g")
      case True
      then show ?thesis
        using fb_idle_confirmed[OF assms True] f(9,11,12) assms(2) o m g
        by (auto simp: load_defs simp del: slot_get.simps)
    next
      case False
      then show ?thesis using f(9,11,12) assms(2) o m g by (auto simp: load_defs simp del: slot_get.simps)
    qed
    show "lclaims (on_helping n ?f (sh w)) ?l + inflight (on_helping n ?f (sh w)) n = lclaims (sh w) (FbIdle m g p) + inflight (sh w) n"
      using o m g by (auto simp: inflight_def)
  qed (use o in auto)
  then show ?thesis
    by (intro load_safeI[OF assms(1), of _ _ _ ?l "w\<lparr>sh := on_helping n ?f (sh w)\<rparr>"])
      (use f m in \<open>auto simp: bnd_apply helping_slots_solo kept_def untag_def is_env_def\<close>)
qed

lemma fb_pay_safe:
  assumes "running cnt ns V H n w" and "ld (V n) = Some (a, FbPay m p)"
  shows "load_safe T cnt ns V H n a w (FbPay m p)"
proof (rule load_pay_safe[OF assms, where d = "HelpingDebt n" and lp = "LdDone p None" and lu = "FbDec p" and X = "{#(p, None)#}"])
  note f = running_facts[OF assms]
  have m: "m = n" using f(10) by simp
  show "load_next (set ns) (sh w) V n a (FbPay m p) (slot_set (HelpingDebt n) NONE (sh w)) (LdDone p None) (gen (V n))"
    if "slot_get (sh w) (HelpingDebt n) = Some p" "p \<noteq> NONE"
    using f(8,9,11,12) assms(2) that by (auto simp: load_defs simp del: slot_get.simps)
  show "load_next (set ns) (sh w) V n a (FbPay m p) (sh w) (FbDec p) (gen (V n))" if "slot_get (sh w) (HelpingDebt n) \<noteq> Some p"
    using f(8,9,11,12) assms(2) that by (auto simp: load_defs simp del: slot_get.simps)
  show "load_atom T a (FbPay m p) = bnd (pay (HelpingDebt n) p) (\<lambda>paid. ret (if paid then LdDone p None else FbDec p))"
    unfolding m load_atom.simps by (intro bnd_cong) simp
  show "lclaims (sh w) (FbPay m p) = {#(p, Some (HelpingDebt n)), (p, None)#}" by (simp add: m)
qed simp_all

lemma fb_cancel_safe:
  assumes "running cnt ns V H n w" and "ld (V n) = Some (a, FbCancel m p r)"
  shows "load_safe T cnt ns V H n a w (FbCancel m p r)"
proof (rule load_pay_safe[OF assms, where d = "HelpingDebt n" and lp = "LdDone r None" and lu = "FbCancelDec p r" and X = "{#(r, None)#}"])
  note f = running_facts[OF assms]
  have m: "m = n" using f(10) by simp
  show "load_next (set ns) (sh w) V n a (FbCancel m p r) (slot_set (HelpingDebt n) NONE (sh w)) (LdDone r None) (gen (V n))"
    if "slot_get (sh w) (HelpingDebt n) = Some p" "p \<noteq> NONE"
    using f(8,9,11,12) assms(2) that m by (auto simp: load_defs simp del: slot_get.simps)
  show "load_next (set ns) (sh w) V n a (FbCancel m p r) (sh w) (FbCancelDec p r) (gen (V n))" if "slot_get (sh w) (HelpingDebt n) \<noteq> Some p"
    using f(8,9,11,12) assms(2) that m by (auto simp: load_defs simp del: slot_get.simps)
  show "load_atom T a (FbCancel m p r) = bnd (pay (HelpingDebt n) p) (\<lambda>paid. ret (if paid then LdDone r None else FbCancelDec p r))"
    unfolding m load_atom.simps by (intro bnd_cong) simp
  show "lclaims (sh w) (FbCancel m p r) = {#(p, Some (HelpingDebt n)), (r, None)#}" by (simp add: m)
qed simp_all

lemma fb_env_safe:
  assumes "running cnt ns V H n w" and "ld (V n) = Some (a, FbEnv m p e)"
  shows "load_safe T cnt ns V H n a w (FbEnv m p e)"
proof -
  note f = running_facts[OF assms]
  have "envelope (sh w) n (V n) = e" using assms(2) by (simp add: envelope_def)
  then obtain r where r: "envelopes (sh w) e = Some r" using f(1,2) by (auto simp: core_def shape_def envelopes_ok_def)
  show ?thesis
    by (rule load_safe_silent[OF assms, of _ "FbOffer m p e r"])
      (use f(3,8-12) assms(2) r in \<open>auto simp: bnd_apply envelope_load_solo load_defs simp del: slot_get.simps\<close>)
qed

lemma fb_offer_safe:
  assumes "running cnt ns V H n w" and "ld (V n) = Some (a, FbOffer m p e r)"
  shows "load_safe T cnt ns V H n a w (FbOffer m p e r)"
proof -
  note f = running_facts[OF assms]
  let ?f = "space_offer_update (\<lambda>_. e)" and ?l = "FbCancel n p r"
  have m: "m = n" "ctl (sh w) n = IDLE" using f(8,10) by simp_all
  have o: "ctl (on_helping n ?f (sh w)) n = IDLE" "offer (on_helping n ?f (sh w)) n = e"
      "slot_get (on_helping n ?f (sh w)) d = slot_get (sh w) d" for d
    using on_helping_own[OF f(7), of ?f] slot_get_on_helping[of ?f n "sh w" d] m(2) by (simp_all add: ctl_def)
  have "core cnt (set ns) (on_helping n ?f (sh w)) (V(n := at_load (V n) a ?l (gen (V n)))) H"
  proof (rule load_field[OF f(1,2) assms(2)])
    show "load_next (set ns) (sh w) V n a (FbOffer m p e r) (on_helping n ?f (sh w)) ?l (gen (V n))"
      using f(9,11,12) assms(2) o m by (auto simp: load_defs simp del: slot_get.simps)
  qed (use o m in \<open>auto simp: inflight_def\<close>)
  then show ?thesis
    by (intro load_safeI[OF assms(1), of _ _ _ ?l "w\<lparr>sh := on_helping n ?f (sh w)\<rparr>"])
      (use f m in \<open>simp_all add: bnd_apply helping_slots_solo kept_def\<close>)
qed

context shared_cnt
begin

lemma fb_inc_safe:
  assumes "running cnt ns V H n w" and "ld (V n) = Some (a, FbInc m p)"
  shows "load_safe T cnt ns V H n a w (FbInc m p)"
proof -
  note f = running_facts[OF assms]
  have m: "m = n" using f(10) by simp
  have claim: "(p, Some (HelpingDebt n)) \<in># mine (sh w) n (V n) H" using assms(2) m by (simp add: mine_def part_def load_claims_def)
  have p: "live (heap (sh w)) p" "p \<noteq> NONE"
    using claim_live[OF f(1,2) claim] claim_not_NONE[OF f(1,2) claim] assms(2) by auto
  have "core cnt (set ns) ((sh w)\<lparr>heap := up p (heap (sh w))\<rparr>) (V(n := at_load (V n) a (FbPay n p) (gen (V n)))) H"
    by (rule load_inc[OF f(1,2) assms(2) _ p])
      (use f(8-12) assms(2) m in \<open>auto simp: load_defs simp del: slot_get.simps\<close>)
  then show ?thesis
    by (intro load_safeI[OF assms(1), of _ _ _ "FbPay n p" "w\<lparr>sh := (sh w)\<lparr>heap := up p (heap (sh w))\<rparr>\<rparr>"])
      (use f m p in \<open>simp_all add: bnd_apply inc_value_solo kept_def\<close>)
qed

lemma load_dec_safe:
  assumes "running cnt ns V H n w" and "ld (V n) = Some (a, l)"
    and "l = FbDec p \<and> l' = LdDone p None \<or> (\<exists>r. l = FbCancelDec p r \<and> l' = LdDone r None)"
  shows "load_safe T cnt ns V H n a w l"
proof -
  note f = running_facts[OF assms(1,2)]
  have c: "lclaims (sh w) l = add_mset (p, None) (lclaims (sh w) l')" using assms(3) by auto
  then have claim: "(p, None) \<in># mine (sh w) n (V n) H" using assms(2) by (simp add: mine_def part_def load_claims_def)
  have p: "live (heap (sh w)) p" using claim_live[OF f(1,2) claim] by simp
  have "core cnt (set ns) ((sh w)\<lparr>heap := down p (heap (sh w))\<rparr>) (V(n := at_load (V n) a l' (gen (V n)))) H"
    by (rule load_dec[OF f(1,2) assms(2) _ p c])
      (use f(8-12) assms(2,3) in \<open>auto simp: load_defs simp del: slot_get.simps\<close>)
  then show ?thesis
    by (intro load_safeI[OF assms(1), of _ _ _ l' "w\<lparr>sh := (sh w)\<lparr>heap := down p (heap (sh w))\<rparr>\<rparr>"])
      (use f p assms(3) in \<open>auto simp: bnd_apply dec_ptr_solo kept_def\<close>)
qed

theorem load_atom_safe:
  assumes "running cnt ns V H n w" and "ld (V n) = Some (a, l)" and "announces l \<Longrightarrow> gen (V n) + 4 \<noteq> 0"
  shows "load_safe T cnt ns V H n a w l"
proof (cases l)
  case (FbWrap m c)
  then show ?thesis using running_facts(10)[OF assms(1,2)] by simp
next
  case (LdDone p d)
  have "V(n := at_load (V n) a (LdDone p d) (gen (V n))) = V" using assms(2) LdDone by (simp add: fun_upd_idem)
  then show ?thesis
    using assms(1) LdDone unfolding load_safe_def by (simp add: kept_def running_def)
qed (use assms in \<open>simp_all add: load_ptr_safe load_node_safe load_scan_safe load_swap_safe load_conf_safe load_back_safe
      fb_node_safe fb_addr_safe fb_ctl_safe fb_cand_safe fb_conf_safe fb_slot_safe fb_idle_safe fb_inc_safe fb_pay_safe
      load_dec_safe fb_env_safe fb_offer_safe fb_cancel_safe\<close>)

end

end
