(* ===== verification/HelpSafety.thy ===== *)
theory HelpSafety
  imports LoadSafety
begin

unbundle bit_operations_syntax

text \<open>
  The accesses outside a load: counting references up and down, paying debts, and the helping
  transaction of a writer.
\<close>

section \<open>Steps between loads\<close>

text \<open>A thread that is not loading gains, spends or exchanges what it has in hand.\<close>

lemma idle_load_ok: "load_ok s n v \<Longrightarrow> ld v = None \<Longrightarrow> ctl s n = IDLE \<and> slot_get s (HelpingDebt n) = Some NONE"
  by (simp add: load_ok_def)

lemma advance_idle:
  assumes C: "core cnt N s V H" and n: "n \<in> N" and l: "ld (V n) = None"
    and l': "ld v' = None \<or> (\<exists>a. ld v' = Some (a, LdPtr) \<and> storage s a \<noteq> None)" and g: "gen v' = gen (V n)"
    and ap: "apart n s s'" and ctl: "ctl s' n = ctl s n"
    and slots: "\<And>d. slot_get s' d = slot_get s d \<or> slot_get s d \<noteq> None \<and> slot_get s' d = Some NONE"
    and env: "\<And>e. e \<noteq> envelope s n (V n) \<Longrightarrow> envelopes s' e = envelopes s e" "envelopes s' (envelope s n (V n)) \<noteq> None"
    and cov: "\<And>p a R U d. wr (V n) = Some (p, a, R, U) \<Longrightarrow> d \<in> R \<Longrightarrow> (d, p) \<in> owed_of s' \<Longrightarrow> covers v' d p"
    and ah: "\<And>p a R U m g. wr (V n) = Some (p, a, R, U) \<Longrightarrow> m \<in> N \<Longrightarrow> m \<noteq> n \<Longrightarrow> waiting s m (V m) a g p \<Longrightarrow> U m g \<Longrightarrow>
      ahead v' p a m g"
    and hlp: "help_ok N s' (V(n := v')) n" and own: "owner_ok v'"
    and envn: "envelope s' n v' = envelope s n (V n)"
  shows "advance N s V n s' v'"
proof -
  have S: "shape N s V" using C by (simp add: core_def)
  have ok: "load_ok s n (V n)" using S n by (simp add: shape_def)
  have idle: "ctl s n = IDLE" "slot_get s (HelpingDebt n) = Some NONE" using idle_load_ok[OF ok l] by simp_all
  have st: "storage s' = storage s" using ap by (simp add: apart_def)
  have "slot_get s' (HelpingDebt n) = Some NONE" using slots[of "HelpingDebt n"] idle(2) by auto
  then have load: "load_ok s' n v'"
    using ok l' idle(1) g ctl st by (auto simp: load_ok_def slot_ok_def simp del: slot_get.simps)
  have link: "linked N s' (V(n := v')) n" using l' by (auto simp: linked_def waiting_def)
  have covd: "\<forall>d p. (d, p) \<in> owed_of s' \<and> covers (V n) d p \<longrightarrow> covered N s' (V(n := v')) d p"
  proof (intro allI impI, elim conjE)
    fix d p assume o: "(d, p) \<in> owed_of s'" and c: "covers (V n) d p"
    obtain a R U where "wr (V n) = Some (p, a, R, U)" "d \<in> R" using c l by (auto simp: covers_def)
    then have "covers v' d p" using cov o by blast
    then show "covered N s' (V(n := v')) d p" unfolding covered_def using n by (metis fun_upd_same)
  qed
  have sl: "slots_step n v' s s'" using slots by (auto simp: slots_step_def)
  have pub: "published (V n) \<le> published v'" using l l' g by (auto simp: published_def)
  have fresh: "\<forall>c. issued (V n) c \<and> ctl s' n = c \<longrightarrow> ctl s n = c \<and> offer s' n = offer s n"
    using issued_gen[of "V n" "ctl s' n"] ctl idle(1) by auto
  have ahd: "\<forall>m\<in>N. m \<noteq> n \<longrightarrow> (\<forall>p a g. waiting s m (V m) a g p \<and> ahead (V n) p a m g \<longrightarrow> ahead v' p a m g)"
  proof (intro ballI impI allI, elim conjE)
    fix m p a g assume m: "m \<in> N" "m \<noteq> n" "waiting s m (V m) a g p" "ahead (V n) p a m g"
    then obtain R U where r: "wr (V n) = Some (p, a, R, U)" "U m g" by (auto simp: ahead_def)
    show "ahead v' p a m g" by (rule ah[OF r(1) m(1-3) r(2)])
  qed
  have envs: "\<forall>e. e \<noteq> envelope s n (V n) \<longrightarrow> envelopes s' e = envelopes s e" using env(1) by simp
  show ?thesis
    unfolding advance_def by (intro conjI ap sl envs env(2) covd ahd link load hlp own pub fresh envn)
qed

lemma help_ok_same_hp:
  assumes "help_ok N s V n" and "hp v' = hp (V n)" and "ld v' = None"
    and "\<And>m. ctl s' m = ctl s m" and "\<And>m. offer s' m = offer s m" and "envelopes s' = envelopes s"
  shows "help_ok N s' (V(n := v')) n"
proof -
  have "hview_ok s' n who h = hview_ok s n who h" for who h using assms(4-6) by (cases h) simp_all
  then show ?thesis using assms(1-3) unfolding help_ok_def by auto
qed

lemma advance_hand:
  assumes C: "core cnt N s V H" and n: "n \<in> N" and l: "ld (V n) = None" and ap: "apart n s s'"
    and f: "\<And>m. ctl s' m = ctl s m" "\<And>m. offer s' m = offer s m" "envelopes s' = envelopes s"
    and slots: "\<And>d. slot_get s' d = slot_get s d \<or> slot_get s d \<noteq> None \<and> slot_get s' d = Some NONE"
    and own: "owner_ok ((V n)\<lparr>oc := K\<rparr>)"
  shows "advance N s V n s' ((V n)\<lparr>oc := K\<rparr>)"
proof (rule advance_idle[OF C n l])
  have S: "shape N s V" using C by (simp add: core_def)
  show "envelopes s' (envelope s n (V n)) \<noteq> None" using S n f(3) by (auto simp: shape_def envelopes_ok_def)
  show "help_ok N s' (V(n := (V n)\<lparr>oc := K\<rparr>)) n"
    by (rule help_ok_same_hp[of N s V]) (use S n l f in \<open>simp_all add: shape_def\<close>)
  show "envelope s' n ((V n)\<lparr>oc := K\<rparr>) = envelope s n (V n)" using envelope_frame[OF f(1,2), of n "(V n)\<lparr>oc := K\<rparr>"] envelope_cong[of "(V n)\<lparr>oc := K\<rparr>" "V n" s n] by simp
qed (use l ap f slots own in \<open>auto simp: covers_def ahead_def\<close>)

lemma hand_mine:
  assumes "ld (V n) = None"
  shows "mine s n (V n) H = H + oc (V n) + inflight s n" "mine s n ((V n)\<lparr>oc := K\<rparr>) H = H + K + inflight s n"
  using assms by (simp_all add: mine_def part_def load_claims_def)

text \<open>The accesses themselves.\<close>

lemma running_idle:
  assumes "running cnt ns V H n w"
  shows "core cnt (set ns) (sh w) V H" "n \<in> set ns" "solo w" "steady (sh w) ns" "n \<in> dom (nodes (sh w))"
    "shape (set ns) (sh w) V" "load_ok (sh w) n (V n)"
  using assms by (auto simp: running_def core_def shape_def)

lemma runningI:
  assumes "running cnt ns V H n w" and "core cnt (set ns) s' (V(n := v')) H'" and "steady s' ns" and "gen v' = gen (V n)"
  shows "running cnt ns (V(n := v')) H' n (w\<lparr>sh := s'\<rparr>)"
  using assms by (simp add: running_def)

lemma hand_pay:
  assumes R: "running cnt ns V H n w" and l: "ld (V n) = None" and oc: "oc (V n) = add_mset (p, Some d) K"
    and own: "owner_ok ((V n)\<lparr>oc := K\<rparr>)"
  obtains b w' where "pay d p w = (Inr b, w')" "kept w w'" "loc w' = loc w" "storage (sh w') = storage (sh w)"
    "running cnt ns (V(n := (V n)\<lparr>oc := if b then K else add_mset (p, None) K\<rparr>)) H n w'"
proof -
  note f = running_idle[OF R]
  have claim: "(p, Some d) \<in># mine (sh w) n (V n) H" using oc l by (simp add: hand_mine)
  have p: "p \<noteq> NONE" by (rule claim_not_NONE[OF f(1,2) claim])
  obtain v where v: "slot_get (sh w) d = Some v" using claim_slot[OF f(1,2) claim] by blast
  show ?thesis
  proof (cases "v = p")
    case True
    let ?s = "slot_set d NONE (sh w)"
    have "slot_get ?s e = slot_get (sh w) e \<or> slot_get (sh w) e \<noteq> None \<and> slot_get ?s e = Some NONE" for e
      using v by (cases "e = d") simp_all
    then have "advance (set ns) (sh w) V n ?s ((V n)\<lparr>oc := K\<rparr>)"
      by (intro advance_hand[OF f(1,2) l apart_slot_set] own) simp_all
    then have "core cnt (set ns) ?s (V(n := (V n)\<lparr>oc := K\<rparr>)) H"
      by (rule core_pay[OF f(1,2) _ _ p, where x = "Some d"]) (use v True l oc in \<open>simp_all add: hand_mine\<close>)
    then have "running cnt ns (V(n := (V n)\<lparr>oc := K\<rparr>)) H n (w\<lparr>sh := ?s\<rparr>)"
      by (rule runningI[OF R]) (use f in simp_all)
    then show ?thesis
      by (intro that[of True "w\<lparr>sh := ?s\<rparr>"]) (use f(3) v True in \<open>simp_all add: pay_solo kept_def\<close>)
  next
    case False
    let ?K = "add_mset (p, None) K"
    have "owner_ok ((V n)\<lparr>oc := ?K\<rparr>)" using own by (auto simp: owner_ok_def)
    then have "advance (set ns) (sh w) V n (sh w) ((V n)\<lparr>oc := ?K\<rparr>)"
      by (intro advance_hand[OF f(1,2) l apart_heap(2)]) simp_all
    then have "core cnt (set ns) (sh w) (V(n := (V n)\<lparr>oc := ?K\<rparr>)) H"
      by (rule core_relabel[OF f(1,2), where d = d and p = p and X = "H + K + inflight (sh w) n"])
        (use v False l oc in \<open>simp_all add: hand_mine\<close>)
    then have "running cnt ns (V(n := (V n)\<lparr>oc := ?K\<rparr>)) H n (w\<lparr>sh := sh w\<rparr>)"
      by (rule runningI[OF R]) (use f in simp_all)
    then show ?thesis
      by (intro that[of False w]) (use f(3) v False in \<open>simp_all add: pay_solo kept_def\<close>)
  qed
qed

context shared_cnt
begin

lemma hand_dec:
  assumes R: "running cnt ns V H n w" and l: "ld (V n) = None" and oc: "oc (V n) = add_mset (p, None) K"
    and own: "owner_ok ((V n)\<lparr>oc := K\<rparr>)"
  obtains w' where "dec_ptr T p w = (Inr (), w')" "drop_val T (from_ptr T p) w = (Inr (), w')" "kept w w'" "loc w' = loc w"
    "storage (sh w') = storage (sh w)" "running cnt ns (V(n := (V n)\<lparr>oc := K\<rparr>)) H n w'"
proof -
  note f = running_idle[OF R]
  let ?s = "(sh w)\<lparr>heap := down p (heap (sh w))\<rparr>"
  have claim: "(p, None) \<in># mine (sh w) n (V n) H" using oc l by (simp add: hand_mine)
  have p: "live (heap (sh w)) p" using claim_live[OF f(1,2) claim] by simp
  have "advance (set ns) (sh w) V n ?s ((V n)\<lparr>oc := K\<rparr>)"
    by (intro advance_hand[OF f(1,2) l apart_heap(1)] own) simp_all
  then have "core cnt (set ns) ?s (V(n := (V n)\<lparr>oc := K\<rparr>)) H"
    by (rule core_dec[OF f(1,2) _ p]) (use l oc in \<open>simp_all add: hand_mine\<close>)
  then have "running cnt ns (V(n := (V n)\<lparr>oc := K\<rparr>)) H n (w\<lparr>sh := ?s\<rparr>)"
    by (rule runningI[OF R]) (use f in simp_all)
  then show ?thesis
    by (intro that[of "w\<lparr>sh := ?s\<rparr>"]) (use f(3) p in \<open>simp_all add: dec_ptr_solo drop_val_from_ptr_solo kept_def\<close>)
qed

lemma hand_inc:
  assumes R: "running cnt ns V H n w" and l: "ld (V n) = None" and oc: "(p, x) \<in># oc (V n)"
  obtains w' where "inc_value T (from_ptr T p) w = (Inr p, w')" "kept w w'" "loc w' = loc w" "storage (sh w') = storage (sh w)"
    "running cnt ns (V(n := (V n)\<lparr>oc := add_mset (p, None) (oc (V n))\<rparr>)) H n w'"
proof -
  note f = running_idle[OF R]
  let ?s = "(sh w)\<lparr>heap := up p (heap (sh w))\<rparr>" and ?K = "add_mset (p, None) (oc (V n))"
  have claim: "(p, x) \<in># mine (sh w) n (V n) H" using oc l by (simp add: hand_mine)
  have p: "live (heap (sh w)) p" "p \<noteq> NONE"
    using claim_live[OF f(1,2) claim] claim_not_NONE[OF f(1,2) claim] l by simp_all
  have "owner_ok (V n)" using f(2,6) by (simp add: shape_def)
  then have own: "owner_ok ((V n)\<lparr>oc := ?K\<rparr>)" by (auto simp: owner_ok_def)
  have "advance (set ns) (sh w) V n ?s ((V n)\<lparr>oc := ?K\<rparr>)"
    by (intro advance_hand[OF f(1,2) l apart_heap(1)] own) simp_all
  then have "core cnt (set ns) ?s (V(n := (V n)\<lparr>oc := ?K\<rparr>)) H"
    by (rule core_inc[OF f(1,2) _ p]) (use l in \<open>simp_all add: hand_mine\<close>)
  then have "running cnt ns (V(n := (V n)\<lparr>oc := ?K\<rparr>)) H n (w\<lparr>sh := ?s\<rparr>)"
    by (rule runningI[OF R]) (use f in simp_all)
  then show ?thesis
    by (intro that[of "w\<lparr>sh := ?s\<rparr>"]) (use f(3) p in \<open>simp_all add: inc_value_solo kept_def\<close>)
qed

end

text \<open>The thread only changes its mind about what it does next.\<close>

lemma review:
  assumes R: "running cnt ns V H n w" and l: "ld (V n) = None"
    and l': "ld v' = None \<or> (\<exists>a. ld v' = Some (a, LdPtr) \<and> storage (sh w) a \<noteq> None)" and g: "gen v' = gen (V n)"
    and bal: "H' + oc v' = H + oc (V n)"
    and cov: "\<And>p a R U d. wr (V n) = Some (p, a, R, U) \<Longrightarrow> d \<in> R \<Longrightarrow> (d, p) \<in> owed_of (sh w) \<Longrightarrow> covers v' d p"
    and ah: "\<And>p a R U m g. wr (V n) = Some (p, a, R, U) \<Longrightarrow> m \<in> set ns \<Longrightarrow> m \<noteq> n \<Longrightarrow> waiting (sh w) m (V m) a g p \<Longrightarrow>
      U m g \<Longrightarrow> ahead v' p a m g"
    and hlp: "help_ok (set ns) (sh w) (V(n := v')) n" and own: "owner_ok v'"
    and envn: "envelope (sh w) n v' = envelope (sh w) n (V n)"
  shows "running cnt ns (V(n := v')) H' n w"
proof -
  note f = running_idle[OF R]
  have "envelopes (sh w) (envelope (sh w) n (V n)) \<noteq> None" using f(2,6) by (auto simp: shape_def envelopes_ok_def)
  then have "advance (set ns) (sh w) V n (sh w) v'"
  proof (intro advance_idle[OF f(1,2) l l' g apart_heap(2) _ _ _ _ cov _ hlp own envn])
    fix p a R U m g
    assume a: "wr (V n) = Some (p, a, R, U)" "m \<in> set ns" "m \<noteq> n" "waiting (sh w) m (V m) a g p" "U m g"
    show "ahead v' p a m g" using ah[OF a(1)] a(2-5) by blast
  qed simp_all
  moreover have "mine (sh w) n v' H' = mine (sh w) n (V n) H"
    using l l' bal by (auto simp: mine_def part_def load_claims_def add.assoc)
  ultimately have "core cnt (set ns) (sh w) (V(n := v')) H'" using core_quiet[OF f(1,2), of "sh w" v' H'] by simp
  then have "running cnt ns (V(n := v')) H' n (w\<lparr>sh := sh w\<rparr>)" by (rule runningI[OF R]) (use f(4) g in simp_all)
  then show ?thesis by simp
qed

text \<open>The result of a load goes over into the hands of the thread.\<close>

lemma finish_load:
  assumes R: "running cnt ns V H n w" and l: "ld (V n) = Some (a, LdDone p d)"
  shows "running cnt ns (V(n := (V n)\<lparr>ld := None, oc := add_mset (p, d) (oc (V n))\<rparr>)) H n w"
proof -
  note f = running_facts[OF R l]
  let ?v = "(V n)\<lparr>ld := None, oc := add_mset (p, d) (oc (V n))\<rparr>" and ?s = "sh w"
  have S: "shape (set ns) ?s V" using f(1) by (simp add: core_def)
  have hok: "help_ok (set ns) ?s V n" and oo: "owner_ok (V n)" using S f(2) by (auto simp: shape_def)
  have nt: "hp (V n) \<noteq> Some (who, Take th)" for who th using hok l by (auto simp: help_ok_def)
  have e: "envelope ?s n ?v = envelope ?s n (V n)"
    using idle_envelope[of ?v ?s n] nt f(8) l by (simp add: envelope_def)
  have sl: "slots_step n ?v ?s ?s" by (simp add: slots_step_def)
  have env: "\<forall>e. e \<noteq> envelope ?s n (V n) \<longrightarrow> envelopes ?s e = envelopes ?s e" "envelopes ?s (envelope ?s n (V n)) \<noteq> None"
    using S f(2) by (auto simp: shape_def envelopes_ok_def)
  have covd: "\<forall>d p. (d, p) \<in> owed_of ?s \<and> covers (V n) d p \<longrightarrow> covered (set ns) ?s (V(n := ?v)) d p"
  proof (intro allI impI, elim conjE)
    fix e q assume "covers (V n) e q"
    then have "covers ?v e q" using l by (auto simp: covers_def)
    then show "covered (set ns) ?s (V(n := ?v)) e q" unfolding covered_def using f(2) by (metis fun_upd_same)
  qed
  have ahd: "\<forall>m\<in>set ns. m \<noteq> n \<longrightarrow> (\<forall>p a g. waiting ?s m (V m) a g p \<and> ahead (V n) p a m g \<longrightarrow> ahead ?v p a m g)"
    by (simp add: ahead_def)
  have link: "linked (set ns) ?s (V(n := ?v)) n" by (simp add: linked_def waiting_def)
  have load: "load_ok ?s n ?v" using f(8,9,11) by (simp add: load_ok_def slot_ok_def)
  have hlp: "help_ok (set ns) ?s (V(n := ?v)) n" by (rule help_ok_same_hp[OF hok]) simp_all
  have own: "owner_ok ?v" using oo by (auto simp: owner_ok_def)
  have pub: "published (V n) \<le> published ?v" using l by (simp add: published_def)
  have fresh: "\<forall>c. issued (V n) c \<and> ctl ?s n = c \<longrightarrow> ctl ?s n = c \<and> offer ?s n = offer ?s n" by simp
  have "advance (set ns) ?s V n ?s ?v"
    unfolding advance_def by (intro conjI apart_heap(2) sl env covd ahd link load hlp own pub fresh e)
  moreover have "mine ?s n ?v H = mine ?s n (V n) H" using l by (simp add: mine_def part_def load_claims_def)
  ultimately have "core cnt (set ns) ?s (V(n := ?v)) H" using core_quiet[OF f(1,2), of ?s ?v H] by simp
  then have "running cnt ns (V(n := ?v)) H n (w\<lparr>sh := ?s\<rparr>)" by (rule runningI[OF R]) (use f(4) in simp_all)
  then show ?thesis by simp
qed

section \<open>Turning a guard into a reference\<close>

fun iclaims :: "ipc \<Rightarrow> handles" where
  "iclaims (IiInc p d) = {#(p, Some d)#}"
| "iclaims (IiPay p d) = {#(p, Some d), (p, None)#}"
| "iclaims (IiDec p) = {#(p, None), (p, None)#}"
| "iclaims (IiDone p) = {#(p, None)#}"

lemma iclaims_start [simp]: "iclaims (into_start p d) = {#(p, d)#}"
  by (cases d) (simp_all add: into_start_def)

context shared_cnt
begin

lemma into_atom_safe:
  assumes R: "running cnt ns V H n w" and l: "ld (V n) = None" and oc: "oc (V n) = iclaims i + K"
    and own: "owner_ok ((V n)\<lparr>oc := K\<rparr>)"
  obtains i' w' where "into_atom T i w = (Inr i', w')" "kept w w'" "loc w' = loc w" "storage (sh w') = storage (sh w)"
    "running cnt ns (V(n := (V n)\<lparr>oc := iclaims i' + K\<rparr>)) H n w'"
proof (cases i)
  case (IiInc p d)
  obtain w' where "inc_value T (from_ptr T p) w = (Inr p, w')" "kept w w'" "loc w' = loc w" "storage (sh w') = storage (sh w)"
      "running cnt ns (V(n := (V n)\<lparr>oc := add_mset (p, None) (oc (V n))\<rparr>)) H n w'"
    using hand_inc[OF R l, of p "Some d"] oc IiInc by auto
  then show ?thesis using IiInc oc by (intro that[of "IiPay p d" w']) (simp_all add: bnd_apply add_mset_commute)
next
  case (IiPay p d)
  have "owner_ok ((V n)\<lparr>oc := add_mset (p, None) K\<rparr>)" using own by (auto simp: owner_ok_def)
  then obtain b w' where "pay d p w = (Inr b, w')" "kept w w'" "loc w' = loc w" "storage (sh w') = storage (sh w)"
      "running cnt ns (V(n := (V n)\<lparr>oc := if b then add_mset (p, None) K else add_mset (p, None) (add_mset (p, None) K)\<rparr>)) H n w'"
    using hand_pay[OF R l, of p d "add_mset (p, None) K"] oc IiPay by auto
  then show ?thesis using IiPay by (intro that[of "if \<not> b then IiDec p else IiDone p" w']) (auto simp: bnd_apply)
next
  case (IiDec p)
  have "owner_ok ((V n)\<lparr>oc := add_mset (p, None) K\<rparr>)" using own by (auto simp: owner_ok_def)
  then obtain w' where "dec_ptr T p w = (Inr (), w')" "kept w w'" "loc w' = loc w" "storage (sh w') = storage (sh w)"
      "running cnt ns (V(n := (V n)\<lparr>oc := add_mset (p, None) K\<rparr>)) H n w'"
    using hand_dec[OF R l, of p "add_mset (p, None) K"] oc IiDec by auto
  then show ?thesis using IiDec by (intro that[of "IiDone p" w']) (simp_all add: bnd_apply)
next
  case (IiDone p)
  have "V(n := (V n)\<lparr>oc := iclaims i + K\<rparr>) = V" unfolding oc[symmetric] by (simp add: fun_upd_idem)
  then show ?thesis using IiDone R by (intro that[of "IiDone p" w]) (simp_all add: kept_def running_def)
qed

end

end
