(* ===== verification/Helper.thy ===== *)
theory Helper
  imports HelpSafety
begin

unbundle bit_operations_syntax

text \<open>
  The helping loop of a writer, access by access: it never faults, and it keeps the invariant also when
  the helped reader and other helpers run in between.
\<close>

section \<open>Helping\<close>

text \<open>The view of a writer that wants to help the owner of \<open>who\<close>. \<open>hpend\<close> says for which announced
  generation the writer will still act.\<close>

fun hload :: "usize \<Rightarrow> hpc \<Rightarrow> (usize \<times> lpc) option" where
  "hload a (HLoad m k c l) = Some (a, l)"
| "hload a h = None"

fun hview_of :: "hpc \<Rightarrow> hview option" where
  "hview_of (HAddr m k c) = Some (Seen c)"
| "hview_of (HRe m k c) = Some (Seen c)"
| "hview_of (HLoad m k c l) = Some (Seen c)"
| "hview_of (HInto m k c i) = Some (Seen c)"
| "hview_of (HTheir m k c r) = Some (Seen c)"
| "hview_of (HMine m k c r th) = Some (Their c th)"
| "hview_of (HStore m k c r th my) = Some (Mine c th my)"
| "hview_of (HCas m k c r th my) = Some (Stored c th my r)"
| "hview_of (HTake m th) = Some (Take th)"
| "hview_of (HDrop m k r c) = Some (Seen c)"
| "hview_of h = None"

fun hclaims :: "hpc \<Rightarrow> handles" where
  "hclaims (HInto m k c i) = iclaims i"
| "hclaims (HTheir m k c r) = {#(r, None)#}"
| "hclaims (HMine m k c r th) = {#(r, None)#}"
| "hclaims (HStore m k c r th my) = {#(r, None)#}"
| "hclaims (HCas m k c r th my) = {#(r, None)#}"
| "hclaims (HDrop m k r c) = {#(r, None)#}"
| "hclaims h = {#}"

fun hpend :: "hpc \<Rightarrow> usize \<Rightarrow> bool" where
  "hpend (HRe m k c) g \<longleftrightarrow> False"
| "hpend (HTake m th) g \<longleftrightarrow> False"
| "hpend HDone g \<longleftrightarrow> False"
| "hpend (HAddr m k c) g \<longleftrightarrow> c = g"
| "hpend (HLoad m k c l) g \<longleftrightarrow> c = g"
| "hpend (HInto m k c i) g \<longleftrightarrow> c = g"
| "hpend (HTheir m k c r) g \<longleftrightarrow> c = g"
| "hpend (HMine m k c r th) g \<longleftrightarrow> c = g"
| "hpend (HStore m k c r th my) g \<longleftrightarrow> c = g"
| "hpend (HCas m k c r th my) g \<longleftrightarrow> c = g"
| "hpend (HDrop m k r c) g \<longleftrightarrow> c = g"
| "hpend h g \<longleftrightarrow> True"

definition tag_ok :: "usize \<Rightarrow> bool" where
  "tag_ok c \<longleftrightarrow> c = IDLE \<or> is_gen c \<or> is_env c"

fun hpc_ok :: "usize \<Rightarrow> hpc \<Rightarrow> bool" where
  "hpc_ok n (HSelf m) \<longleftrightarrow> m = n"
| "hpc_ok n (HCtl m) \<longleftrightarrow> m = n"
| "hpc_ok n (HAddr m k c) \<longleftrightarrow> m = n \<and> is_gen c"
| "hpc_ok n (HRe m k c) \<longleftrightarrow> m = n"
| "hpc_ok n (HLoad m k c l) \<longleftrightarrow> m = n \<and> is_gen c"
| "hpc_ok n (HInto m k c i) \<longleftrightarrow> m = n \<and> is_gen c"
| "hpc_ok n (HTheir m k c r) \<longleftrightarrow> m = n \<and> is_gen c"
| "hpc_ok n (HMine m k c r th) \<longleftrightarrow> m = n \<and> is_gen c"
| "hpc_ok n (HStore m k c r th my) \<longleftrightarrow> m = n \<and> is_gen c"
| "hpc_ok n (HCas m k c r th my) \<longleftrightarrow> m = n \<and> is_gen c"
| "hpc_ok n (HTake m th) \<longleftrightarrow> m = n"
| "hpc_ok n (HDrop m k r c) \<longleftrightarrow> m = n \<and> tag_ok c"
| "hpc_ok n h \<longleftrightarrow> True"

definition help_view :: "usize \<Rightarrow> usize \<Rightarrow> Debt set \<Rightarrow> (usize \<Rightarrow> usize \<Rightarrow> bool) \<Rightarrow> handles \<Rightarrow> usize \<Rightarrow> hpc \<Rightarrow> usize \<Rightarrow> tv" where
  "help_view p a R U K who h g =
     \<lparr>ld = hload a h, wr = Some (p, a, R, \<lambda>m c. if m = who then hpend h c else U m c),
      hp = map_option (Pair who) (hview_of h), oc = hclaims h + K, gen = g\<rparr>"

lemma help_view_fields [simp]:
  "ld (help_view p a R U K who h g) = hload a h"
  "wr (help_view p a R U K who h g) = Some (p, a, R, \<lambda>m c. if m = who then hpend h c else U m c)"
  "hp (help_view p a R U K who h g) = map_option (Pair who) (hview_of h)"
  "oc (help_view p a R U K who h g) = hclaims h + K" "gen (help_view p a R U K who h g) = g"
  by (simp_all add: help_view_def)

text \<open>What the helper may rely on: it owns a reference to the pointer it took out and has the node's slots
  still before it.\<close>

definition helper :: "usize \<Rightarrow> usize \<Rightarrow> Debt set \<Rightarrow> (usize \<Rightarrow> usize \<Rightarrow> bool) \<Rightarrow> handles \<Rightarrow> usize \<Rightarrow> usize list \<Rightarrow> 'v world \<Rightarrow> bool" where
  "helper p a R U K who ns w \<longleftrightarrow> who \<in> set ns \<and> (p, None) \<in># K \<and> HelpingDebt who \<in> R \<and>
     (\<forall>m c. U m c \<longrightarrow> HelpingDebt m \<in> R) \<and> storage (sh w) a \<noteq> None"

definition help_safe :: "('t, 'v) RefCnt \<Rightarrow> ('v heap \<Rightarrow> usize \<Rightarrow> nat) \<Rightarrow> usize list \<Rightarrow> (usize \<Rightarrow> tv) \<Rightarrow> handles \<Rightarrow> usize \<Rightarrow>
    usize \<Rightarrow> usize \<Rightarrow> Debt set \<Rightarrow> (usize \<Rightarrow> usize \<Rightarrow> bool) \<Rightarrow> handles \<Rightarrow> usize \<Rightarrow> 'v world \<Rightarrow> hpc \<Rightarrow> bool" where
  "help_safe T cnt ns V H n p a R U K who w h \<longleftrightarrow> fst (help_atom T who a h w) = Inl OutOfFuel \<or>
     (\<exists>h' w'. help_atom T who a h w = (Inr h', w') \<and> kept w w' \<and> hpc_ok n h' \<and>
       running cnt ns (V(n := help_view p a R U K who h' (generation (loc w')))) H n w')"

text \<open>Control words of other threads.\<close>

lemma ctl_cases:
  assumes "load_ok s m v"
  shows "ctl s m = IDLE \<or> is_env (ctl s m) \<or> ctl s m = gen v OR GEN_TAG \<and> published v = unat (gen v)"
proof (cases "ld v")
  case (Some x)
  obtain a l where x: "x = (a, l)" by (cases x)
  have "ctl_ok s m (gen v) a l" using assms Some x by (simp add: load_ok_def)
  then show ?thesis using Some x by (cases l) (auto simp: in_transaction_def published_def)
qed (use assms in \<open>simp add: load_ok_def\<close>)

lemma ctl_tag:
  assumes "load_ok s m v"
  shows "tag_ok (ctl s m)" and "is_gen (ctl s m) \<Longrightarrow> issued v (ctl s m)"
proof -
  have al: "aligned4 (gen v)" using assms by (simp add: load_ok_def)
  then have gen: "is_gen (gen v OR GEN_TAG)" by (simp add: is_gen_def aligned4_gen_tag)
  from ctl_cases[OF assms] show "tag_ok (ctl s m)" using gen unfolding tag_ok_def by metis
  assume c: "is_gen (ctl s m)"
  then have "ctl s m \<noteq> IDLE" "\<not> is_env (ctl s m)" by (auto simp: gen_not_env)
  then have "ctl s m = gen v OR GEN_TAG" "unat (gen v) \<le> published v" using ctl_cases[OF assms] by auto
  then show "issued v (ctl s m)" using al unfolding issued_def by blast
qed

lemma waiting_gen:
  assumes "load_ok s m v" and "waiting s m v a g p"
  shows "is_gen g" "addr s m = a" "ctl s m = g"
proof -
  obtain l where l: "ld v = Some (a, l)" "awaiting l = Some (g, p)" "ctl s m = g" using assms(2) by (auto simp: waiting_def)
  have "g = gen v OR GEN_TAG" "addr s m = a" using assms(1) l by (cases l; auto simp: load_ok_def in_transaction_def)+
  then show "is_gen g" "addr s m = a" "ctl s m = g"
    using assms(1) l by (simp_all add: load_ok_def is_gen_def aligned4_gen_tag)
qed

section \<open>Looking at a reader\<close>

lemma help_ok_view:
  assumes "\<And>hv. hview_of h = Some hv \<Longrightarrow> who \<in> N \<and> who \<noteq> n \<and> hview_ok s n who hv \<and>
      (\<forall>c. seen hv = Some c \<and> is_gen c \<longrightarrow> issued (V who) c)"
    and "hload a h = None \<or> (\<exists>c. hview_of h = Some (Seen c))"
  shows "help_ok N s (V(n := help_view p a R U K who h g)) n"
  using assms unfolding help_ok_def by auto

text \<open>A step that only looks keeps the invariant when it gives up no reader that waits for this writer.\<close>

lemma help_review:
  assumes R: "running cnt ns V H n w" and v: "V n = help_view p a R U K who h (gen (V n))"
    and hlp: "helper p a R U K who ns w" and l: "hload a h = None" and l': "hload a h' = None \<or> (\<exists>k c. h' = HLoad n k c LdPtr)"
    and cl: "hclaims h' = hclaims h"
    and pend: "\<And>g. who \<noteq> n \<Longrightarrow> waiting (sh w) who (V who) a g p \<Longrightarrow> hpend h g \<Longrightarrow> hpend h' g"
    and hv: "\<And>hv. hview_of h' = Some hv \<Longrightarrow> who \<noteq> n \<and> hview_ok (sh w) n who hv \<and> (\<forall>th. hv \<noteq> Take th) \<and>
      (\<forall>c. seen hv = Some c \<and> is_gen c \<longrightarrow> issued (V who) c)"
    and nt: "\<And>m th. h \<noteq> HTake m th"
  shows "running cnt ns (V(n := help_view p a R U K who h' (gen (V n)))) H n w"
proof (rule review[OF R])
  let ?v = "help_view p a R U K who h' (gen (V n))"
  have lV: "ld (V n) = None" using arg_cong[OF v, of ld] l by simp
  have wV: "wr (V n) = Some (p, a, R, \<lambda>m c. if m = who then hpend h c else U m c)" using arg_cong[OF v, of wr] by simp
  show "ld (V n) = None" by (rule lV)
  show "ld ?v = None \<or> (\<exists>a. ld ?v = Some (a, LdPtr) \<and> storage (sh w) a \<noteq> None)"
    using l' hlp by (auto simp: helper_def)
  show "gen ?v = gen (V n)" by simp
  have "oc (V n) = hclaims h + K" using arg_cong[OF v, of oc] by simp
  then show "H + oc ?v = H + oc (V n)" by (simp add: cl)
  show "covers ?v d q" if "wr (V n) = Some (q, b, R', U')" "d \<in> R'" for q b R' U' d
    using that wV by (simp add: covers_def)
  show "ahead ?v q b m g" if "wr (V n) = Some (q, b, R', U')" "m \<in> set ns" "m \<noteq> n" "waiting (sh w) m (V m) b g q" "U' m g" for q b R' U' m g
    using that wV pend[of g] by (auto simp: ahead_def split: if_splits)
  have hok: "hload a h' = None \<or> (\<exists>c. hview_of h' = Some (Seen c))" using l' by auto
  show "help_ok (set ns) (sh w) (V(n := ?v)) n"
    by (rule help_ok_view[OF _ hok]) (use hv hlp in \<open>auto simp: helper_def\<close>)
  show "owner_ok ?v" using hlp by (auto simp: owner_ok_def helper_def split: if_splits)
  have hpV: "hp (V n) = map_option (Pair who) (hview_of h)" using arg_cong[OF v, of hp] by simp
  have "hview_of h \<noteq> Some (Take th)" for th using nt by (cases h) auto
  then have e: "envelope (sh w) n (V n) = offer (sh w) n" using idle_envelope[OF lV] hpV by auto
  have idle: "ctl (sh w) n = IDLE" using running_idle(7)[OF R] lV by (simp add: load_ok_def)
  show "envelope (sh w) n ?v = envelope (sh w) n (V n)"
    unfolding e using l' hv idle idle_envelope[of ?v "sh w" n] by (auto simp: envelope_def split: option.splits hview.splits)
qed

text \<open>The head of the loop.\<close>

lemma help_enter_cases:
  assumes "tag_ok c" and "is_gen c \<Longrightarrow> who \<noteq> n"
  shows "fst (help_enter n who k c w) = Inl OutOfFuel \<or> (\<not> is_gen c \<and> help_enter n who k c w = (Inr HDone, w)) \<or>
    (\<exists>j. is_gen c \<and> who \<noteq> n \<and> help_enter n who k c w = (Inr (HAddr n j c), w))"
proof (cases k)
  case (Suc j)
  have tags: "is_gen c \<Longrightarrow> c AND TAG_MASK = GEN_TAG" "is_env c \<Longrightarrow> c AND TAG_MASK = REPLACEMENT_TAG"
    by (simp_all add: is_gen_def is_env_def)
  consider "c = IDLE" | "is_env c" "\<not> is_gen c" | "is_gen c" using assms(1) by (auto simp: tag_ok_def)
  then show ?thesis
  proof cases
    case 1 then show ?thesis using Suc by (simp add: IDLE_def TAG_MASK_def is_gen_def GEN_TAG_def)
  next
    case 2 then show ?thesis using Suc tags(2) by simp
  next
    case 3
    moreover have "GEN_TAG \<noteq> IDLE" "GEN_TAG \<noteq> REPLACEMENT_TAG" by (simp_all add: tag_defs)
    ultimately show ?thesis using Suc tags(1) assms(2) by (auto simp: bnd_apply)
  qed
qed simp

lemma help_safe_silent:
  assumes R: "running cnt ns V H n w" and v: "V n = help_view p a R U K who h (gen (V n))"
    and hlp: "helper p a R U K who ns w" and at: "help_atom T who a h w = (Inr h', w)" and ok: "hpc_ok n h'"
    and l: "hload a h = None" and l': "hload a h' = None \<or> (\<exists>k c. h' = HLoad n k c LdPtr)" and cl: "hclaims h' = hclaims h"
    and pend: "\<And>g. who \<noteq> n \<Longrightarrow> waiting (sh w) who (V who) a g p \<Longrightarrow> hpend h g \<Longrightarrow> hpend h' g"
    and hv: "\<And>hv. hview_of h' = Some hv \<Longrightarrow> who \<noteq> n \<and> hview_ok (sh w) n who hv \<and> (\<forall>th. hv \<noteq> Take th) \<and>
      (\<forall>c. seen hv = Some c \<and> is_gen c \<longrightarrow> issued (V who) c)"
    and nt: "\<And>m th. h \<noteq> HTake m th"
  shows "help_safe T cnt ns V H n p a R U K who w h"
proof -
  have "running cnt ns (V(n := help_view p a R U K who h' (gen (V n)))) H n w"
    by (rule help_review[OF R v hlp l l' cl pend hv nt])
  moreover have "kept w w" "generation (loc w) = gen (V n)" using R by (simp_all add: kept_def running_def)
  ultimately show ?thesis using at ok unfolding help_safe_def by auto
qed

text \<open>Facts about the helper's own node and the helped one.\<close>

lemma helper_facts:
  assumes R: "running cnt ns V H n w" and v: "V n = help_view p a R U K who h (gen (V n))" and hlp: "helper p a R U K who ns w"
  shows "who \<in> dom (nodes (sh w))" "tag_ok (ctl (sh w) who)" "is_gen (ctl (sh w) who) \<Longrightarrow> issued (V who) (ctl (sh w) who)"
    "hload a h = None \<Longrightarrow> ctl (sh w) n = IDLE"
    "waiting (sh w) who (V who) a g p \<Longrightarrow> is_gen g \<and> addr (sh w) who = a \<and> ctl (sh w) who = g"
    "hview_of h = Some hv \<Longrightarrow> who \<noteq> n \<and> hview_ok (sh w) n who hv \<and> (\<forall>c. seen hv = Some c \<and> is_gen c \<longrightarrow> issued (V who) c)"
proof -
  note f = running_idle[OF R]
  have who: "who \<in> set ns" using hlp by (simp add: helper_def)
  then show "who \<in> dom (nodes (sh w))" using f(1) by (auto simp: core_def)
  have ok: "load_ok (sh w) who (V who)" using f(6) who by (simp add: shape_def)
  show "tag_ok (ctl (sh w) who)" "is_gen (ctl (sh w) who) \<Longrightarrow> issued (V who) (ctl (sh w) who)" by (rule ctl_tag[OF ok])+
  have "ld (V n) = hload a h" using arg_cong[OF v, of ld] by simp
  then show "hload a h = None \<Longrightarrow> ctl (sh w) n = IDLE" using f(7) by (simp add: load_ok_def)
  show "waiting (sh w) who (V who) a g p \<Longrightarrow> is_gen g \<and> addr (sh w) who = a \<and> ctl (sh w) who = g"
    using waiting_gen[OF ok] by blast
  have "hp (V n) = map_option (Pair who) (hview_of h)" using arg_cong[OF v, of hp] by simp
  moreover have "help_ok (set ns) (sh w) V n" using f(2,6) by (simp add: shape_def)
  ultimately show "hview_of h = Some hv \<Longrightarrow> who \<noteq> n \<and> hview_ok (sh w) n who hv \<and> (\<forall>c. seen hv = Some c \<and> is_gen c \<longrightarrow> issued (V who) c)"
    by (auto simp: help_ok_def)
qed

text \<open>Entering the loop with the control word just read.\<close>

lemma help_safe_enter:
  assumes R: "running cnt ns V H n w" and v: "V n = help_view p a R U K who h (gen (V n))"
    and hlp: "helper p a R U K who ns w"
    and at: "help_atom T who a h w = help_enter n who k (ctl (sh w) who) w"
    and l: "hload a h = None" and cl: "hclaims h = {#}" and nt: "\<And>m th. h \<noteq> HTake m th"
  shows "help_safe T cnt ns V H n p a R U K who w h"
proof -
  note f = helper_facts[OF R v hlp]
  let ?c = "ctl (sh w) who"
  have "is_gen ?c \<Longrightarrow> who \<noteq> n" using f(4)[OF l] by auto
  from help_enter_cases[OF f(2) this, where k = k and w = w]
  consider "fst (help_enter n who k ?c w) = Inl OutOfFuel" | "\<not> is_gen ?c" "help_enter n who k ?c w = (Inr HDone, w)"
    | j where "is_gen ?c" "who \<noteq> n" "help_enter n who k ?c w = (Inr (HAddr n j ?c), w)" by blast
  then show ?thesis
  proof cases
    case 1 then show ?thesis using at by (simp add: help_safe_def)
  next
    case 2
    show ?thesis
      by (rule help_safe_silent[OF R v hlp, where h' = HDone]) (use at l cl nt 2 f(5) in auto)
  next
    case (3 j)
    show ?thesis
      by (rule help_safe_silent[OF R v hlp, where h' = "HAddr n j ?c"]) (use at l cl nt 3 f(3,5) in auto)
  qed
qed

lemma help_node_safe:
  assumes R: "running cnt ns V H n w" and v: "V n = help_view p a R U K who HNode (gen (V n))" and hlp: "helper p a R U K who ns w"
  shows "help_safe T cnt ns V H n p a R U K who w HNode"
  by (rule help_safe_silent[OF assms, where h' = "HSelf n"]) (use local_node_held[OF R] in \<open>auto simp: bnd_apply\<close>)

lemma help_self_safe:
  assumes R: "running cnt ns V H n w" and v: "V n = help_view p a R U K who (HSelf m) (gen (V n))" and hlp: "helper p a R U K who ns w"
    and m: "m = n"
  shows "help_safe T cnt ns V H n p a R U K who w (HSelf m)"
  by (rule help_safe_silent[OF assms(1-3), where h' = "HCtl n"])
    (use helper_facts[OF assms(1-3)] running_idle[OF R] m in \<open>auto simp: bnd_apply helping_slots_solo\<close>)

lemma help_ctl_safe:
  assumes R: "running cnt ns V H n w" and v: "V n = help_view p a R U K who (HCtl m) (gen (V n))" and hlp: "helper p a R U K who ns w"
    and m: "m = n"
  shows "help_safe T cnt ns V H n p a R U K who w (HCtl m)"
  by (rule help_safe_enter[OF assms(1-3), where k = "fuel w"])
    (use helper_facts(1)[OF assms(1-3)] running_idle(3)[OF R] m in \<open>simp_all add: bnd_apply helping_slots_solo loc_exec\<close>)

lemma help_addr_safe:
  assumes R: "running cnt ns V H n w" and v: "V n = help_view p a R U K who (HAddr m k c) (gen (V n))" and hlp: "helper p a R U K who ns w"
    and m: "m = n" "is_gen c"
  shows "help_safe T cnt ns V H n p a R U K who w (HAddr m k c)"
  by (rule help_safe_silent[OF assms(1-3), where h' = "if addr (sh w) who \<noteq> a then HRe n k c else HLoad n k c LdPtr"])
    (use helper_facts[OF assms(1-3)] running_idle(3)[OF R] m in \<open>auto simp: bnd_apply helping_slots_solo split: if_splits\<close>)

lemma help_re_safe:
  assumes R: "running cnt ns V H n w" and v: "V n = help_view p a R U K who (HRe m k c) (gen (V n))" and hlp: "helper p a R U K who ns w"
    and m: "m = n"
  shows "help_safe T cnt ns V H n p a R U K who w (HRe m k c)"
proof (cases "ctl (sh w) who = c")
  case True
  show ?thesis
    by (rule help_safe_silent[OF assms(1-3), where h' = HDone])
      (use True helper_facts(1)[OF assms(1-3)] running_idle(3)[OF R] in \<open>auto simp: bnd_apply helping_slots_solo\<close>)
next
  case False
  show ?thesis
    by (rule help_safe_enter[OF assms(1-3), where k = k])
      (use False helper_facts(1)[OF assms(1-3)] running_idle(3)[OF R] m in \<open>simp_all add: bnd_apply helping_slots_solo\<close>)
qed

lemma help_their_safe:
  assumes R: "running cnt ns V H n w" and v: "V n = help_view p a R U K who (HTheir m k c r) (gen (V n))" and hlp: "helper p a R U K who ns w"
    and m: "m = n" "is_gen c"
  shows "help_safe T cnt ns V H n p a R U K who w (HTheir m k c r)"
  by (rule help_safe_silent[OF assms(1-3), where h' = "HMine n k c r (offer (sh w) who)"])
    (use helper_facts[OF assms(1-3)] running_idle(3)[OF R] m in \<open>auto simp: bnd_apply helping_slots_solo\<close>)

lemma help_mine_safe:
  assumes R: "running cnt ns V H n w" and v: "V n = help_view p a R U K who (HMine m k c r th) (gen (V n))" and hlp: "helper p a R U K who ns w"
    and m: "m = n" "is_gen c"
  shows "help_safe T cnt ns V H n p a R U K who w (HMine m k c r th)"
  by (rule help_safe_silent[OF assms(1-3), where h' = "HStore n k c r th (offer (sh w) n)"])
    (use helper_facts[OF assms(1-3)] running_idle(3,5)[OF R] m in \<open>auto simp: bnd_apply helping_slots_solo\<close>)

section \<open>Writing to envelopes and offers\<close>

lemma help_take_safe:
  assumes R: "running cnt ns V H n w" and v: "V n = help_view p a R U K who (HTake m th) (gen (V n))" and hlp: "helper p a R U K who ns w"
    and m: "m = n"
  shows "help_safe T cnt ns V H n p a R U K who w (HTake m th)"
proof -
  note f = running_idle[OF R] and h = helper_facts[OF assms(1-3)]
  let ?f = "space_offer_update (\<lambda>_. th)"
  let ?s = "on_helping n ?f (sh w)" and ?v = "help_view p a R U K who HDone (gen (V n))"
  have lV: "ld (V n) = None" "hp (V n) = Some (who, Take th)" "oc (V n) = K"
      "wr (V n) = Some (p, a, R, \<lambda>m c. if m = who then False else U m c)"
    using arg_cong[OF v, of ld] arg_cong[OF v, of hp] arg_cong[OF v, of oc] arg_cong[OF v, of wr] by (simp_all cong: if_cong)
  have o: "ctl ?s n = ctl (sh w) n" "offer ?s n = th" "slot_get ?s d = slot_get (sh w) d" for d
    using on_helping_own[OF f(5), of ?f] slot_get_on_helping[of ?f n "sh w" d] by (simp_all add: ctl_def)
  have e: "envelope (sh w) n (V n) = th" "envelope ?s n ?v = th" using lV o by (simp_all add: envelope_def)
  have "envelopes (sh w) (envelope (sh w) n (V n)) \<noteq> None" using f(2,6) by (auto simp: shape_def envelopes_ok_def)
  then have "advance (set ns) (sh w) V n ?s ?v"
    by (intro advance_idle[OF f(1,2) lV(1) _ _ apart_on_helping])
      (use lV o e hlp in \<open>auto simp: covers_def ahead_def owner_ok_def help_ok_def helper_def split: if_splits\<close>)
  then have "core cnt (set ns) ?s (V(n := ?v)) H"
    by (rule core_quiet[OF f(1,2)]) (use lV o in \<open>simp_all add: view_on_helping mine_def part_def load_claims_def inflight_def\<close>)
  then have "running cnt ns (V(n := ?v)) H n (w\<lparr>sh := ?s\<rparr>)" by (rule runningI[OF R]) (use f(4) in simp_all)
  moreover have "help_atom T who a (HTake m th) w = (Inr HDone, w\<lparr>sh := ?s\<rparr>)"
    using f(3,5) m by (simp add: bnd_apply helping_slots_solo)
  moreover have "kept w (w\<lparr>sh := ?s\<rparr>)" "generation (loc w) = gen (V n)" using R by (simp_all add: kept_def running_def)
  ultimately show ?thesis unfolding help_safe_def by auto
qed

lemma help_store_safe:
  assumes R: "running cnt ns V H n w" and v: "V n = help_view p a R U K who (HStore m k c r th my) (gen (V n))"
    and hlp: "helper p a R U K who ns w" and m: "m = n" "is_gen c"
  shows "help_safe T cnt ns V H n p a R U K who w (HStore m k c r th my)"
proof -
  note f = running_idle[OF R] and h = helper_facts[OF assms(1-3)]
  let ?s = "(sh w)\<lparr>envelopes := (envelopes (sh w))(my \<mapsto> r)\<rparr>"
  let ?h = "HCas n k c r th my"
  let ?v = "help_view p a R U K who ?h (gen (V n))"
  have lV: "ld (V n) = None" "hp (V n) = Some (who, Mine c th my)" "oc (V n) = {#(r, None)#} + K"
      "wr (V n) = Some (p, a, R, \<lambda>m g. if m = who then c = g else U m g)"
    using arg_cong[OF v, of ld] arg_cong[OF v, of hp] arg_cong[OF v, of oc] arg_cong[OF v, of wr] by (simp_all cong: if_cong)
  have o: "ctl ?s k = ctl (sh w) k" "offer ?s k = offer (sh w) k" for k by (simp_all add: ctl_def offer_def node_at_def)
  have my: "my = offer (sh w) n" and hv: "who \<noteq> n" "hview_ok (sh w) n who (Mine c th my)" "issued (V who) c"
    using h(6)[of "Mine c th my"] m(2) by auto
  have e: "envelope (sh w) n (V n) = my" "envelope ?s n ?v = my" using lV o my by (simp_all add: envelope_def)
  have al: "aligned4 my" "envelopes (sh w) my \<noteq> None" using f(2,6) e(1) by (auto simp: shape_def envelopes_ok_def)
  have "help_ok (set ns) ?s (V(n := ?v)) n"
    by (rule help_ok_view) (use hv o my m(2) hlp in \<open>auto simp: helper_def\<close>)
  then have "advance (set ns) (sh w) V n ?s ?v"
    by (intro advance_idle[OF f(1,2) lV(1)])
      (use lV o e hlp in \<open>auto simp: covers_def ahead_def owner_ok_def helper_def apart_def addr_def node_at_def split: if_splits\<close>)
  moreover have "view cnt ?s = view cnt (sh w)" by (simp add: view_def)
  moreover have "mine ?s n ?v H = mine (sh w) n (V n) H"
    using lV o h(4) by (simp add: mine_def part_def load_claims_def inflight_def)
  ultimately have "core cnt (set ns) ?s (V(n := ?v)) H" using core_quiet[OF f(1,2)] by blast
  then have "running cnt ns (V(n := ?v)) H n (w\<lparr>sh := ?s\<rparr>)" by (rule runningI[OF R]) (use f(4) in simp_all)
  moreover have "help_atom T who a (HStore m k c r th my) w = (Inr ?h, w\<lparr>sh := ?s\<rparr>)"
    using f(3) m al envelope_store_solo[OF f(3)] by (auto simp: bnd_apply aligned4_def)
  moreover have "kept w (w\<lparr>sh := ?s\<rparr>)" "generation (loc w) = gen (V n)" using R by (simp_all add: kept_def running_def)
  ultimately show ?thesis using m(2) unfolding help_safe_def by auto
qed

section \<open>Handing a replacement over\<close>

lemma claims_split2:
  assumes "finite N" and "n \<in> N" and "m \<in> N" and "m \<noteq> n"
  shows "claims N s V H = H + part s n (V n) + part s m (V m) + (\<Sum>k\<in>N - {n} - {m}. part s k (V k))"
proof -
  have "rest N s V n = part s m (V m) + (\<Sum>k\<in>N - {n} - {m}. part s k (V k))"
    unfolding rest_def using assms by (intro sum.remove) auto
  then show ?thesis using claims_split[OF assms(1,2), of s V H] by (simp add: add.assoc)
qed

text \<open>A reader with a generation in its control word is between the announcement and the confirmation.\<close>

fun transacting :: "lpc \<Rightarrow> bool" where
  "transacting (FbCand c) \<longleftrightarrow> True"
| "transacting (FbConf c p) \<longleftrightarrow> True"
| "transacting (FbSlot m c p) \<longleftrightarrow> True"
| "transacting (FbIdle m c p) \<longleftrightarrow> True"
| "transacting l \<longleftrightarrow> False"

lemma gen_transacting:
  assumes "load_ok s m v" and "is_gen (ctl s m)"
  obtains a l where "ld v = Some (a, l)" "transacting l"
proof -
  obtain a l where l: "ld v = Some (a, l)" using assms by (cases "ld v") (auto simp: load_ok_def)
  have c: "ctl_ok s m (gen v) a l" using assms(1) l by (simp add: load_ok_def)
  then have "transacting l" using assms(2) by (cases l) auto
  then show ?thesis using that l by blast
qed

lemma transacting_envelope:
  "ld v = Some (a, l) \<Longrightarrow> transacting l \<Longrightarrow> envelope s m v = (if is_env (ctl s m) then untag (ctl s m) else offer s m)"
  by (cases l) (simp_all add: envelope_def)

lemma transacting_claims: "transacting l \<Longrightarrow> lclaims s' l = lclaims s l"
  by (cases l) simp_all

lemma transacting_ctl_ok:
  "transacting l \<Longrightarrow> ctl_ok s m g a l \<Longrightarrow> is_env (ctl s' m) \<Longrightarrow> addr s' m = addr s m \<Longrightarrow> ctl_ok s' m g a l"
  by (cases l) (simp_all add: in_transaction_def)

text \<open>
  The exchange succeeds: the control word of \<open>who\<close> was still the generation \<open>c\<close> the helper had seen, and now
  names the helper's envelope \<open>my\<close> with the reference \<open>r\<close> inside; the helper takes the reader's envelope \<open>th\<close>.
\<close>

definition handover :: "('v heap \<Rightarrow> usize \<Rightarrow> nat) \<Rightarrow> usize set \<Rightarrow> 'v shared \<Rightarrow> (usize \<Rightarrow> tv) \<Rightarrow> handles \<Rightarrow> usize \<Rightarrow> usize \<Rightarrow>
    usize \<Rightarrow> usize \<Rightarrow> usize \<Rightarrow> tv \<Rightarrow> 'v shared \<Rightarrow> bool" where
  "handover cnt N s V H n who my th r v' s' \<longleftrightarrow> core cnt N s V H \<and> n \<in> N \<and> who \<in> N \<and> who \<noteq> n \<and>
     hp (V n) = Some (who, Stored (ctl s who) th my r) \<and> oc (V n) = add_mset (r, None) (oc v') \<and> ld v' = None \<and>
     hp v' = Some (who, Take th) \<and> gen v' = gen (V n) \<and> (\<forall>d p. covers (V n) d p \<longrightarrow> covers v' d p) \<and>
     (\<forall>p a m g. m \<noteq> who \<longrightarrow> ahead (V n) p a m g \<longrightarrow> ahead v' p a m g) \<and> owner_ok v' \<and>
     s' = on_helping who (control_update (\<lambda>_. my OR REPLACEMENT_TAG)) s"

lemma handover_old:
  assumes "handover cnt N s V H n who my th r v' s'"
  shows "finite N" "N \<subseteq> dom (nodes s)" "shape N s V" "accounted cnt N s V H" "n \<in> N" "who \<in> N" "who \<noteq> n"
    "ld v' = None" "hp v' = Some (who, Take th)" "gen v' = gen (V n)" "owner_ok v'"
    "is_gen (ctl s who)" "th = offer s who" "my = offer s n" "envelopes s my = Some r" "ld (V n) = None" "load_ok s who (V who)"
    "hp (V n) = Some (who, Stored (ctl s who) th my r)" "oc (V n) = add_mset (r, None) (oc v')"
proof -
  show "finite N" "N \<subseteq> dom (nodes s)" "shape N s V" "accounted cnt N s V H" and n: "n \<in> N" and w: "who \<in> N" and "who \<noteq> n"
    and "ld v' = None" "hp v' = Some (who, Take th)" "gen v' = gen (V n)" "owner_ok v'"
    and hv: "hp (V n) = Some (who, Stored (ctl s who) th my r)" and "oc (V n) = add_mset (r, None) (oc v')"
    using assms by (simp_all add: core_def handover_def)
  then have "help_ok N s V n" and "load_ok s who (V who)" by (simp_all add: shape_def)
  then show "is_gen (ctl s who)" "th = offer s who" "my = offer s n" "envelopes s my = Some r" "ld (V n) = None" "load_ok s who (V who)"
    using hv by (auto simp: help_ok_def)
qed

lemma handover_aligned:
  assumes "handover cnt N s V H n who my th r v' s'"
  shows "aligned4 my"
proof -
  note o = handover_old[OF assms]
  have "envelope s n (V n) = my" using o(14,16,18) by (simp add: envelope_def)
  then show ?thesis using o(3,5) by (auto simp: shape_def envelopes_ok_def)
qed

lemma handover_fields:
  assumes X: "handover cnt N s V H n who my th r v' s'"
  shows "m \<noteq> who \<Longrightarrow> ctl s' m = ctl s m" "addr s' m = addr s m" "offer s' m = offer s m" "slot_get s' d = slot_get s d"
    "storage s' = storage s" "envelopes s' = envelopes s" "is_env (ctl s' who)" "untag (ctl s' who) = my" "\<not> is_gen (ctl s' who)"
    "dom (nodes s') = dom (nodes s)" "view cnt s' = view cnt s"
proof -
  let ?f = "control_update (\<lambda>_. my OR REPLACEMENT_TAG)"
  have s': "s' = on_helping who ?f s" using X by (simp add: handover_def)
  have d: "who \<in> dom (nodes s)" using handover_old[OF X] by blast
  note f = on_helping_own[OF d, of ?f]
  show "m \<noteq> who \<Longrightarrow> ctl s' m = ctl s m" "storage s' = storage s" "envelopes s' = envelopes s" "dom (nodes s') = dom (nodes s)"
    by (simp_all add: s')
  show "addr s' m = addr s m" "offer s' m = offer s m" using f(2,3) addr_def[of s who] offer_def[of s who] by (cases "m = who"; simp add: s')+
  show "slot_get s' d = slot_get s d" unfolding s' by (rule slot_get_on_helping) simp
  show "view cnt s' = view cnt s" unfolding s' by (rule view_on_helping) simp
  have k: "ctl s' who = my OR REPLACEMENT_TAG" using f by (simp add: s')
  show e: "is_env (ctl s' who)" "untag (ctl s' who) = my"
    unfolding k is_env_def untag_def by (rule aligned4_repl_tag[OF handover_aligned[OF X]], rule aligned4_untag[OF handover_aligned[OF X]])
  show "\<not> is_gen (ctl s' who)" using e(1) gen_not_env by blast
qed

lemma handover_envelope:
  assumes X: "handover cnt N s V H n who my th r v' s'"
  shows "envelope s' m ((V(n := v')) m) = (if m = n then envelope s who (V who) else if m = who then envelope s n (V n) else envelope s m (V m))"
proof -
  note o = handover_old[OF X] and f = handover_fields[OF X]
  obtain a l where l: "ld (V who) = Some (a, l)" "transacting l" by (rule gen_transacting[OF o(17,12)])
  have "envelope s' who (V who) = my" "envelope s who (V who) = th"
    using transacting_envelope[OF l, of s' who] transacting_envelope[OF l, of s who] f(7,8) gen_not_env[OF o(12)] o(13) by simp_all
  moreover have "envelope s' n v' = th" "envelope s n (V n) = my" using o by (simp_all add: envelope_def)
  moreover have "m \<noteq> who \<Longrightarrow> envelope s' m (V m) = envelope s m (V m)" by (rule envelope_frame) (simp_all add: f)
  ultimately show ?thesis using o(7) by auto
qed

lemma handover_envelopes:
  assumes X: "handover cnt N s V H n who my th r v' s'"
  shows "envelopes_ok N s' (V(n := v'))"
proof -
  note o = handover_old[OF X]
  let ?e = "\<lambda>m. envelope s m (V m)" and ?t = "\<lambda>m. if m = n then who else if m = who then n else m"
  have eq: "envelope s' m ((V(n := v')) m) = ?e (?t m)" for m using handover_envelope[OF X, of m] by auto
  have t: "?t m \<in> N" if "m \<in> N" for m using that o(5,6) by auto
  have inj: "inj_on ?e N" and ok: "\<And>m. m \<in> N \<Longrightarrow> aligned4 (?e m) \<and> envelopes s (?e m) \<noteq> None"
    using o(3) by (auto simp: shape_def envelopes_ok_def)
  have "inj_on (\<lambda>m. ?e (?t m)) N"
  proof (rule inj_onI)
    fix x y assume xy: "x \<in> N" "y \<in> N" "?e (?t x) = ?e (?t y)"
    then have "?t x = ?t y" by (intro inj_onD[OF inj xy(3) t t])
    then show "x = y" by (auto split: if_splits)
  qed
  then show ?thesis unfolding envelopes_ok_def eq handover_fields(6)[OF X] using ok t by blast
qed

lemma handover_help:
  assumes X: "handover cnt N s V H n who my th r v' s'" and m: "m \<in> N"
  shows "help_ok N s' (V(n := v')) m"
proof (cases "m = n")
  case True
  then show ?thesis using handover_old[OF X] by (auto simp: help_ok_def)
next
  case False
  note o = handover_old[OF X] and f = handover_fields[OF X]
  have pub: "issued v' d = issued (V n) d" for d using o(8,10,16) by (simp add: issued_def published_def)
  have h: "help_ok N s V m" using o(3) m by (simp add: shape_def)
  show ?thesis
    unfolding help_ok_def
  proof (intro allI impI)
    fix k h assume "hp ((V(n := v')) m) = Some (k, h)"
    then have hm: "hp (V m) = Some (k, h)" using False by simp
    then have q: "k \<in> N" "k \<noteq> m" "hview_ok s m k h" "\<And>c. seen h = Some c \<Longrightarrow> is_gen c \<Longrightarrow> issued (V k) c" "ld (V m) = None \<or> (\<exists>c. h = Seen c)"
      using h by (auto simp: help_ok_def)
    have "hview_ok s' m k h" using q(3) f(1,3,6,9) by (cases h; cases "k = who") auto
    then show "k \<in> N \<and> k \<noteq> m \<and> hview_ok s' m k h \<and> (\<forall>c. seen h = Some c \<and> is_gen c \<longrightarrow> issued ((V(n := v')) k) c) \<and>
        (ld ((V(n := v')) m) = None \<or> (\<exists>c. h = Seen c))"
      using q False pub by auto
  qed
qed

lemma handover_load:
  assumes X: "handover cnt N s V H n who my th r v' s'" and m: "m \<in> N"
  shows "load_ok s' m ((V(n := v')) m)"
proof -
  note o = handover_old[OF X] and f = handover_fields[OF X]
  have ok: "load_ok s m (V m)" using o(3) m by (simp add: shape_def)
  show ?thesis
  proof (cases "m = who")
    case False
    then have "load_ok s' m (V m)" by (intro load_ok_frame[OF ok]) (simp_all add: f)
    then show ?thesis using o(8,10,16) by (auto simp: load_ok_def)
  next
    case True
    obtain a l where l: "ld (V who) = Some (a, l)" "transacting l" by (rule gen_transacting[OF o(17,12)])
    have "lpc_ok s' who l = lpc_ok s who l" by (cases l) (simp_all add: f(4) del: slot_get.simps)
    moreover have "ctl_ok s' who (gen (V who)) a l"
      by (rule transacting_ctl_ok[OF l(2), of s]) (use o(17) l(1) f(2,7) in \<open>simp_all add: load_ok_def\<close>)
    ultimately have "load_ok s' who (V who)"
      using o(17) l(1) f(4,5) by (simp add: load_ok_def slot_ok_def del: slot_get.simps)
    then show ?thesis using True o(7) by simp
  qed
qed

lemma handover_linked:
  assumes X: "handover cnt N s V H n who my th r v' s'" and m: "m \<in> N"
  shows "linked N s' (V(n := v')) m"
  unfolding linked_def
proof (intro allI impI)
  note o = handover_old[OF X] and f = handover_fields[OF X]
  fix b g q assume w: "waiting s' m ((V(n := v')) m) b g q"
  have mn: "m \<noteq> n" using w o(8) by (auto simp: waiting_def)
  have "is_gen g" "ctl s' m = g" using waiting_gen[OF handover_load[OF X m] w] by simp_all
  then have mw: "m \<noteq> who" using f(9) by auto
  then have "waiting s m (V m) b g q" using w mn f(1) by (simp add: waiting_def)
  moreover have "linked N s V m" using o(3) m by (simp add: shape_def)
  ultimately consider "storage s b = Some q" | k where "k \<in> N" "ahead (V k) q b m g" unfolding linked_def by blast
  then show "storage s' b = Some q \<or> (\<exists>k\<in>N. ahead ((V(n := v')) k) q b m g)"
  proof cases
    case (2 k)
    have "ahead (V n) q b m g \<longrightarrow> ahead v' q b m g" using X mw by (simp add: handover_def)
    then have "ahead ((V(n := v')) k) q b m g" using 2(2) by (cases "k = n") simp_all
    then show ?thesis using 2 by blast
  qed (simp add: f(5))
qed

lemma handover_shape:
  assumes X: "handover cnt N s V H n who my th r v' s'"
  shows "shape N s' (V(n := v'))"
proof -
  note o = handover_old[OF X] and f = handover_fields[OF X]
  have "covered N s' (V(n := v')) d p" if "(d, p) \<in> owed_of s'" for d p
  proof -
    have "covered N s V d p" using o(3) that f(4) by (simp add: shape_def)
    then consider a where "storage s a = Some p" | m where "m \<in> N" "covers (V m) d p" by (auto simp: covered_def)
    then show ?thesis
    proof cases
      case (2 m)
      have "covers (V n) d p \<longrightarrow> covers v' d p" using X by (simp add: handover_def)
      then have "covers ((V(n := v')) m) d p" using 2(2) by (cases "m = n") simp_all
      then show ?thesis using 2 unfolding covered_def by blast
    qed (auto simp: covered_def f(5))
  qed
  moreover have "owner_ok ((V(n := v')) m)" if "m \<in> N" for m using o(3,11) that by (simp add: shape_def)
  ultimately show ?thesis
    using handover_linked[OF X] handover_load[OF X] handover_help[OF X] handover_envelopes[OF X] unfolding shape_def by blast
qed

lemma handover_claims:
  assumes X: "handover cnt N s V H n who my th r v' s'"
  shows "claims N s' (V(n := v')) H = claims N s V H"
proof -
  note o = handover_old[OF X] and f = handover_fields[OF X]
  obtain a l where l: "ld (V who) = Some (a, l)" "transacting l" by (rule gen_transacting[OF o(17,12)])
  have w: "part s' who (V who) = add_mset (r, None) (part s who (V who))"
    using l(1) transacting_claims[OF l(2), of s' s] f(6,7,8) o(15) gen_not_env[OF o(12)]
    by (simp add: part_def load_claims_def inflight_def)
  have idle: "ctl s n = IDLE" using o(3,5,16) by (auto simp: shape_def load_ok_def)
  have p: "part s n (V n) = add_mset (r, None) (part s' n v')"
    using o(8,16,19) idle f(1)[of n] o(7) by (simp add: part_def load_claims_def inflight_def)
  have k: "part s' k (V k) = part s k (V k)" if "k \<in> N" "k \<noteq> who" for k
    by (rule part_frame) (use that o(3) f in \<open>simp_all add: shape_def\<close>)
  have "(\<Sum>k\<in>N - {n} - {who}. part s' k ((V(n := v')) k)) = (\<Sum>k\<in>N - {n} - {who}. part s k (V k))"
    by (rule sum.cong) (use k in auto)
  then show ?thesis
    using claims_split2[OF o(1,5,6,7), of s V H] claims_split2[OF o(1,5,6,7), of s' "V(n := v')" H] w p o(7) by simp
qed

lemma handover_core:
  assumes X: "handover cnt N s V H n who my th r v' s'"
  shows "core cnt N s' (V(n := v')) H"
  using handover_old(1,2,4)[OF X] handover_shape[OF X] handover_claims[OF X] handover_fields(4,10,11)[OF X]
  by (simp add: core_def accounted_def)

lemma control_cas_at:
  assumes "solo w" and "m \<in> dom (nodes (sh w))"
  shows "control_cas m old new w = (Inr (ctl (sh w) m, ctl (sh w) m = old),
    w\<lparr>sh := if ctl (sh w) m = old then on_helping m (control_update (\<lambda>_. new)) (sh w) else sh w\<rparr>)"
proof -
  obtain nd where nd: "nodes (sh w) m = Some nd" using assms(2) by blast
  then have c: "ctl (sh w) m = control (helping nd)" by (simp add: ctl_def node_at_def)
  have "(nodes (sh w))(m \<mapsto> nd) = nodes (sh w)" using nd by (simp add: fun_upd_idem)
  then show ?thesis using assms(1) nd unfolding c control_cas_def by (simp add: node_rmw_def atomic_solo on_helping_def Let_def)
qed

lemma help_cas_safe:
  assumes R: "running cnt ns V H n w" and v: "V n = help_view p a R U K who (HCas m k c r th my) (gen (V n))"
    and hlp: "helper p a R U K who ns w" and m: "m = n" "is_gen c"
  shows "help_safe T cnt ns V H n p a R U K who w (HCas m k c r th my)"
proof (cases "ctl (sh w) who = c")
  case False
  note h = helper_facts[OF assms(1-3)]
  show ?thesis
    by (rule help_safe_silent[OF assms(1-3), where h' = "HDrop n k r (ctl (sh w) who)"])
      (use False h(2-6) m control_cas_at[OF running_idle(3)[OF R] h(1)] in \<open>auto simp: bnd_apply\<close>)
next
  case True
  note f = running_idle[OF R] and h = helper_facts[OF assms(1-3)]
  let ?s = "on_helping who (control_update (\<lambda>_. my OR REPLACEMENT_TAG)) (sh w)"
  let ?v = "help_view p a R U K who (HTake n th) (gen (V n))"
  have lV: "ld (V n) = None" "hp (V n) = Some (who, Stored c th my r)" "oc (V n) = add_mset (r, None) K"
      "wr (V n) = Some (p, a, R, \<lambda>m g. if m = who then c = g else U m g)"
    using arg_cong[OF v, of ld] arg_cong[OF v, of hp] arg_cong[OF v, of oc] arg_cong[OF v, of wr] by (simp_all cong: if_cong)
  have "owner_ok ?v" using hlp by (auto simp: owner_ok_def helper_def split: if_splits)
  moreover have "who \<in> set ns" "who \<noteq> n" using hlp h(6)[of "Stored c th my r"] by (simp_all add: helper_def)
  ultimately have "handover cnt (set ns) (sh w) V H n who my th r ?v ?s"
    using f(1,2) lV True by (auto simp: handover_def covers_def ahead_def)
  then have "core cnt (set ns) ?s (V(n := ?v)) H" by (rule handover_core)
  then have "running cnt ns (V(n := ?v)) H n (w\<lparr>sh := ?s\<rparr>)" by (rule runningI[OF R]) (use f(4) in simp_all)
  moreover have "help_atom T who a (HCas m k c r th my) w = (Inr (HTake n th), w\<lparr>sh := ?s\<rparr>)"
    using control_cas_at[OF f(3) h(1)] True m by (simp add: bnd_apply)
  moreover have "kept w (w\<lparr>sh := ?s\<rparr>)" "generation (loc w) = gen (V n)" using R by (simp_all add: kept_def running_def)
  ultimately show ?thesis unfolding help_safe_def by auto
qed

context shared_cnt
begin

lemma help_into_view:
  "(help_view p a R U K who (HInto n k c i) g)\<lparr>oc := iclaims i' + K\<rparr> = help_view p a R U K who (help_into n k c i') g"
  by (cases i') (simp_all add: help_view_def)

lemma help_into_safe:
  assumes R: "running cnt ns V H n w" and v: "V n = help_view p a R U K who (HInto m k c i) (gen (V n))"
    and hlp: "helper p a R U K who ns w" and m: "m = n" "is_gen c"
  shows "help_safe T cnt ns V H n p a R U K who w (HInto m k c i)"
proof -
  have lV: "ld (V n) = None" "oc (V n) = iclaims i + K" "wr (V n) = Some (p, a, R, \<lambda>m g. if m = who then c = g else U m g)"
    using arg_cong[OF v, of ld] arg_cong[OF v, of oc] arg_cong[OF v, of wr] by (simp_all cong: if_cong)
  have "owner_ok ((V n)\<lparr>oc := K\<rparr>)" using hlp lV(3) by (auto simp: owner_ok_def helper_def split: if_splits)
  then obtain i' w' where i': "into_atom T i w = (Inr i', w')" "kept w w'" "loc w' = loc w"
      "running cnt ns (V(n := (V n)\<lparr>oc := iclaims i' + K\<rparr>)) H n w'"
    using into_atom_safe[OF R lV(1,2)] by blast
  have "(V n)\<lparr>oc := iclaims i' + K\<rparr> = help_view p a R U K who (help_into n k c i') (gen (V n))"
    using v help_into_view m(1) by metis
  moreover have "hpc_ok n (help_into n k c i')" using m by (cases i') simp_all
  moreover have "generation (loc w') = gen (V n)" using R i'(3) by (simp add: running_def)
  ultimately show ?thesis using i' m(1) unfolding help_safe_def by (auto simp: bnd_apply)
qed

lemma help_load_view:
  "at_load (help_view p a R U K who (HLoad n k c l) g) a l' g' = help_view p a R U K who (HLoad n k c l') g'"
  "(help_view p a R U K who (HLoad n k c l) g)\<lparr>ld := None, oc := add_mset (q, d) K\<rparr> = help_view p a R U K who (help_into n k c (into_start q d)) g"
  by (simp_all add: help_view_def into_start_def split: option.splits)

lemma help_load_safe:
  assumes R: "running cnt ns V H n w" and v: "V n = help_view p a R U K who (HLoad m k c l) (gen (V n))"
    and m: "m = n" "is_gen c" and g: "announces l \<Longrightarrow> gen (V n) + 4 \<noteq> 0"
  shows "help_safe T cnt ns V H n p a R U K who w (HLoad m k c l)"
proof -
  have lV: "ld (V n) = Some (a, l)" using arg_cong[OF v, of ld] by simp
  obtain l' w' where l': "load_atom T a l w = (Inr l', w')" "kept w w'"
      "running cnt ns (V(n := at_load (V n) a l' (generation (loc w')))) H n w'"
    using load_atom_safe[OF R lV g] by (auto simp: load_safe_def)
  let ?h = "HLoad n k c l'"
  let ?V = "V(n := help_view p a R U K who ?h (generation (loc w')))"
  have "at_load (V n) a l' (generation (loc w')) = help_view p a R U K who ?h (generation (loc w'))"
    using v help_load_view(1) m(1) by metis
  then have R': "running cnt ns ?V H n w'" using l'(3) by simp
  have "\<exists>h'. help_load n k c l' = h' \<and> hpc_ok n h' \<and> running cnt ns (V(n := help_view p a R U K who h' (generation (loc w')))) H n w'"
  proof (cases "load_done l'")
    case True
    then obtain q d where q: "l' = LdDone q d" by (cases l') simp_all
    have "running cnt ns (?V(n := (?V n)\<lparr>ld := None, oc := add_mset (q, d) (oc (?V n))\<rparr>)) H n w'"
      by (rule finish_load[OF R', of a]) (simp add: q)
    then have "running cnt ns (V(n := help_view p a R U K who (help_into n k c (into_start q d)) (generation (loc w')))) H n w'"
      using help_load_view(2)[where l = l' and g = "generation (loc w')" and q = q and d = d] by simp
    moreover have "hpc_ok n (help_into n k c (into_start q d))" using m(2) by (simp add: into_start_def split: option.splits)
    ultimately show ?thesis using q by simp
  next
    case False
    then have "help_load n k c l' = ?h" by (cases l') simp_all
    then show ?thesis using R' m(2) by simp
  qed
  then show ?thesis using l'(1,2) m(1) unfolding help_safe_def by (auto simp: bnd_apply)
qed

lemma help_drop_view:
  "(help_view p a R U K who (HDrop n k r c) g)\<lparr>oc := K\<rparr> = help_view p a R U K who (HAddr n k c) g"
  by (simp add: help_view_def)

lemma help_drop_safe:
  assumes R: "running cnt ns V H n w" and v: "V n = help_view p a R U K who (HDrop m k r c) (gen (V n))"
    and hlp: "helper p a R U K who ns w" and m: "m = n" "tag_ok c"
  shows "help_safe T cnt ns V H n p a R U K who w (HDrop m k r c)"
proof -
  have lV: "ld (V n) = None" "oc (V n) = add_mset (r, None) K" "wr (V n) = Some (p, a, R, \<lambda>m g. if m = who then c = g else U m g)"
    using arg_cong[OF v, of ld] arg_cong[OF v, of oc] arg_cong[OF v, of wr] by (simp_all cong: if_cong)
  have who: "who \<noteq> n" using helper_facts(6)[OF assms(1-3), of "Seen c"] by simp
  have "owner_ok ((V n)\<lparr>oc := K\<rparr>)" using hlp lV(3) by (auto simp: owner_ok_def helper_def split: if_splits)
  then obtain w' where w': "drop_val T (from_ptr T r) w = (Inr (), w')" "kept w w'" "loc w' = loc w" "storage (sh w') = storage (sh w)"
      "running cnt ns (V(n := (V n)\<lparr>oc := K\<rparr>)) H n w'"
    using hand_dec[OF R lV(1,2)] by blast
  let ?v = "help_view p a R U K who (HAddr n k c) (gen (V n))"
  let ?V = "V(n := ?v)"
  have "(V n)\<lparr>oc := K\<rparr> = ?v" using arg_cong[OF v, of "oc_update (\<lambda>_. K)"] help_drop_view m(1) by simp
  then have R': "running cnt ns ?V H n w'" using w'(5) by simp
  have h': "helper p a R U K who ns w'" using hlp w'(4) by (simp add: helper_def)
  have v': "?V n = help_view p a R U K who (HAddr n k c) (gen (?V n))" by simp
  have g: "generation (loc w') = gen (V n)" using R w'(3) by (simp add: running_def)
  have at: "help_atom T who a (HDrop m k r c) w = help_enter n who k c w'" using w'(1) m(1) by (simp add: bnd_apply)
  from help_enter_cases[OF m(2), of who n k w'] who
  consider "fst (help_enter n who k c w') = Inl OutOfFuel" | "\<not> is_gen c" "help_enter n who k c w' = (Inr HDone, w')"
    | j where "is_gen c" "help_enter n who k c w' = (Inr (HAddr n j c), w')" by blast
  then show ?thesis
  proof cases
    case 1 then show ?thesis using at by (simp add: help_safe_def)
  next
    case 2
    have "running cnt ns (?V(n := help_view p a R U K who HDone (gen (?V n)))) H n w'"
      by (rule help_review[OF R' v' h']) (use 2(1) who helper_facts(5)[OF R' v' h'] in auto)
    then show ?thesis using at 2(2) w'(2) g unfolding help_safe_def by auto
  next
    case (3 j)
    have eq: "help_view p a R U K who (HAddr n j c) (gen (V n)) = ?v" by (simp add: help_view_def)
    have "running cnt ns (V(n := help_view p a R U K who (HAddr n j c) (gen (V n)))) H n w'" unfolding eq by (rule R')
    then show ?thesis using at 3 w'(2) g unfolding help_safe_def by auto
  qed
qed

theorem help_atom_safe:
  assumes R: "running cnt ns V H n w" and v: "V n = help_view p a R U K who h (gen (V n))"
    and hlp: "helper p a R U K who ns w" and ok: "hpc_ok n h" and g: "help_announces h \<Longrightarrow> gen (V n) + 4 \<noteq> 0"
  shows "help_safe T cnt ns V H n p a R U K who w h"
proof (cases h)
  case HDone
  have "V(n := help_view p a R U K who HDone (generation (loc w))) = V"
    using v R HDone by (simp add: running_def fun_upd_idem)
  then show ?thesis using R HDone unfolding help_safe_def by (auto simp: kept_def running_def)
qed (use assms in \<open>simp_all add: help_node_safe help_self_safe help_ctl_safe help_addr_safe help_re_safe help_load_safe
      help_into_safe help_their_safe help_mine_safe help_store_safe help_cas_safe help_take_safe help_drop_safe\<close>)

end

end
