(* ===== verification/WriterSafety.thy ===== *)
theory WriterSafety
  imports Helper
begin

unbundle bit_operations_syntax

text \<open>
  A writer on its walk along the list: the accesses of \<open>Debt::pay_all\<close> keep the invariant. The view of a
  writer says which slots it has still to look at and which readers it would still help.
\<close>

section \<open>Positions on the chain\<close>

definition from_here :: "usize list \<Rightarrow> usize \<Rightarrow> usize list" where
  "from_here ns cur = dropWhile (\<lambda>m. m \<noteq> cur) ns"

definition later :: "usize list \<Rightarrow> usize \<Rightarrow> usize list" where
  "later ns cur = tl (from_here ns cur)"

lemma from_here_Cons:
  assumes "cur \<in> set ns"
  shows "from_here ns cur = cur # later ns cur"
proof -
  have ne: "from_here ns cur \<noteq> []" using assms by (auto simp: from_here_def dropWhile_eq_Nil_conv)
  moreover have "hd (from_here ns cur) = cur"
    using hd_dropWhile[of "\<lambda>m. m \<noteq> cur" ns] ne by (simp add: from_here_def)
  ultimately show ?thesis unfolding later_def by (metis list.collapse)
qed

lemma from_here_split: "ns = takeWhile (\<lambda>m. m \<noteq> cur) ns @ from_here ns cur"
  by (simp add: from_here_def)

lemma later_at: "distinct (xs @ cur # ys) \<Longrightarrow> later (xs @ cur # ys) cur = ys"
proof -
  assume d: "distinct (xs @ cur # ys)"
  have "from_here (xs @ cur # ys) cur = cur # ys"
    using d by (induction xs) (auto simp: from_here_def)
  then show ?thesis by (simp add: later_def)
qed

lemma later_next:
  assumes "distinct ns" and "cur \<in> set ns" and "later ns cur = m # ms"
  shows "m \<in> set ns" "later ns m = ms" "from_here ns m = m # ms"
proof -
  let ?xs = "takeWhile (\<lambda>m. m \<noteq> cur) ns @ [cur]"
  have e: "ns = ?xs @ m # ms" using from_here_split[of ns cur] from_here_Cons[OF assms(2)] assms(3) by simp
  show m: "m \<in> set ns" by (subst e) simp
  show l: "later ns m = ms" using later_at[of ?xs m ms] assms(1) e by metis
  show "from_here ns m = m # ms" using from_here_Cons[OF m] l by simp
qed

lemma later_links:
  assumes "links nx x ns" and "cur \<in> set ns"
  shows "links nx (nx cur) (later ns cur)"
proof -
  have "links nx y (xs @ cur # ys) \<Longrightarrow> links nx (nx cur) ys" for y xs ys by (induction xs arbitrary: y) auto
  then show ?thesis using assms(1) from_here_split[of ns cur] from_here_Cons[OF assms(2)] by metis
qed

section \<open>The view of a writer\<close>

definition slots_in :: "usize list \<Rightarrow> Debt set" where
  "slots_in ms = {d. debt_node d \<in> set ms}"

fun pay_rem :: "usize list \<Rightarrow> ppc \<Rightarrow> Debt set" where
  "pay_rem ns PInc = UNIV"
| "pay_rem ns PHead = UNIV"
| "pay_rem ns (PRes k cur) = slots_in (from_here ns cur)"
| "pay_rem ns (PHelp k cur h) = slots_in (from_here ns cur)"
| "pay_rem ns (PSlot k cur d ds) = insert d (set ds) \<union> slots_in (later ns cur)"
| "pay_rem ns (PSlotInc k cur ds) = set ds \<union> slots_in (later ns cur)"
| "pay_rem ns (PRel k cur) = slots_in (later ns cur)"
| "pay_rem ns (PNext k cur) = slots_in (later ns cur)"
| "pay_rem ns PDrop = {}"
| "pay_rem ns PDone = {}"

fun pay_unhelped :: "usize list \<Rightarrow> ppc \<Rightarrow> usize \<Rightarrow> usize \<Rightarrow> bool" where
  "pay_unhelped ns PInc m g \<longleftrightarrow> True"
| "pay_unhelped ns PHead m g \<longleftrightarrow> True"
| "pay_unhelped ns (PRes k cur) m g \<longleftrightarrow> m \<in> set (from_here ns cur)"
| "pay_unhelped ns (PHelp k cur h) m g \<longleftrightarrow> (if m = cur then hpend h g else m \<in> set (later ns cur))"
| "pay_unhelped ns (PSlot k cur d ds) m g \<longleftrightarrow> m \<in> set (later ns cur)"
| "pay_unhelped ns (PSlotInc k cur ds) m g \<longleftrightarrow> m \<in> set (later ns cur)"
| "pay_unhelped ns (PRel k cur) m g \<longleftrightarrow> m \<in> set (later ns cur)"
| "pay_unhelped ns (PNext k cur) m g \<longleftrightarrow> m \<in> set (later ns cur)"
| "pay_unhelped ns PDrop m g \<longleftrightarrow> False"
| "pay_unhelped ns PDone m g \<longleftrightarrow> False"

fun pay_claims :: "usize \<Rightarrow> ppc \<Rightarrow> handles" where
  "pay_claims p PInc = {#(p, None)#}"
| "pay_claims p PDone = {#(p, None)#}"
| "pay_claims p (PSlotInc k cur ds) = {#(p, None)#}"
| "pay_claims p (PHelp k cur h) = hclaims h + {#(p, None), (p, None)#}"
| "pay_claims p pp = {#(p, None), (p, None)#}"

fun pay_load :: "usize \<Rightarrow> ppc \<Rightarrow> (usize \<times> lpc) option" where
  "pay_load a (PHelp k cur h) = hload a h"
| "pay_load a pp = None"

fun pay_hview :: "ppc \<Rightarrow> (usize \<times> hview) option" where
  "pay_hview (PHelp k cur h) = map_option (Pair cur) (hview_of h)"
| "pay_hview pp = None"

fun ppc_ok :: "usize list \<Rightarrow> usize \<Rightarrow> ppc \<Rightarrow> bool" where
  "ppc_ok ns n (PRes k cur) \<longleftrightarrow> cur \<in> set ns \<and> length (later ns cur) = k"
| "ppc_ok ns n (PHelp k cur h) \<longleftrightarrow> cur \<in> set ns \<and> length (later ns cur) = k \<and> hpc_ok n h"
| "ppc_ok ns n (PSlot k cur d ds) \<longleftrightarrow> cur \<in> set ns \<and> length (later ns cur) = k \<and> insert d (set ds) \<subseteq> set (all_slots cur)"
| "ppc_ok ns n (PSlotInc k cur ds) \<longleftrightarrow> cur \<in> set ns \<and> length (later ns cur) = k \<and> set ds \<subseteq> set (all_slots cur)"
| "ppc_ok ns n (PRel k cur) \<longleftrightarrow> cur \<in> set ns \<and> length (later ns cur) = k"
| "ppc_ok ns n (PNext k cur) \<longleftrightarrow> cur \<in> set ns \<and> length (later ns cur) = k"
| "ppc_ok ns n pp \<longleftrightarrow> True"

definition pay_view :: "usize \<Rightarrow> usize \<Rightarrow> usize list \<Rightarrow> handles \<Rightarrow> ppc \<Rightarrow> usize \<Rightarrow> tv" where
  "pay_view p a ns K pp g = \<lparr>ld = pay_load a pp, wr = Some (p, a, pay_rem ns pp, pay_unhelped ns pp), hp = pay_hview pp,
     oc = pay_claims p pp + K, gen = g\<rparr>"

lemma pay_view_fields [simp]:
  "ld (pay_view p a ns K pp g) = pay_load a pp" "wr (pay_view p a ns K pp g) = Some (p, a, pay_rem ns pp, pay_unhelped ns pp)"
  "hp (pay_view p a ns K pp g) = pay_hview pp" "oc (pay_view p a ns K pp g) = pay_claims p pp + K" "gen (pay_view p a ns K pp g) = g"
  by (simp_all add: pay_view_def)

lemma pay_view_help:
  "pay_view p a ns K (PHelp k cur h) g = help_view p a (slots_in (from_here ns cur)) (\<lambda>m c. m \<in> set (later ns cur))
     ({#(p, None), (p, None)#} + K) cur h g"
  by (simp add: pay_view_def help_view_def fun_eq_iff)

definition pay_safe :: "('t, 'v) RefCnt \<Rightarrow> ('v heap \<Rightarrow> usize \<Rightarrow> nat) \<Rightarrow> usize list \<Rightarrow> (usize \<Rightarrow> tv) \<Rightarrow> handles \<Rightarrow> usize \<Rightarrow>
    usize \<Rightarrow> usize \<Rightarrow> handles \<Rightarrow> 'v world \<Rightarrow> ppc \<Rightarrow> bool" where
  "pay_safe T cnt ns V H n p a K w pp \<longleftrightarrow> fst (pay_atom T p a pp w) = Inl OutOfFuel \<or>
     (\<exists>pp' w'. pay_atom T p a pp w = (Inr pp', w') \<and> kept w w' \<and> ppc_ok ns n pp' \<and>
       running cnt ns (V(n := pay_view p a ns K pp' (generation (loc w')))) H n w')"

lemma pay_claims_owner: "(p, None) \<in># pay_claims p pp + K"
  by (cases pp) auto

lemma pay_owner_ok:
  assumes "ppc_ok ns n pp"
  shows "owner_ok (pay_view p a ns K pp g)"
proof -
  have "HelpingDebt m \<in> pay_rem ns pp" if "pay_unhelped ns pp m c" for m c
  proof (cases pp)
    case (PHelp k cur h)
    then show ?thesis using that assms from_here_Cons[of cur ns] by (auto simp: slots_in_def split: if_splits)
  qed (use that in \<open>auto simp: slots_in_def\<close>)
  then show ?thesis using pay_claims_owner by (auto simp: owner_ok_def)
qed

text \<open>The writer changes its position without touching the memory.\<close>

lemma pay_review:
  assumes R: "running cnt ns V H n w" and v: "V n = pay_view p a ns K pp (gen (V n))"
    and l: "pay_load a pp = None" and h: "pay_hview pp = None" "pay_hview pp' = None" "pay_load a pp' = None"
    and ok: "ppc_ok ns n pp'" and cl: "pay_claims p pp' = pay_claims p pp"
    and rem: "\<And>d. d \<in> pay_rem ns pp \<Longrightarrow> slot_get (sh w) d = Some p \<Longrightarrow> d \<in> pay_rem ns pp'"
    and unh: "\<And>m g. m \<in> set ns \<Longrightarrow> pay_unhelped ns pp m g \<Longrightarrow> pay_unhelped ns pp' m g"
  shows "running cnt ns (V(n := pay_view p a ns K pp' (gen (V n)))) H n w"
proof (rule review[OF R])
  let ?v = "pay_view p a ns K pp' (gen (V n))"
  have V: "ld (V n) = None" "hp (V n) = None" "wr (V n) = Some (p, a, pay_rem ns pp, pay_unhelped ns pp)" "oc (V n) = pay_claims p pp + K"
    using arg_cong[OF v, of ld] arg_cong[OF v, of hp] arg_cong[OF v, of wr] arg_cong[OF v, of oc] l h by simp_all
  show "ld (V n) = None" by (rule V(1))
  show "ld ?v = None \<or> (\<exists>a. ld ?v = Some (a, LdPtr) \<and> storage (sh w) a \<noteq> None)" using h by simp
  show "H + oc ?v = H + oc (V n)" by (simp add: V(4) cl)
  show "covers ?v e q" if "wr (V n) = Some (q, b, R', U')" "e \<in> R'" "(e, q) \<in> owed_of (sh w)" for q b R' U' e
    using that V(3) rem by (auto simp: covers_def)
  show "ahead ?v q b m g" if "wr (V n) = Some (q, b, R', U')" "m \<in> set ns" "U' m g" for q b R' U' m g
    using that V(3) unh by (auto simp: ahead_def)
  show "help_ok (set ns) (sh w) (V(n := ?v)) n" by (simp add: help_ok_def h)
  show "owner_ok ?v" by (rule pay_owner_ok[OF ok])
  show "envelope (sh w) n ?v = envelope (sh w) n (V n)" by (rule envelope_cong) (simp_all add: h V)
qed simp

lemma pay_safe_silent:
  assumes R: "running cnt ns V H n w" and v: "V n = pay_view p a ns K pp (gen (V n))"
    and at: "pay_atom T p a pp w = (Inr pp', w)"
    and l: "pay_load a pp = None" "pay_hview pp = None" "pay_hview pp' = None" "pay_load a pp' = None"
    and ok: "ppc_ok ns n pp'" and cl: "pay_claims p pp' = pay_claims p pp"
    and rem: "\<And>d. d \<in> pay_rem ns pp \<Longrightarrow> slot_get (sh w) d = Some p \<Longrightarrow> d \<in> pay_rem ns pp'"
    and unh: "\<And>m g. m \<in> set ns \<Longrightarrow> pay_unhelped ns pp m g \<Longrightarrow> pay_unhelped ns pp' m g"
  shows "pay_safe T cnt ns V H n p a K w pp"
proof -
  have "running cnt ns (V(n := pay_view p a ns K pp' (gen (V n)))) H n w"
    by (rule pay_review[OF R v l ok cl rem unh])
  moreover have "kept w w" "generation (loc w) = gen (V n)" using R by (simp_all add: kept_def running_def)
  ultimately show ?thesis using at ok unfolding pay_safe_def by auto
qed

section \<open>The accesses of the walk\<close>

text \<open>Reserving and releasing a node touches a counter nobody of this proof looks at.\<close>

definition on_writers :: "usize \<Rightarrow> (usize \<Rightarrow> usize) \<Rightarrow> 'v shared \<Rightarrow> 'v shared" where
  "on_writers n f s = s\<lparr>nodes := (nodes s)(n := map_option (\<lambda>nd. nd\<lparr>active_writers := f (active_writers nd)\<rparr>) (nodes s n))\<rparr>"

lemma on_writers_frame [simp]:
  "heap (on_writers n f s) = heap s" "storage (on_writers n f s) = storage s" "envelopes (on_writers n f s) = envelopes s"
  "dom (nodes (on_writers n f s)) = dom (nodes s)" "slot_get (on_writers n f s) d = slot_get s d"
  by (cases d; auto simp: on_writers_def option.map_comp comp_def split: option.splits if_splits)+

lemma on_writers_node:
  "m \<in> dom (nodes s) \<Longrightarrow> node_at (on_writers n f s) m = node_at s m \<or>
     node_at (on_writers n f s) m = (node_at s m)\<lparr>active_writers := f (active_writers (node_at s m))\<rparr>"
  by (auto simp: on_writers_def node_at_def)

lemma on_writers_fields [simp]:
  "ctl (on_writers n f s) m = ctl s m" "addr (on_writers n f s) m = addr s m" "offer (on_writers n f s) m = offer s m"
proof -
  have "helping (node_at (on_writers n f s) m) = helping (node_at s m)"
    by (cases "nodes s m") (auto simp: on_writers_def node_at_def)
  then show "ctl (on_writers n f s) m = ctl s m" "addr (on_writers n f s) m = addr s m" "offer (on_writers n f s) m = offer s m"
    by (simp_all add: ctl_def addr_def offer_def)
qed

lemma steady_on_writers [simp]: "steady (on_writers n f s) ns \<longleftrightarrow> steady s ns"
proof -
  have "next_of (on_writers n f s) = next_of s" by (auto simp: on_writers_def next_of_def fun_eq_iff split: option.splits)
  moreover have "(\<forall>m nd. nodes (on_writers n f s) m = Some nd \<longrightarrow> node_ok nd) \<longleftrightarrow> (\<forall>m nd. nodes s m = Some nd \<longrightarrow> node_ok nd)"
    by (auto simp: on_writers_def node_ok_def split: if_splits)
  moreover have "list_head (on_writers n f s) = list_head s" "node_cnt (on_writers n f s) = node_cnt s" by (simp_all add: on_writers_def)
  ultimately have c: "chained (on_writers n f s) ns \<longleftrightarrow> chained s ns" by (simp add: chained_def)
  have "chained s ns \<Longrightarrow> m \<in> set ns \<Longrightarrow> in_use (node_at (on_writers n f s) m) = in_use (node_at s m)" for m
    using chained_node[of s ns m] by (auto simp: on_writers_def node_at_def)
  then show ?thesis using c by (auto simp: steady_def)
qed

lemma writers_solo:
  assumes "solo w" and "n \<in> dom (nodes (sh w))"
  shows "reserve_writer n w = (Inr (), w\<lparr>sh := on_writers n (\<lambda>x. x + 1) (sh w)\<rparr>)"
    "release_writer n w = (Inr (), w\<lparr>sh := on_writers n (\<lambda>x. x - 1) (sh w)\<rparr>)"
  using assms by (auto simp: reserve_writer_def release_writer_def node_rmw_def atomic_solo on_writers_def)

lemma on_writers_running:
  assumes R: "running cnt ns V H n w" and l: "ld (V n) = None"
  shows "running cnt ns V H n (w\<lparr>sh := on_writers m f (sh w)\<rparr>)"
proof -
  note g = running_idle[OF R]
  let ?s = "on_writers m f (sh w)"
  have "owner_ok (V n)" using g(2,6) by (simp add: shape_def)
  then have own: "owner_ok ((V n)\<lparr>oc := oc (V n)\<rparr>)" by simp
  have "apart n (sh w) ?s" by (simp add: apart_def)
  then have "advance (set ns) (sh w) V n ?s ((V n)\<lparr>oc := oc (V n)\<rparr>)"
    by (intro advance_hand[OF g(1,2) l _ _ _ _ _ own]) simp_all
  moreover have "view cnt ?s = view cnt (sh w)" by (simp add: view_def owed_of_def)
  ultimately have "core cnt (set ns) ?s (V(n := V n)) H"
    using core_quiet[OF g(1,2), of ?s "V n" H] l by (simp add: hand_mine inflight_def)
  then show ?thesis using R by (simp add: running_def)
qed

lemma slots_exist:
  assumes "steady s ns" and "cur \<in> set ns"
  shows "d \<in> set (all_slots cur) \<Longrightarrow> slot_get s d \<noteq> None"
    and "debt_node d = cur \<Longrightarrow> slot_get s d = Some p \<Longrightarrow> d \<in> set (all_slots cur)"
proof -
  obtain nd where nd: "nodes s cur = Some nd" "length (fast nd) = DEBT_SLOT_CNT"
    using assms chained_node[of s ns cur] by (auto simp: steady_def node_ok_def)
  show "d \<in> set (all_slots cur) \<Longrightarrow> slot_get s d \<noteq> None"
    using nd by (auto simp: all_slots_def fast_slots_def helping_slot_def)
  show "debt_node d = cur \<Longrightarrow> slot_get s d = Some p \<Longrightarrow> d \<in> set (all_slots cur)"
    using nd by (cases d) (auto simp: all_slots_def fast_slots_def helping_slot_def split: if_splits)
qed

lemma owed_in_chain: "steady s ns \<Longrightarrow> slot_get s d = Some p \<Longrightarrow> debt_node d \<in> set ns"
  by (cases d) (auto simp: steady_def chained_def split: option.splits)

text \<open>The next node, or the end of the list.\<close>

lemma pay_at_chain:
  assumes "links nx x ms" and "length ms = k"
  shows "pay_at k x w = (Inr (case ms of [] \<Rightarrow> PDrop | m # ms' \<Rightarrow> PRes (length ms') m), w)"
  using assms by (cases ms; cases k) auto

lemma pay_head_safe:
  assumes R: "running cnt ns V H n w" and v: "V n = pay_view p a ns K PHead (gen (V n))"
  shows "pay_safe T cnt ns V H n p a K w PHead"
proof -
  note f = running_idle[OF R]
  have ch: "links (next_of (sh w)) (list_head (sh w)) ns" "distinct ns" "length ns = node_cnt (sh w)"
    using f(4) by (simp_all add: steady_def chained_def)
  obtain m ms where ns: "ns = m # ms" using f(2) by (cases ns) auto
  have l: "from_here ns m = ns" "later ns m = ms" by (simp_all add: ns from_here_def later_def)
  have "pay_atom T p a PHead w = pay_at (node_cnt (sh w)) (list_head (sh w)) w" using f(3) by (simp add: bnd_apply atomic_solo)
  then have at: "pay_atom T p a PHead w = (Inr (PRes (length ms) m), w)" using pay_at_chain[OF ch(1,3)] ns by simp
  show ?thesis
    by (rule pay_safe_silent[OF R v at]) (use owed_in_chain[OF f(4)] l ns in \<open>auto simp: slots_in_def\<close>)
qed

lemma pay_next_safe:
  assumes R: "running cnt ns V H n w" and v: "V n = pay_view p a ns K (PNext k cur) (gen (V n))" and ok: "ppc_ok ns n (PNext k cur)"
  shows "pay_safe T cnt ns V H n p a K w (PNext k cur)"
proof -
  note f = running_idle[OF R]
  have cur: "cur \<in> set ns" "length (later ns cur) = k" using ok by simp_all
  have ch: "links (next_of (sh w)) (list_head (sh w)) ns" "distinct ns" using f(4) by (simp_all add: steady_def chained_def)
  obtain nd where nd: "nodes (sh w) cur = Some nd" using f(4) cur(1) chained_node[of "sh w" ns cur] by (auto simp: steady_def)
  let ?pp = "case later ns cur of [] \<Rightarrow> PDrop | m # ms' \<Rightarrow> PRes (length ms') m"
  have "pay_atom T p a (PNext k cur) w = pay_at k (next_of (sh w) cur) w"
    using nd f(3) by (simp add: bnd_apply node_read_solo next_of_def)
  also have "\<dots> = (Inr ?pp, w)" by (rule pay_at_chain[OF later_links[OF ch(1) cur(1)] cur(2)])
  finally have at: "pay_atom T p a (PNext k cur) w = (Inr ?pp, w)" .
  show ?thesis
  proof (cases "later ns cur")
    case Nil
    then show ?thesis by (intro pay_safe_silent[OF R v at]) (simp_all add: slots_in_def)
  next
    case (Cons m ms)
    then show ?thesis
      using later_next[OF ch(2) cur(1) Cons] by (intro pay_safe_silent[OF R v at]) (simp_all add: slots_in_def)
  qed
qed

lemma pay_res_safe:
  assumes R: "running cnt ns V H n w" and v: "V n = pay_view p a ns K (PRes k cur) (gen (V n))" and ok: "ppc_ok ns n (PRes k cur)"
  shows "pay_safe T cnt ns V H n p a K w (PRes k cur)"
proof -
  note f = running_idle[OF R]
  have cur: "cur \<in> set ns" "length (later ns cur) = k" using ok by simp_all
  have lV: "ld (V n) = None" using arg_cong[OF v, of ld] by simp
  let ?w = "w\<lparr>sh := on_writers cur (\<lambda>x. x + 1) (sh w)\<rparr>" and ?pp = "PHelp k cur HNode"
  have "cur \<in> dom (nodes (sh w))" using f(4) cur(1) by (auto simp: steady_def chained_def)
  then have at: "pay_atom T p a (PRes k cur) w = (Inr ?pp, ?w)" using writers_solo(1)[OF f(3)] by (simp add: bnd_apply)
  have "running cnt ns (V(n := pay_view p a ns K ?pp (gen (V n)))) H n ?w"
    by (rule pay_review[OF on_writers_running[OF R lV] v]) (use cur from_here_Cons[OF cur(1)] in auto)
  moreover have "kept w ?w" "generation (loc w) = gen (V n)" using R by (simp_all add: kept_def running_def solo_def)
  ultimately show ?thesis using at cur unfolding pay_safe_def by auto
qed

lemma pay_rel_safe:
  assumes R: "running cnt ns V H n w" and v: "V n = pay_view p a ns K (PRel k cur) (gen (V n))" and ok: "ppc_ok ns n (PRel k cur)"
  shows "pay_safe T cnt ns V H n p a K w (PRel k cur)"
proof -
  note f = running_idle[OF R]
  have cur: "cur \<in> set ns" "length (later ns cur) = k" using ok by simp_all
  have lV: "ld (V n) = None" using arg_cong[OF v, of ld] by simp
  let ?w = "w\<lparr>sh := on_writers cur (\<lambda>x. x - 1) (sh w)\<rparr>" and ?pp = "PNext k cur"
  have "cur \<in> dom (nodes (sh w))" using f(4) cur(1) by (auto simp: steady_def chained_def)
  then have at: "pay_atom T p a (PRel k cur) w = (Inr ?pp, ?w)" using writers_solo(2)[OF f(3)] by (simp add: bnd_apply)
  have "running cnt ns (V(n := pay_view p a ns K ?pp (gen (V n)))) H n ?w"
    by (rule pay_review[OF on_writers_running[OF R lV] v]) (use cur in auto)
  moreover have "kept w ?w" "generation (loc w) = gen (V n)" using R by (simp_all add: kept_def running_def solo_def)
  ultimately show ?thesis using at cur unfolding pay_safe_def by auto
qed

text \<open>The writer pays somebody's debt with one of its own references.\<close>

lemma hand_pay_off:
  assumes R: "running cnt ns V H n w" and l: "ld (V n) = None" and oc: "oc (V n) = add_mset (p, None) K"
    and own: "owner_ok ((V n)\<lparr>oc := K\<rparr>)" and d: "slot_get (sh w) d \<noteq> None"
  obtains b w' where "pay d p w = (Inr b, w')" "kept w w'" "loc w' = loc w" "slot_get (sh w') d \<noteq> Some p"
    "running cnt ns (V(n := (V n)\<lparr>oc := if b then K else oc (V n)\<rparr>)) H n w'"
proof -
  note f = running_idle[OF R]
  have claim: "(p, None) \<in># mine (sh w) n (V n) H" using oc l by (simp add: hand_mine)
  have p: "p \<noteq> NONE" by (rule claim_not_NONE[OF f(1,2) claim])
  obtain v where v: "slot_get (sh w) d = Some v" using d by blast
  show ?thesis
  proof (cases "v = p")
    case True
    let ?s = "slot_set d NONE (sh w)"
    have "slot_get ?s e = slot_get (sh w) e \<or> slot_get (sh w) e \<noteq> None \<and> slot_get ?s e = Some NONE" for e
      using v by (cases "e = d") simp_all
    then have "advance (set ns) (sh w) V n ?s ((V n)\<lparr>oc := K\<rparr>)"
      by (intro advance_hand[OF f(1,2) l apart_slot_set] own) simp_all
    then have "core cnt (set ns) ?s (V(n := (V n)\<lparr>oc := K\<rparr>)) H"
      by (rule core_pay[OF f(1,2) _ _ p, where x = None]) (use v True l oc in \<open>simp_all add: hand_mine\<close>)
    then have "running cnt ns (V(n := (V n)\<lparr>oc := K\<rparr>)) H n (w\<lparr>sh := ?s\<rparr>)"
      by (rule runningI[OF R]) (use f in simp_all)
    moreover have "slot_get ?s d \<noteq> Some p" using v p by simp
    ultimately show ?thesis
      by (intro that[of True "w\<lparr>sh := ?s\<rparr>"]) (use f(3) v True in \<open>simp_all add: pay_solo kept_def\<close>)
  next
    case False
    have "V(n := (V n)\<lparr>oc := oc (V n)\<rparr>) = V" by simp
    then show ?thesis using R f(3) v False by (intro that[of False w]) (simp_all add: pay_solo kept_def)
  qed
qed

lemma slot_at_view: "pay_view p a ns K (slot_at k cur ds) g =
    \<lparr>ld = None, wr = Some (p, a, set ds \<union> slots_in (later ns cur), \<lambda>m g. m \<in> set (later ns cur)), hp = None,
     oc = {#(p, None), (p, None)#} + K, gen = g\<rparr>"
  by (cases ds) (simp_all add: pay_view_def fun_eq_iff)

lemma slot_at_ok: "cur \<in> set ns \<Longrightarrow> length (later ns cur) = k \<Longrightarrow> set ds \<subseteq> set (all_slots cur) \<Longrightarrow> ppc_ok ns n (slot_at k cur ds)"
  by (cases ds) simp_all

lemma slot_at_plain: "pay_hview (slot_at k cur ds) = None" "pay_load a (slot_at k cur ds) = None"
    "pay_rem ns (slot_at k cur ds) = set ds \<union> slots_in (later ns cur)"
    "pay_unhelped ns (slot_at k cur ds) m g = (m \<in> set (later ns cur))" "pay_claims p (slot_at k cur ds) = {#(p, None), (p, None)#}"
  by (cases ds; simp)+

lemma pay_slot_safe:
  assumes R: "running cnt ns V H n w" and v: "V n = pay_view p a ns K (PSlot k cur d ds) (gen (V n))" and ok: "ppc_ok ns n (PSlot k cur d ds)"
  shows "pay_safe T cnt ns V H n p a K w (PSlot k cur d ds)"
proof -
  note f = running_idle[OF R]
  have cur: "cur \<in> set ns" "length (later ns cur) = k" "d \<in> set (all_slots cur)" "set ds \<subseteq> set (all_slots cur)" using ok by simp_all
  let ?K = "add_mset (p, None) K"
  have V: "ld (V n) = None" "oc (V n) = add_mset (p, None) ?K"
      "wr (V n) = Some (p, a, insert d (set ds) \<union> slots_in (later ns cur), \<lambda>m g. m \<in> set (later ns cur))"
    using arg_cong[OF v, of ld] arg_cong[OF v, of oc] arg_cong[OF v, of wr] by (simp_all add: fun_eq_iff)
  have own: "owner_ok ((V n)\<lparr>oc := ?K\<rparr>)" using V(3) by (auto simp: owner_ok_def slots_in_def)
  obtain b w' where w': "pay d p w = (Inr b, w')" "kept w w'" "loc w' = loc w" "slot_get (sh w') d \<noteq> Some p"
      "running cnt ns (V(n := (V n)\<lparr>oc := if b then ?K else oc (V n)\<rparr>)) H n w'"
    by (rule hand_pay_off[OF R V(1,2) own slots_exist(1)[OF f(4) cur(1,3)]])
  let ?pp = "if b then PSlotInc k cur ds else slot_at k cur ds"
  let ?V = "V(n := (V n)\<lparr>oc := if b then ?K else oc (V n)\<rparr>)"
  have at: "pay_atom T p a (PSlot k cur d ds) w = (Inr ?pp, w')" using w'(1) by (simp add: bnd_apply)
  have g: "generation (loc w') = gen (V n)" using R w'(3) by (simp add: running_def)
  have pok: "ppc_ok ns n ?pp" using slot_at_ok cur by simp
  have "running cnt ns (?V(n := pay_view p a ns K ?pp (gen (V n)))) H n w'"
  proof (rule review[OF w'(5)])
    let ?v = "pay_view p a ns K ?pp (gen (V n))"
    show "covers ?v e q" if "wr (?V n) = Some (q, c, R', U')" "e \<in> R'" "(e, q) \<in> owed_of (sh w')" for q c R' U' e
      using that V(3) w'(4) by (cases b) (auto simp: covers_def slot_at_plain)
    show "owner_ok ?v" by (rule pay_owner_ok[OF pok])
    show "help_ok (set ns) (sh w') (?V(n := ?v)) n" by (simp add: help_ok_def slot_at_plain)
    have "hp (V n) = None" using arg_cong[OF v, of hp] by simp
    then show "envelope (sh w') n ?v = envelope (sh w') n (?V n)" by (intro envelope_cong) (simp_all add: V(1) slot_at_plain)
  qed (use V in \<open>auto simp: slot_at_plain ahead_def\<close>)
  then show ?thesis using at w'(2) g pok unfolding pay_safe_def by simp
qed

context shared_cnt
begin

lemma pay_inc_safe:
  assumes R: "running cnt ns V H n w" and v: "V n = pay_view p a ns K PInc (gen (V n))"
  shows "pay_safe T cnt ns V H n p a K w PInc"
proof -
  have V: "ld (V n) = None" "oc (V n) = add_mset (p, None) K" using arg_cong[OF v, of ld] arg_cong[OF v, of oc] by simp_all
  obtain w' where w': "inc_value T (from_ptr T p) w = (Inr p, w')" "kept w w'" "loc w' = loc w"
      "running cnt ns (V(n := (V n)\<lparr>oc := add_mset (p, None) (oc (V n))\<rparr>)) H n w'"
    using hand_inc[OF R V(1), of p None] V(2) by auto
  have "(V n)\<lparr>oc := add_mset (p, None) (oc (V n))\<rparr> = pay_view p a ns K PHead (gen (V n))"
    unfolding V(2) using arg_cong[OF v, of "oc_update (\<lambda>_. add_mset (p, None) (add_mset (p, None) K))"]
    by (simp add: pay_view_def fun_eq_iff)
  moreover have "generation (loc w') = gen (V n)" using R w'(3) by (simp add: running_def)
  ultimately show ?thesis using w' unfolding pay_safe_def by (simp add: bnd_apply)
qed

lemma pay_slot_inc_safe:
  assumes R: "running cnt ns V H n w" and v: "V n = pay_view p a ns K (PSlotInc k cur ds) (gen (V n))" and ok: "ppc_ok ns n (PSlotInc k cur ds)"
  shows "pay_safe T cnt ns V H n p a K w (PSlotInc k cur ds)"
proof -
  have V: "ld (V n) = None" "oc (V n) = add_mset (p, None) K" using arg_cong[OF v, of ld] arg_cong[OF v, of oc] by simp_all
  obtain w' where w': "inc_value T (from_ptr T p) w = (Inr p, w')" "kept w w'" "loc w' = loc w"
      "running cnt ns (V(n := (V n)\<lparr>oc := add_mset (p, None) (oc (V n))\<rparr>)) H n w'"
    using hand_inc[OF R V(1), of p None] V(2) by auto
  have "(V n)\<lparr>oc := add_mset (p, None) (oc (V n))\<rparr> = pay_view p a ns K (slot_at k cur ds) (gen (V n))"
    unfolding V(2) slot_at_view using arg_cong[OF v, of "oc_update (\<lambda>_. add_mset (p, None) (add_mset (p, None) K))"]
    by (simp add: pay_view_def fun_eq_iff)
  moreover have "generation (loc w') = gen (V n)" using R w'(3) by (simp add: running_def)
  moreover have "ppc_ok ns n (slot_at k cur ds)" using ok by (intro slot_at_ok) simp_all
  ultimately show ?thesis using w' unfolding pay_safe_def by (simp add: bnd_apply)
qed

lemma pay_drop_safe:
  assumes R: "running cnt ns V H n w" and v: "V n = pay_view p a ns K PDrop (gen (V n))"
  shows "pay_safe T cnt ns V H n p a K w PDrop"
proof -
  let ?K = "add_mset (p, None) K"
  have V: "ld (V n) = None" "oc (V n) = add_mset (p, None) ?K" "wr (V n) = Some (p, a, {}, \<lambda>m g. False)"
    using arg_cong[OF v, of ld] arg_cong[OF v, of oc] arg_cong[OF v, of wr] by (simp_all add: fun_eq_iff)
  have "owner_ok ((V n)\<lparr>oc := ?K\<rparr>)" using V(3) by (auto simp: owner_ok_def)
  then obtain w' where w': "drop_val T (from_ptr T p) w = (Inr (), w')" "kept w w'" "loc w' = loc w"
      "running cnt ns (V(n := (V n)\<lparr>oc := ?K\<rparr>)) H n w'"
    using hand_dec[OF R V(1,2)] by blast
  have "(V n)\<lparr>oc := ?K\<rparr> = pay_view p a ns K PDone (gen (V n))"
    using arg_cong[OF v, of "oc_update (\<lambda>_. ?K)"] by (simp add: pay_view_def fun_eq_iff)
  moreover have "generation (loc w') = gen (V n)" using R w'(3) by (simp add: running_def)
  ultimately show ?thesis using w' unfolding pay_safe_def by (simp add: bnd_apply)
qed

lemma pay_help_safe:
  assumes R: "running cnt ns V H n w" and v: "V n = pay_view p a ns K (PHelp k cur h) (gen (V n))" and ok: "ppc_ok ns n (PHelp k cur h)"
    and st: "storage (sh w) a \<noteq> None" and g: "help_announces h \<Longrightarrow> gen (V n) + 4 \<noteq> 0"
  shows "pay_safe T cnt ns V H n p a K w (PHelp k cur h)"
proof -
  have cur: "cur \<in> set ns" "length (later ns cur) = k" "hpc_ok n h" using ok by simp_all
  let ?R = "slots_in (from_here ns cur)" and ?U = "\<lambda>m (c :: usize). m \<in> set (later ns cur)" and ?K = "{#(p, None), (p, None)#} + K"
  have hlp: "helper p a ?R ?U ?K cur ns w"
    using cur(1) st from_here_Cons[OF cur(1)] by (simp add: helper_def slots_in_def)
  have v': "V n = help_view p a ?R ?U ?K cur h (gen (V n))" using v unfolding pay_view_help .
  from help_atom_safe[OF R v' hlp cur(3) g]
  consider "fst (help_atom T cur a h w) = Inl OutOfFuel" | h' w' where "help_atom T cur a h w = (Inr h', w')" "kept w w'" "hpc_ok n h'"
      "running cnt ns (V(n := pay_view p a ns K (PHelp k cur h') (generation (loc w')))) H n w'"
    unfolding help_safe_def pay_view_help by blast
  then show ?thesis
  proof cases
    case 1
    then have "fst (pay_atom T p a (PHelp k cur h) w) = Inl OutOfFuel"
      by (cases "help_atom T cur a h w") (simp add: bnd_apply)
    then show ?thesis by (simp add: pay_safe_def)
  next
    case (2 h' w')
    let ?V = "V(n := pay_view p a ns K (PHelp k cur h') (generation (loc w')))"
    have at: "pay_atom T p a (PHelp k cur h) w = (Inr (pay_help k cur h'), w')" using 2(1) by (simp add: bnd_apply)
    have "ppc_ok ns n (pay_help k cur h') \<and> running cnt ns (V(n := pay_view p a ns K (pay_help k cur h') (generation (loc w')))) H n w'"
    proof (cases "h' = HDone")
      case False
      then show ?thesis using 2(3,4) cur by (simp add: pay_help_def)
    next
      case True
      let ?pp = "slot_at k cur (all_slots cur)"
      have pok: "ppc_ok ns n ?pp" using cur by (intro slot_at_ok) simp_all
      have "running cnt ns (?V(n := pay_view p a ns K ?pp (gen (?V n)))) H n w'"
        by (rule pay_review[OF 2(4)])
          (use True pok slots_exist(2)[OF running_idle(4)[OF 2(4)] cur(1)] from_here_Cons[OF cur(1)]
            in \<open>auto simp: slot_at_plain slots_in_def split: if_splits\<close>)
      then show ?thesis using True pok by (simp add: pay_help_def)
    qed
    then show ?thesis using at 2(2) unfolding pay_safe_def by simp
  qed
qed

theorem pay_atom_safe:
  assumes R: "running cnt ns V H n w" and v: "V n = pay_view p a ns K pp (gen (V n))" and ok: "ppc_ok ns n pp"
    and st: "storage (sh w) a \<noteq> None" and g: "pay_announces pp \<Longrightarrow> gen (V n) + 4 \<noteq> 0"
  shows "pay_safe T cnt ns V H n p a K w pp"
proof (cases pp)
  case PDone
  have "V(n := pay_view p a ns K PDone (generation (loc w))) = V" using v R PDone by (simp add: running_def fun_upd_idem)
  then show ?thesis using R PDone unfolding pay_safe_def by (auto simp: kept_def running_def)
qed (use assms in \<open>simp_all add: pay_inc_safe pay_head_safe pay_res_safe pay_help_safe pay_slot_safe pay_slot_inc_safe
      pay_rel_safe pay_next_safe pay_drop_safe\<close>)

end

end
