(* ===== verification/PoolSafety.thy ===== *)
theory PoolSafety
  imports WriterSafety
begin

unbundle bit_operations_syntax

text \<open>
  Every access of every operation, from any state the interleaved threads can be in, keeps the
  invariant and does not fault.
\<close>

section \<open>Exchanging the pointer of a storage\<close>

text \<open>The moment a writer takes \<open>p\<close> out, all debts on \<open>p\<close> and all readers of the storage are its duty.\<close>

definition plain :: "handles \<Rightarrow> usize \<Rightarrow> tv" where
  "plain K g = \<lparr>ld = None, wr = None, hp = None, oc = K, gen = g\<rparr>"

lemma plain_fields [simp]:
  "ld (plain K g) = None" "wr (plain K g) = None" "hp (plain K g) = None" "oc (plain K g) = K" "gen (plain K g) = g"
  by (simp_all add: plain_def)

definition taken :: "usize \<Rightarrow> usize \<Rightarrow> handles \<Rightarrow> usize \<Rightarrow> tv" where
  "taken p a K g = \<lparr>ld = None, wr = Some (p, a, UNIV, \<lambda>m c. True), hp = None, oc = add_mset (p, None) K, gen = g\<rparr>"

lemma taken_fields [simp]:
  "ld (taken p a K g) = None" "wr (taken p a K g) = Some (p, a, UNIV, \<lambda>m c. True)" "hp (taken p a K g) = None"
  "oc (taken p a K g) = add_mset (p, None) K" "gen (taken p a K g) = g"
  by (simp_all add: taken_def)

lemma storage_fields [simp]:
  "ctl (s\<lparr>storage := f\<rparr>) m = ctl s m" "addr (s\<lparr>storage := f\<rparr>) m = addr s m" "offer (s\<lparr>storage := f\<rparr>) m = offer s m"
  by (simp_all add: ctl_def addr_def offer_def node_at_def)

lemma exchange_shape:
  assumes S: "shape N s V" and n: "n \<in> N" and v: "V n = plain (add_mset (q, None) K) g" and a: "storage s a = Some p"
  shows "shape N (s\<lparr>storage := (storage s)(a \<mapsto> q)\<rparr>) (V(n := taken p a K g))"
proof -
  let ?s = "s\<lparr>storage := (storage s)(a \<mapsto> q)\<rparr>" and ?v = "taken p a K g"
  let ?V = "V(n := ?v)"
  have V: "ld (V n) = None" "wr (V n) = None" "hp (V n) = None" "gen (V n) = g" using v by simp_all
  have "covered N ?s ?V d r" if "(d, r) \<in> owed_of ?s" for d r
  proof -
    have "covered N s V d r" using S that by (simp add: shape_def)
    then consider b where "storage s b = Some r" "r \<noteq> p" | "r = p" | m where "m \<in> N" "m \<noteq> n" "covers (V m) d r"
      using V by (fastforce simp: covered_def covers_def)
    then show ?thesis
    proof cases
      case (1 b)
      then have "storage ?s b = Some r" using a by auto
      then show ?thesis unfolding covered_def by blast
    next
      case 2
      then show ?thesis unfolding covered_def using n by (intro disjI2 bexI[of _ n]) (simp_all add: covers_def)
    next
      case (3 m) then show ?thesis unfolding covered_def by (intro disjI2 bexI[of _ m]) simp_all
    qed
  qed
  moreover have "linked N ?s ?V m" if m: "m \<in> N" for m
    unfolding linked_def
  proof (intro allI impI)
    fix b c r assume w: "waiting ?s m (?V m) b c r"
    then have mn: "m \<noteq> n" and w': "waiting s m (V m) b c r" by (auto simp: waiting_def split: if_splits)
    have "linked N s V m" using S m by (simp add: shape_def)
    then consider "storage s b = Some r" | k where "k \<in> N" "ahead (V k) r b m c" using w' unfolding linked_def by blast
    then show "storage ?s b = Some r \<or> (\<exists>k\<in>N. ahead (?V k) r b m c)"
    proof cases
      case 1
      then have "b \<noteq> a \<or> r = p" using a by auto
      moreover have "ahead ?v p a m c" by (simp add: ahead_def)
      ultimately show ?thesis using 1 n by (cases "b = a") auto
    next
      case (2 k)
      then have "k \<noteq> n" using V by (auto simp: ahead_def)
      then show ?thesis using 2 by (intro disjI2 bexI[of _ k]) simp_all
    qed
  qed
  moreover have "load_ok ?s m (?V m)" if m: "m \<in> N" for m
  proof -
    have "load_ok s m (V m)" using S m by (simp add: shape_def)
    then have "load_ok ?s m (V m)" by (rule load_ok_frame) (use a in auto)
    then show ?thesis using V by (cases "m = n") (simp_all add: load_ok_def)
  qed
  moreover have "help_ok N ?s ?V m" if m: "m \<in> N" for m
  proof -
    have h: "help_ok N s V m" using S m by (simp add: shape_def)
    have "hview_ok ?s m who x = hview_ok s m who x" for who x by (cases x) simp_all
    moreover have "issued (?V who) c = issued (V who) c" for who c using V by (simp add: issued_def published_def)
    ultimately show ?thesis using h V by (auto simp: help_ok_def)
  qed
  moreover have "owner_ok (?V m)" if m: "m \<in> N" for m using S m by (auto simp: shape_def owner_ok_def)
  moreover have "envelope ?s m (?V m) = envelope s m (V m)" for m
    using envelope_frame[of ?s m s "V m"] V by (cases "m = n") (simp_all add: envelope_def)
  then have "envelopes_ok N ?s ?V" using S by (simp add: shape_def envelopes_ok_def)
  ultimately show ?thesis by (simp add: shape_def)
qed

lemma exchange_core:
  assumes C: "core cnt N s V H" and n: "n \<in> N" and v: "V n = plain (add_mset (q, None) K) g" and a: "storage s a = Some p"
  shows "core cnt N (s\<lparr>storage := (storage s)(a \<mapsto> q)\<rparr>) (V(n := taken p a K g)) H"
proof -
  let ?s = "s\<lparr>storage := (storage s)(a \<mapsto> q)\<rparr>" and ?V = "V(n := taken p a K g)"
  have o: "finite N" "N \<subseteq> dom (nodes s)" "shape N s V" "account (view cnt s) (claims N s V H)"
      "\<And>p d. (p, Some d) \<in># claims N s V H \<Longrightarrow> slot_get s d \<noteq> None"
    using C unfolding core_def accounted_def by blast+
  have r: "rest N ?s ?V n = rest N s V n" by (rule rest_frame[OF o(3) n]) simp_all
  have i: "inflight ?s n = inflight s n" by (simp add: inflight_def)
  have c: "claims N s V H = add_mset (q, None) (H + K + inflight s n + rest N s V n)"
    using claims_split[OF o(1) n, of s V H] v by (simp add: part_def load_claims_def)
  have c': "claims N ?s ?V H = add_mset (p, None) (H + K + inflight s n + rest N s V n)"
    using claims_split[OF o(1) n, of ?s ?V H] r i by (simp add: part_def load_claims_def)
  have "account (put a q (view cnt s)) (add_mset (p, None) (claims N s V H - {#(q, None)#}))"
    by (rule account_put[OF o(4)]) (simp_all add: a c)
  then have "account (view cnt ?s) (claims N ?s ?V H)" unfolding view_storage c c' by simp
  moreover have "slot_get ?s d \<noteq> None" if "(x, Some d) \<in># claims N ?s ?V H" for x d
    using that o(5)[of x d] c c' by auto
  ultimately show ?thesis using o(1,2) exchange_shape[OF o(3) n v a] by (simp add: core_def accounted_def)
qed

text \<open>A new storage concerns nobody yet.\<close>

lemma place_shape:
  assumes S: "shape N s V" and a: "storage s a = None"
  shows "shape N (s\<lparr>storage := (storage s)(a \<mapsto> q)\<rparr>) V"
proof -
  let ?s = "s\<lparr>storage := (storage s)(a \<mapsto> q)\<rparr>"
  have keep: "storage s b = Some r \<Longrightarrow> storage ?s b = Some r" for b r using a by auto
  have "covered N ?s V d r" if "(d, r) \<in> owed_of ?s" for d r
  proof -
    have "covered N s V d r" using S that by (simp add: shape_def)
    then show ?thesis unfolding covered_def using keep by blast
  qed
  moreover have "linked N ?s V m" if m: "m \<in> N" for m
  proof -
    have "linked N s V m" using S m by (simp add: shape_def)
    moreover have "waiting ?s m v b c r = waiting s m v b c r" for v b c r by (simp add: waiting_def)
    ultimately show ?thesis unfolding linked_def using keep by blast
  qed
  moreover have "load_ok ?s m (V m)" if m: "m \<in> N" for m
  proof -
    have l: "load_ok s m (V m)" using S m by (simp add: shape_def)
    have "ctl_ok ?s m g b l = ctl_ok s m g b l" "lpc_ok ?s m l = lpc_ok s m l" "slot_ok ?s m l = slot_ok s m l" for g b l
      by (cases l; simp add: in_transaction_def slot_ok_def)+
    then show ?thesis using l unfolding load_ok_def by (auto split: option.splits)
  qed
  moreover have "help_ok N ?s V m" if m: "m \<in> N" for m
  proof -
    have "help_ok N s V m" using S m by (simp add: shape_def)
    moreover have "hview_ok ?s m who x = hview_ok s m who x" for who x by (cases x) simp_all
    ultimately show ?thesis by (simp add: help_ok_def)
  qed
  moreover have "envelope ?s m (V m) = envelope s m (V m)" for m by (rule envelope_frame) simp_all
  then have "envelopes_ok N ?s V" using S by (simp add: shape_def envelopes_ok_def)
  ultimately show ?thesis using S by (simp add: shape_def)
qed

lemma place_core:
  assumes C: "core cnt N s V (add_mset (q, None) H)" and a: "storage s a = None"
  shows "core cnt N (s\<lparr>storage := (storage s)(a \<mapsto> q)\<rparr>) V H"
proof -
  let ?s = "s\<lparr>storage := (storage s)(a \<mapsto> q)\<rparr>"
  have o: "finite N" "N \<subseteq> dom (nodes s)" "shape N s V" "account (view cnt s) (add_mset (q, None) (claims N s V H))"
      "\<And>p d. (p, Some d) \<in># claims N s V H \<Longrightarrow> slot_get s d \<noteq> None"
    using C by (auto simp: core_def accounted_def claims_def)
  have "part ?s n v = part s n v" for n v
  proof -
    have "lclaims ?s l = lclaims s l" for l by (cases l) simp_all
    then show ?thesis by (simp add: part_def load_claims_def inflight_def split: option.splits)
  qed
  then have c: "claims N ?s V H = claims N s V H" by (simp add: claims_def)
  have "account (view cnt ?s) (claims N ?s V H)"
    using account_place[OF o(4), of a q] a unfolding view_storage c by simp
  then show ?thesis using o(1,2) o(5) place_shape[OF o(3) a, of q] c by (simp add: core_def accounted_def)
qed

section \<open>The operations of a thread\<close>

fun thread_view :: "usize list \<Rightarrow> pc \<Rightarrow> usize \<Rightarrow> tv" where
  "thread_view ns Idle g = plain {#} g"
| "thread_view ns (Loading a l) g = at_load (plain {#} g) a l g"
| "thread_view ns (Swapping a q) g = plain {#(q, None)#} g"
| "thread_view ns (Paying a p pp) g = pay_view p a ns {#} pp g"
| "thread_view ns (Releasing p d) g = plain {#(p, Some d)#} g"
| "thread_view ns (Freeing p) g = plain {#(p, None)#} g"
| "thread_view ns (Redeeming i) g = plain (iclaims i) g"
| "thread_view ns (CasLoad k a c q l) g = at_load (plain {#(q, None)#} g) a l g"
| "thread_view ns (CasMiss q p d) g = plain {#(q, None), (p, d)#} g"
| "thread_view ns (CasTry k a c q p d) g = plain {#(q, None), (p, d)#} g"
| "thread_view ns (CasPay a p d pp) g = pay_view p a ns {#(p, d)#} pp g"
| "thread_view ns (CasDec p d) g = plain {#(p, None), (p, d)#} g"
| "thread_view ns (CasRel k a c q p d) g = plain {#(q, None), (p, Some d)#} g"
| "thread_view ns (CasFree k a c q p) g = plain {#(q, None), (p, None)#} g"
| "thread_view ns (Done H) g = plain H g"

fun pc_ok :: "usize list \<Rightarrow> usize set \<Rightarrow> usize \<Rightarrow> pc \<Rightarrow> bool" where
  "pc_ok ns A n (Swapping a q) \<longleftrightarrow> a \<in> A"
| "pc_ok ns A n (Paying a p pp) \<longleftrightarrow> a \<in> A \<and> ppc_ok ns n pp"
| "pc_ok ns A n (CasLoad k a c q l) \<longleftrightarrow> a \<in> A"
| "pc_ok ns A n (CasTry k a c q p d) \<longleftrightarrow> a \<in> A \<and> p = c"
| "pc_ok ns A n (CasPay a p d pp) \<longleftrightarrow> a \<in> A \<and> ppc_ok ns n pp"
| "pc_ok ns A n (CasRel k a c q p d) \<longleftrightarrow> a \<in> A"
| "pc_ok ns A n (CasFree k a c q p) \<longleftrightarrow> a \<in> A"
| "pc_ok ns A n pc \<longleftrightarrow> True"

lemma thread_view_gen [simp]: "gen (thread_view ns pc g) = g"
  by (cases pc) simp_all

definition thread_safe :: "('t, 'v) RefCnt \<Rightarrow> ('v heap \<Rightarrow> usize \<Rightarrow> nat) \<Rightarrow> usize list \<Rightarrow> (usize \<Rightarrow> tv) \<Rightarrow> handles \<Rightarrow> usize \<Rightarrow> 'v world \<Rightarrow> pc \<Rightarrow> bool" where
  "thread_safe T cnt ns V H n w pc \<longleftrightarrow> fst (thread_atom T pc w) = Inl OutOfFuel \<or>
     (\<exists>pc' w'. thread_atom T pc w = (Inr pc', w') \<and> kept w w' \<and> pc_ok ns (dom (storage (sh w'))) n pc' \<and>
       running cnt ns (V(n := thread_view ns pc' (generation (loc w')))) H n w')"

lemma running_gen: "running cnt ns V H n w \<Longrightarrow> generation (loc w) = gen (V n)"
  by (simp add: running_def)

text \<open>Positions that do not touch the memory.\<close>

lemma plain_owner_ok [simp]: "owner_ok (plain K g)"
  by (simp add: owner_ok_def)

lemma plain_hand [simp]: "(plain K g)\<lparr>oc := K'\<rparr> = plain K' g"
  by (simp add: plain_def)

lemma plain_start_load:
  assumes R: "running cnt ns V H n w" and v: "V n = plain K g" and a: "storage (sh w) a \<noteq> None" and b: "H' + K' = H + K"
  shows "running cnt ns (V(n := at_load (plain K' g) a LdPtr g)) H' n w"
proof (rule review[OF R])
  have V: "ld (V n) = None" "hp (V n) = None" using v by simp_all
  let ?v = "at_load (plain K' g) a LdPtr g"
  show "help_ok (set ns) (sh w) (V(n := ?v)) n" by (simp add: help_ok_def)
  have "ctl (sh w) n = IDLE" using running_idle(7)[OF R] V(1) by (simp add: load_ok_def)
  then show "envelope (sh w) n ?v = envelope (sh w) n (V n)" by (simp add: envelope_def V)
qed (use a v b in \<open>auto simp: owner_ok_def\<close>)

lemma plain_move:
  assumes R: "running cnt ns V H n w" and v: "V n = plain K g" and b: "H' + K' = H + K"
  shows "running cnt ns (V(n := plain K' g)) H' n w"
proof (rule review[OF R])
  have V: "ld (V n) = None" "hp (V n) = None" "oc (V n) = K" using v by simp_all
  show "envelope (sh w) n (plain K' g) = envelope (sh w) n (V n)" by (rule envelope_cong) (simp_all add: V)
  show "help_ok (set ns) (sh w) (V(n := plain K' g)) n" by (simp add: help_ok_def)
qed (use v b in auto)

text \<open>A writer that has come to the end of the list.\<close>

lemma pay_finished:
  assumes R: "running cnt ns V H n w" and v: "V n = pay_view p a ns K PDone g"
  shows "running cnt ns (V(n := plain (add_mset (p, None) K) g)) H n w"
proof (rule review[OF R])
  have V: "ld (V n) = None" "hp (V n) = None" using v by simp_all
  show "envelope (sh w) n (plain (add_mset (p, None) K) g) = envelope (sh w) n (V n)" by (rule envelope_cong) (simp_all add: V)
  show "help_ok (set ns) (sh w) (V(n := plain (add_mset (p, None) K) g)) n" by (simp add: help_ok_def)
qed (use v in auto)

lemma pay_started: "taken p a K g = pay_view p a ns K PInc g"
  by (simp add: taken_def pay_view_def fun_eq_iff)

section \<open>Every access of every operation\<close>

lemma swapping_safe:
  assumes R: "running cnt ns V H n w" and v: "V n = plain {#(q, None)#} (gen (V n))" and a: "a \<in> dom (storage (sh w))"
  shows "thread_safe T cnt ns V H n w (Swapping a q)"
proof -
  note f = running_idle[OF R]
  obtain p where p: "storage (sh w) a = Some p" using a by blast
  let ?s = "(sh w)\<lparr>storage := (storage (sh w))(a \<mapsto> q)\<rparr>"
  have "core cnt (set ns) ?s (V(n := taken p a {#} (gen (V n)))) H" by (rule exchange_core[OF f(1,2) v p])
  then have "running cnt ns (V(n := taken p a {#} (gen (V n)))) H n (w\<lparr>sh := ?s\<rparr>)"
    by (rule runningI[OF R]) (use f(4) in simp_all)
  moreover have "thread_atom T (Swapping a q) w = (Inr (Paying a p PInc), w\<lparr>sh := ?s\<rparr>)"
    using f(3) p by (simp add: bnd_apply storage_swap_solo)
  moreover have "kept w (w\<lparr>sh := ?s\<rparr>)" using f(3) a by (simp add: kept_def insert_absorb)
  ultimately show ?thesis using running_gen[OF R] unfolding thread_safe_def pay_started[of p a "{#}" "gen (V n)" ns] by auto
qed

text \<open>The compare-and-swap: a weak exchange that may fail for no reason.\<close>

lemma storage_cas_weak_cases:
  assumes "solo w" and "storage (sh w) a = Some v"
  obtains ws where "storage_cas_weak a old new w = (Inr False, w\<lparr>weak_cas := ws\<rparr>)"
  | ws where "v = old" "storage_cas_weak a old new w = (Inr True,
      w\<lparr>weak_cas := ws, sh := (sh w)\<lparr>storage := (storage (sh w))(a \<mapsto> new)\<rparr>\<rparr>)"
proof (cases "v \<noteq> old \<or> (\<exists>bs. weak_cas w = True # bs)")
  case True
  then show ?thesis using storage_cas_weak_fail[OF assms] that(1) by blast
next
  case False
  then have "storage (sh w) a = Some old" "\<nexists>bs. weak_cas w = True # bs" using assms(2) by auto
  then show ?thesis using storage_cas_weak_ok[OF assms(1)] that(2) False by blast
qed

lemma running_weak: "running cnt ns V H n (w\<lparr>weak_cas := ws\<rparr>) \<longleftrightarrow> running cnt ns V H n w"
  by (simp add: running_def)

lemma cas_try_safe:
  assumes R: "running cnt ns V H n w" and v: "V n = plain {#(q, None), (p, d)#} (gen (V n))" and a: "a \<in> dom (storage (sh w))" and c: "p = c"
  shows "thread_safe T cnt ns V H n w (CasTry k a c q p d)"
proof -
  note f = running_idle[OF R]
  obtain r where r: "storage (sh w) a = Some r" using a by blast
  show ?thesis
  proof (rule storage_cas_weak_cases[OF f(3) r, where old = c and new = q])
    fix ws assume fails: "storage_cas_weak a c q w = (Inr False, w\<lparr>weak_cas := ws\<rparr>)"
    let ?w = "w\<lparr>weak_cas := ws\<rparr>" and ?pc = "case d of None \<Rightarrow> CasFree k a c q p | Some d \<Rightarrow> CasRel k a c q p d"
    have "thread_view ns ?pc (gen (V n)) = V n" using v by (cases d) simp_all
    then have "running cnt ns (V(n := thread_view ns ?pc (generation (loc ?w)))) H n ?w"
      using R running_gen[OF R] by (simp add: running_weak)
    moreover have "thread_atom T (CasTry k a c q p d) w = (Inr ?pc, ?w)" using fails by (simp add: bnd_apply)
    moreover have "pc_ok ns (dom (storage (sh ?w))) n ?pc" using a by (cases d) simp_all
    moreover have "kept w ?w" using f(3) by (simp add: kept_def)
    ultimately show ?thesis unfolding thread_safe_def by blast
  next
    fix ws assume succeeds: "r = c" "storage_cas_weak a c q w = (Inr True,
        w\<lparr>weak_cas := ws, sh := (sh w)\<lparr>storage := (storage (sh w))(a \<mapsto> q)\<rparr>\<rparr>)"
    let ?s = "(sh w)\<lparr>storage := (storage (sh w))(a \<mapsto> q)\<rparr>"
    let ?w = "w\<lparr>weak_cas := ws, sh := ?s\<rparr>" and ?pc = "CasPay a p d PInc"
    have "core cnt (set ns) ?s (V(n := taken p a {#(p, d)#} (gen (V n)))) H"
      by (rule exchange_core[OF f(1,2)]) (use v r succeeds(1) c in auto)
    then have "running cnt ns (V(n := taken p a {#(p, d)#} (gen (V n)))) H n (w\<lparr>sh := ?s\<rparr>)"
      by (rule runningI[OF R]) (use f(4) in simp_all)
    then have "running cnt ns (V(n := thread_view ns ?pc (generation (loc ?w)))) H n ?w"
      using running_gen[OF R] by (simp add: running_def pay_started[of p a "{#(p, d)#}" "gen (V n)" ns])
    moreover have "thread_atom T (CasTry k a c q p d) w = (Inr ?pc, ?w)" using succeeds by (simp add: bnd_apply)
    moreover have "kept w ?w" using f(3) a by (simp add: kept_def insert_absorb)
    moreover have "pc_ok ns (dom (storage (sh ?w))) n ?pc" by simp
    ultimately show ?thesis unfolding thread_safe_def by blast
  qed
qed

text \<open>Going round again.\<close>

lemma cas_retry_safe:
  assumes R: "running cnt ns V H n w" and v: "V n = plain {#(q, None)#} (gen (V n))" and a: "storage (sh w) a \<noteq> None"
  shows "fst (cas_retry k a c q w) = Inl OutOfFuel \<or> (\<exists>pc'. cas_retry k a c q w = (Inr pc', w) \<and>
     pc_ok ns (dom (storage (sh w))) n pc' \<and> running cnt ns (V(n := thread_view ns pc' (gen (V n)))) H n w)"
proof (cases k)
  case (Suc j)
  have "running cnt ns (V(n := at_load (plain {#(q, None)#} (gen (V n))) a LdPtr (gen (V n)))) H n w"
    by (rule plain_start_load[OF R v a]) simp
  then show ?thesis using Suc a by auto
qed simp

context shared_cnt
begin

lemma loading_safe:
  assumes R: "running cnt ns V H n w" and v: "V n = at_load (plain K (gen (V n))) a l (gen (V n))" and g: "announces l \<Longrightarrow> gen (V n) + 4 \<noteq> 0"
  obtains l' w' where "load_atom T a l w = (Inr l', w')" "kept w w'" "storage (sh w') a \<noteq> None"
    "\<And>p d. l' = LdDone p d \<Longrightarrow> running cnt ns (V(n := plain (add_mset (p, d) K) (generation (loc w')))) H n w'"
    "running cnt ns (V(n := at_load (plain K (generation (loc w'))) a l' (generation (loc w')))) H n w'"
proof -
  have l: "ld (V n) = Some (a, l)" using arg_cong[OF v, of ld] by simp
  obtain l' w' where w': "load_atom T a l w = (Inr l', w')" "kept w w'"
      "running cnt ns (V(n := at_load (V n) a l' (generation (loc w')))) H n w'"
    using load_atom_safe[OF R l g] by (auto simp: load_safe_def)
  have eq: "at_load (V n) a l' (generation (loc w')) = at_load (plain K (generation (loc w'))) a l' (generation (loc w'))"
    using arg_cong[OF v, of "\<lambda>x. at_load x a l' (generation (loc w'))"] by (simp add: plain_def)
  have R': "running cnt ns (V(n := at_load (plain K (generation (loc w'))) a l' (generation (loc w')))) H n w'" using w'(3) unfolding eq .
  have "storage (sh w') a \<noteq> None" using running_facts(12)[OF R', of a l'] by simp
  moreover have "running cnt ns (V(n := plain (add_mset (p, d) K) (generation (loc w')))) H n w'" if "l' = LdDone p d" for p d
    using finish_load[OF R', of a p d] that by (simp add: plain_def)
  ultimately show ?thesis using that[OF w'(1,2) _ _ R'] by blast
qed

lemma load_pc_safe:
  assumes R: "running cnt ns V H n w" and v: "V n = thread_view ns (Loading a l) (gen (V n))" and g: "announces l \<Longrightarrow> gen (V n) + 4 \<noteq> 0"
  shows "thread_safe T cnt ns V H n w (Loading a l)"
proof -
  have v': "V n = at_load (plain {#} (gen (V n))) a l (gen (V n))" using v by simp
  obtain l' w' where w': "load_atom T a l w = (Inr l', w')" "kept w w'"
    "\<And>p d. l' = LdDone p d \<Longrightarrow> running cnt ns (V(n := plain {#(p, d)#} (generation (loc w')))) H n w'"
    "running cnt ns (V(n := at_load (plain {#} (generation (loc w'))) a l' (generation (loc w')))) H n w'"
    by (rule loading_safe[OF R v' g]) (assumption, blast)
  have "pc_ok ns (dom (storage (sh w'))) n (loading a l') \<and> running cnt ns (V(n := thread_view ns (loading a l') (generation (loc w')))) H n w'"
    using w'(3,4) by (cases l') simp_all
  then show ?thesis using w'(1,2) unfolding thread_safe_def by (simp add: bnd_apply)
qed

lemma cas_load_pc_safe:
  assumes R: "running cnt ns V H n w" and v: "V n = thread_view ns (CasLoad k a c q l) (gen (V n))" and g: "announces l \<Longrightarrow> gen (V n) + 4 \<noteq> 0"
  shows "thread_safe T cnt ns V H n w (CasLoad k a c q l)"
proof -
  have v': "V n = at_load (plain {#(q, None)#} (gen (V n))) a l (gen (V n))" using v by simp
  obtain l' w' where w': "load_atom T a l w = (Inr l', w')" "kept w w'" "storage (sh w') a \<noteq> None"
    "\<And>p d. l' = LdDone p d \<Longrightarrow> running cnt ns (V(n := plain (add_mset (p, d) {#(q, None)#}) (generation (loc w')))) H n w'"
    "running cnt ns (V(n := at_load (plain {#(q, None)#} (generation (loc w'))) a l' (generation (loc w')))) H n w'"
    by (rule loading_safe[OF R v' g]) (assumption, blast)
  have "pc_ok ns (dom (storage (sh w'))) n (cas_load k a c q l') \<and>
      running cnt ns (V(n := thread_view ns (cas_load k a c q l') (generation (loc w')))) H n w'"
    using w'(3-5) by (cases l') (auto simp: add_mset_commute)
  then show ?thesis using w'(1,2) unfolding thread_safe_def by (simp add: bnd_apply)
qed

text \<open>The walk of a writer, and what comes after it.\<close>

lemma paying_safe:
  assumes R: "running cnt ns V H n w" and v: "V n = pay_view p a ns K pp (gen (V n))" and ok: "ppc_ok ns n pp"
    and a: "a \<in> dom (storage (sh w))" and g: "pay_announces pp \<Longrightarrow> gen (V n) + 4 \<noteq> 0"
    and at: "thread_atom T pc = bnd (pay_atom T p a pp) (\<lambda>pp'. ret (f pp'))"
    and fin: "\<And>g. thread_view ns (f PDone) g = plain (add_mset (p, None) K) g" "\<And>A. pc_ok ns A n (f PDone)"
    and go: "\<And>pp' g. pp' \<noteq> PDone \<Longrightarrow> thread_view ns (f pp') g = pay_view p a ns K pp' g"
      "\<And>pp' A. pp' \<noteq> PDone \<Longrightarrow> a \<in> A \<Longrightarrow> ppc_ok ns n pp' \<Longrightarrow> pc_ok ns A n (f pp')"
  shows "thread_safe T cnt ns V H n w pc"
proof -
  have st: "storage (sh w) a \<noteq> None" using a by (simp add: domIff)
  from pay_atom_safe[OF R v ok st g]
  consider "fst (pay_atom T p a pp w) = Inl OutOfFuel" | pp' w' where "pay_atom T p a pp w = (Inr pp', w')" "kept w w'" "ppc_ok ns n pp'"
      "running cnt ns (V(n := pay_view p a ns K pp' (generation (loc w')))) H n w'"
    unfolding pay_safe_def by blast
  then show ?thesis
  proof cases
    case 1
    then have "fst (thread_atom T pc w) = Inl OutOfFuel" unfolding at by (cases "pay_atom T p a pp w") (simp add: bnd_apply)
    then show ?thesis by (simp add: thread_safe_def)
  next
    case (2 pp' w')
    have "a \<in> dom (storage (sh w'))" using 2(2) a by (simp add: kept_def)
    then have "pc_ok ns (dom (storage (sh w'))) n (f pp') \<and> running cnt ns (V(n := thread_view ns (f pp') (generation (loc w')))) H n w'"
      using pay_finished[OF 2(4), of p a K "generation (loc w')"] 2(3,4) fin go by (cases "pp' = PDone") simp_all
    then show ?thesis using 2(1,2) unfolding thread_safe_def at by (simp add: bnd_apply)
  qed
qed

lemma paying_done: "pp \<noteq> PDone \<Longrightarrow> paying a p pp = Paying a p pp" "pp \<noteq> PDone \<Longrightarrow> cas_pay a p d pp = CasPay a p d pp"
  by (cases pp; simp)+

lemma pay_pc_safe:
  assumes R: "running cnt ns V H n w" and v: "V n = thread_view ns (Paying a p pp) (gen (V n))"
    and ok: "pc_ok ns (dom (storage (sh w))) n (Paying a p pp)" and g: "pay_announces pp \<Longrightarrow> gen (V n) + 4 \<noteq> 0"
  shows "thread_safe T cnt ns V H n w (Paying a p pp)"
  by (rule paying_safe[OF R _ _ _ g, where f = "paying a p" and K = "{#}" and p = p and a = a and pp = pp])
    (use v ok in \<open>simp_all add: paying_done\<close>)

lemma cas_pay_pc_safe:
  assumes R: "running cnt ns V H n w" and v: "V n = thread_view ns (CasPay a p d pp) (gen (V n))"
    and ok: "pc_ok ns (dom (storage (sh w))) n (CasPay a p d pp)" and g: "pay_announces pp \<Longrightarrow> gen (V n) + 4 \<noteq> 0"
  shows "thread_safe T cnt ns V H n w (CasPay a p d pp)"
  by (rule paying_safe[OF R _ _ _ g, where f = "cas_pay a p d" and K = "{#(p, d)#}" and p = p and a = a and pp = pp])
    (use v ok in \<open>simp_all add: paying_done\<close>)

text \<open>Accesses that spend a reference or a debt of a thread without further duties.\<close>

lemma plain_dec:
  assumes R: "running cnt ns V H n w" and v: "V n = plain (add_mset (p, None) K) (gen (V n))"
  obtains w' where "dec_ptr T p w = (Inr (), w')" "drop_val T (from_ptr T p) w = (Inr (), w')" "kept w w'"
    "generation (loc w') = gen (V n)" "running cnt ns (V(n := plain K (gen (V n)))) H n w'"
proof -
  have V: "ld (V n) = None" "oc (V n) = add_mset (p, None) K" using arg_cong[OF v, of ld] arg_cong[OF v, of oc] by simp_all
  have e: "(V n)\<lparr>oc := K\<rparr> = plain K (gen (V n))" using arg_cong[OF v, of "oc_update (\<lambda>_. K)"] by simp
  have own: "owner_ok ((V n)\<lparr>oc := K\<rparr>)" unfolding e by simp
  obtain w' where "dec_ptr T p w = (Inr (), w')" "drop_val T (from_ptr T p) w = (Inr (), w')" "kept w w'" "loc w' = loc w"
      "running cnt ns (V(n := (V n)\<lparr>oc := K\<rparr>)) H n w'"
    using hand_dec[OF R V own] by blast
  then show ?thesis using that running_gen[OF R] e by simp
qed

lemma plain_pay:
  assumes R: "running cnt ns V H n w" and v: "V n = plain (add_mset (p, Some d) K) (gen (V n))"
  obtains b w' where "pay d p w = (Inr b, w')" "kept w w'" "loc w' = loc w" "storage (sh w') = storage (sh w)"
    "running cnt ns (V(n := plain (if b then K else add_mset (p, None) K) (gen (V n)))) H n w'"
proof -
  have V: "ld (V n) = None" "oc (V n) = add_mset (p, Some d) K" using arg_cong[OF v, of ld] arg_cong[OF v, of oc] by simp_all
  have e: "(V n)\<lparr>oc := K'\<rparr> = plain K' (gen (V n))" for K' using arg_cong[OF v, of "oc_update (\<lambda>_. K')"] by simp
  have own: "owner_ok ((V n)\<lparr>oc := K\<rparr>)" unfolding e by simp
  show ?thesis by (rule hand_pay[OF R V own]) (use that in \<open>simp only: e\<close>)
qed

lemma releasing_safe:
  assumes R: "running cnt ns V H n w" and v: "V n = thread_view ns (Releasing p d) (gen (V n))"
  shows "thread_safe T cnt ns V H n w (Releasing p d)"
proof -
  have v': "V n = plain (add_mset (p, Some d) {#}) (gen (V n))" using v by simp
  obtain b w' where "pay d p w = (Inr b, w')" "kept w w'" "loc w' = loc w"
      "running cnt ns (V(n := plain (if b then {#} else {#(p, None)#}) (gen (V n)))) H n w'"
    by (rule plain_pay[OF R v'])
  then show ?thesis using running_gen[OF R] unfolding thread_safe_def by (cases b) (simp_all add: bnd_apply)
qed

lemma spending_safe:
  assumes R: "running cnt ns V H n w" and v: "V n = plain (add_mset (p, None) K) (gen (V n))"
    and at: "thread_atom T pc = bnd (drop_val T (from_ptr T p)) (\<lambda>_. ret (Done K)) \<or> thread_atom T pc = bnd (dec_ptr T p) (\<lambda>_. ret (Done K))"
  shows "thread_safe T cnt ns V H n w pc"
proof -
  obtain w' where "dec_ptr T p w = (Inr (), w')" "drop_val T (from_ptr T p) w = (Inr (), w')" "kept w w'"
      "generation (loc w') = gen (V n)" "running cnt ns (V(n := plain K (gen (V n)))) H n w'"
    by (rule plain_dec[OF R v])
  then show ?thesis using at unfolding thread_safe_def by (auto simp: bnd_apply)
qed

lemma redeeming_safe:
  assumes R: "running cnt ns V H n w" and v: "V n = thread_view ns (Redeeming i) (gen (V n))"
  shows "thread_safe T cnt ns V H n w (Redeeming i)"
proof -
  have V: "ld (V n) = None" "oc (V n) = iclaims i + {#}" using arg_cong[OF v, of ld] arg_cong[OF v, of oc] by simp_all
  have e: "(V n)\<lparr>oc := K'\<rparr> = plain K' (gen (V n))" for K' using arg_cong[OF v, of "oc_update (\<lambda>_. K')"] by simp
  have own: "owner_ok ((V n)\<lparr>oc := {#}\<rparr>)" unfolding e by simp
  obtain i' w' where w': "into_atom T i w = (Inr i', w')" "kept w w'" "loc w' = loc w"
      "running cnt ns (V(n := (V n)\<lparr>oc := iclaims i' + {#}\<rparr>)) H n w'"
    by (rule into_atom_safe[OF R V own])
  have "pc_ok ns A n (redeeming i') \<and> thread_view ns (redeeming i') (gen (V n)) = plain (iclaims i') (gen (V n))" for A
    by (cases i') simp_all
  then show ?thesis using w' running_gen[OF R] unfolding thread_safe_def by (simp add: bnd_apply e)
qed

lemma cas_rel_safe:
  assumes R: "running cnt ns V H n w" and v: "V n = thread_view ns (CasRel k a c q p d) (gen (V n))" and a: "a \<in> dom (storage (sh w))"
  shows "thread_safe T cnt ns V H n w (CasRel k a c q p d)"
proof -
  have v': "V n = plain (add_mset (p, Some d) {#(q, None)#}) (gen (V n))" using v by (simp add: add_mset_commute)
  obtain b w' where w': "pay d p w = (Inr b, w')" "kept w w'" "loc w' = loc w" "storage (sh w') = storage (sh w)"
      "running cnt ns (V(n := plain (if b then {#(q, None)#} else {#(p, None), (q, None)#}) (gen (V n)))) H n w'"
    by (rule plain_pay[OF R v'])
  have g: "generation (loc w') = gen (V n)" using w'(3) running_gen[OF R] by simp
  have a': "a \<in> dom (storage (sh w'))" "storage (sh w') a \<noteq> None" using a w'(4) by auto
  show ?thesis
  proof (cases b)
    case False
    then show ?thesis using w' g a' unfolding thread_safe_def by (simp add: bnd_apply add_mset_commute)
  next
    case True
    let ?V = "V(n := plain {#(q, None)#} (gen (V n)))"
    have R': "running cnt ns ?V H n w'" using w'(5) True by simp
    have at: "thread_atom T (CasRel k a c q p d) w = cas_retry k a c q w'" using w'(1) True by (simp add: bnd_apply)
    from cas_retry_safe[OF R' _ a'(2), of q k c] show ?thesis
      using w'(2) g unfolding thread_safe_def at by auto
  qed
qed

lemma cas_free_safe:
  assumes R: "running cnt ns V H n w" and v: "V n = thread_view ns (CasFree k a c q p) (gen (V n))" and a: "a \<in> dom (storage (sh w))"
  shows "thread_safe T cnt ns V H n w (CasFree k a c q p)"
proof -
  have v': "V n = plain (add_mset (p, None) {#(q, None)#}) (gen (V n))" using v by (simp add: add_mset_commute)
  obtain w' where w': "drop_val T (from_ptr T p) w = (Inr (), w')" "kept w w'" "generation (loc w') = gen (V n)"
      "running cnt ns (V(n := plain {#(q, None)#} (gen (V n)))) H n w'"
    by (rule plain_dec[OF R v'])
  have a': "storage (sh w') a \<noteq> None" using a w'(2) by (auto simp: kept_def)
  have at: "thread_atom T (CasFree k a c q p) w = cas_retry k a c q w'" using w'(1) by (simp add: bnd_apply)
  from cas_retry_safe[OF w'(4) _ a', of q k c] show ?thesis
    using w'(2,3) unfolding thread_safe_def at by auto
qed

lemma resting_safe:
  assumes R: "running cnt ns V H n w" and v: "V n = thread_view ns pc (gen (V n))" and pc: "pc = Idle \<or> pc = Done K"
  shows "thread_safe T cnt ns V H n w pc"
proof -
  have "thread_atom T pc w = (Inr pc, w)" "kept w w" using pc R by (auto simp: kept_def running_def)
  moreover have "V(n := thread_view ns pc (generation (loc w))) = V" using v running_gen[OF R] by (simp add: fun_upd_idem)
  moreover have "pc_ok ns (dom (storage (sh w))) n pc" using pc by auto
  ultimately show ?thesis using R unfolding thread_safe_def by simp
qed

theorem thread_atom_safe:
  assumes R: "running cnt ns V H n w" and v: "V n = thread_view ns pc (gen (V n))"
    and ok: "pc_ok ns (dom (storage (sh w))) n pc" and g: "thread_announces pc \<Longrightarrow> gen (V n) + 4 \<noteq> 0"
  shows "thread_safe T cnt ns V H n w pc"
proof (cases pc)
  case (Loading a l)
  then show ?thesis using load_pc_safe R v g by simp
next
  case (CasLoad k a c q l)
  then show ?thesis using cas_load_pc_safe R v g by simp
next
  case (Swapping a q)
  then show ?thesis using swapping_safe[OF R, of q a] v ok by simp
next
  case (Paying a p pp)
  then show ?thesis using pay_pc_safe[OF R, of a p pp] v ok g by simp
next
  case (CasPay a p d pp)
  then show ?thesis using cas_pay_pc_safe[OF R, of a p d pp] v ok g by simp
next
  case (Releasing p d)
  then show ?thesis using releasing_safe R v by blast
next
  case (Freeing p)
  show ?thesis by (rule spending_safe[OF R, of p "{#}"]) (use v Freeing in simp_all)
next
  case (Redeeming i)
  then show ?thesis using redeeming_safe R v by blast
next
  case (CasMiss q p d)
  show ?thesis by (rule spending_safe[OF R, of q "{#(p, d)#}"]) (use v CasMiss in simp_all)
next
  case (CasTry k a c q p d)
  then show ?thesis using cas_try_safe[OF R, where k = k and a = a and c = c and q = q and p = p and d = d] v ok by simp
next
  case (CasDec p d)
  show ?thesis by (rule spending_safe[OF R, of p "{#(p, d)#}"]) (use v CasDec in simp_all)
next
  case (CasRel k a c q p d)
  then show ?thesis using cas_rel_safe[OF R] v ok by simp
next
  case (CasFree k a c q p)
  then show ?thesis using cas_free_safe[OF R] v ok by simp
qed (use resting_safe[OF R v] in blast)+

end

end
