(* ===== verification/Interleaving.thy ===== *)
theory Interleaving
  imports PoolSafety
begin

unbundle bit_operations_syntax

text \<open>
  The pool of threads as a transition system. Every thread holds one node of the list, all nodes are in
  the hands of some thread; a thread is named by the address of its node. A transition is one atomic access
  of one thread (\<open>run\<close>), the start of an operation on an idle thread, which takes the handles the operation
  consumes (\<open>call\<close>), its end, which gives the handles it returns to the clients (\<open>return\<close>), or a client
  cloning a handle, allocating a value, making a null pointer or putting a pointer into a new storage. Nothing
  restricts which thread moves next.

  Every state the pool can reach satisfies \<open>pool_ok\<close>, the invariant of \<open>Protocol\<close> for the positions of all
  threads. The consequences are at the end: no access faults, references are accounted for, and what a handle
  or a storage points to is alive.
\<close>

section \<open>The transition system\<close>

record 'v pool =
  pmem :: "'v shared"
  plocs :: "usize \<Rightarrow> LocalNode"
  pcs :: "usize \<Rightarrow> pc"
  phnd :: handles

definition in_pool :: "usize \<Rightarrow> nat \<Rightarrow> bool list \<Rightarrow> 'v pool \<Rightarrow> 'v world" where
  "in_pool n k ws P = \<lparr>sh = pmem P, loc = plocs P n, tls_alive = True, sched = [], weak_cas = ws, fuel = k\<rparr>"

lemma in_pool_fields [simp]:
  "sh (in_pool n k ws P) = pmem P" "loc (in_pool n k ws P) = plocs P n" "solo (in_pool n k ws P)"
  by (simp_all add: in_pool_def solo_def)

text \<open>What a thread can be asked to do: the handles it takes and where it starts.\<close>

datatype request =
    LoadAt usize
  | SwapAt usize usize
  | CasAt nat usize usize usize
  | Release handle
  | Redeem handle

fun consumed :: "request \<Rightarrow> handles" where
  "consumed (LoadAt a) = {#}"
| "consumed (SwapAt a q) = {#(q, None)#}"
| "consumed (CasAt k a c q) = {#(q, None)#}"
| "consumed (Release h) = {#h#}"
| "consumed (Redeem h) = {#h#}"

fun first_pc :: "request \<Rightarrow> pc" where
  "first_pc (LoadAt a) = Loading a LdPtr"
| "first_pc (SwapAt a q) = Swapping a q"
| "first_pc (CasAt k a c q) = CasLoad k a c q LdPtr"
| "first_pc (Release h) = (case snd h of None \<Rightarrow> Freeing (fst h) | Some d \<Rightarrow> Releasing (fst h) d)"
| "first_pc (Redeem h) = redeeming (into_start (fst h) (snd h))"

text \<open>The call behind a request, in the words of the modelled functions; it returns the handles the client gets.\<close>

fun program_of :: "('t, 'v) RefCnt \<Rightarrow> request \<Rightarrow> ('v, handles) prog" where
  "program_of T (LoadAt a) = bnd (hybrid_load T DefaultConfig a) (\<lambda>g. ret (the_handle T g))"
| "program_of T (SwapAt a q) =
     bnd (any_swap T (hybrid_Strategy T DefaultConfig) a (from_ptr T q)) (\<lambda>x. ret {#(into_ptr T x, None)#})"
| "program_of T (CasAt k a c q) =
     bnd (hybrid_cas_loop (Suc k) T DefaultConfig a (RawConst c) (from_ptr T q)) (\<lambda>g. ret (the_handle T g))"
| "program_of T (Release h) = bnd (hp_drop T (hp_new T (fst h) (snd h))) (\<lambda>_. ret {#})"
| "program_of T (Redeem h) = bnd (hp_into_inner T (hp_new T (fst h) (snd h))) (\<lambda>x. ret {#(into_ptr T x, None)#})"

context raw_form
begin

lemma program_start: "thread_rest T (first_pc r) = program_of T r"
proof (cases r)
  case (CasAt k a c q)
  have "program_of T (CasAt k a c q) = bnd (cas_retry (Suc k) a c q) (thread_rest T)"
    using cas_again_retry[of "Suc k" a c q] by (simp add: cas_again_def del: hybrid_cas_loop.simps cas_retry.simps)
  then show ?thesis using CasAt by (simp del: ret_exec)
next
  case (Release h)
  then show ?thesis by (cases "snd h") (simp_all del: ret_exec)
next
  case (Redeem h)
  have "bnd (into_rest T i) (\<lambda>x. ret {#(into_ptr T x, None)#}) = thread_rest T (redeeming i)" for i
    by (cases i) (simp_all add: into_raw del: ret_exec)
  then show ?thesis using Redeem by (simp add: into_rest_start del: ret_exec)
qed (simp_all add: the_load_def del: ret_exec)

end

fun target :: "request \<Rightarrow> usize option" where
  "target (LoadAt a) = Some a"
| "target (SwapAt a q) = Some a"
| "target (CasAt k a c q) = Some a"
| "target _ = None"

definition may_request :: "request \<Rightarrow> 'v pool \<Rightarrow> bool" where
  "may_request r P \<longleftrightarrow> consumed r \<subseteq># phnd P \<and> (case target r of None \<Rightarrow> True | Some a \<Rightarrow> storage (pmem P) a \<noteq> None)"

text \<open>The thread may take a step: it holds its node, and if its next access announces a load, that does not make
  its generation counter wrap.\<close>

definition may_run :: "usize \<Rightarrow> 'v pool \<Rightarrow> bool" where
  "may_run n P \<longleftrightarrow> nodes (pmem P) n \<noteq> None \<and> (thread_announces (pcs P n) \<longrightarrow> generation (plocs P n) + 4 \<noteq> 0)"

definition after_run :: "usize \<Rightarrow> pc \<Rightarrow> 'v world \<Rightarrow> 'v pool \<Rightarrow> 'v pool" where
  "after_run n pc w P = P\<lparr>pmem := sh w, plocs := (plocs P)(n := loc w), pcs := (pcs P)(n := pc)\<rparr>"

inductive pstep :: "('t, 'v) RefCnt \<Rightarrow> 'v pool \<Rightarrow> 'v pool \<Rightarrow> bool" for T where
  run: "may_run n P \<Longrightarrow> thread_atom T (pcs P n) (in_pool n k ws P) = (Inr pc, w) \<Longrightarrow> pstep T P (after_run n pc w P)"
| call: "nodes (pmem P) n \<noteq> None \<Longrightarrow> pcs P n = Idle \<Longrightarrow> may_request r P \<Longrightarrow>
    pstep T P (P\<lparr>pcs := (pcs P)(n := first_pc r), phnd := phnd P - consumed r\<rparr>)"
| return: "nodes (pmem P) n \<noteq> None \<Longrightarrow> pcs P n = Done K \<Longrightarrow>
    pstep T P (P\<lparr>pcs := (pcs P)(n := Idle), phnd := phnd P + K\<rparr>)"
| clone: "nodes (pmem P) n \<noteq> None \<Longrightarrow> pcs P n = Idle \<Longrightarrow> (p, x) \<in># phnd P \<Longrightarrow>
    clone_val T (from_ptr T p) (in_pool n k ws P) = (Inr y, w) \<Longrightarrow>
    pstep T P (P\<lparr>pmem := sh w, phnd := add_mset (p, None) (phnd P)\<rparr>)"
| alloc: "nodes (pmem P) n \<noteq> None \<Longrightarrow> pcs P n = Idle \<Longrightarrow> q \<noteq> 0 \<Longrightarrow> q \<noteq> NONE \<Longrightarrow> heap (pmem P) q = None \<Longrightarrow>
    pstep T P (P\<lparr>pmem := (pmem P)\<lparr>heap := (heap (pmem P))(q \<mapsto> \<lparr>strong = 1, weak = 0, payload = v\<rparr>)\<rparr>,
      phnd := add_mset (q, None) (phnd P)\<rparr>)"
| null: "nodes (pmem P) n \<noteq> None \<Longrightarrow> pcs P n = Idle \<Longrightarrow> pstep T P (P\<lparr>phnd := add_mset (0, None) (phnd P)\<rparr>)"
| place: "nodes (pmem P) n \<noteq> None \<Longrightarrow> pcs P n = Idle \<Longrightarrow> (q, None) \<in># phnd P \<Longrightarrow>
    any_new T a (from_ptr T q) (in_pool n k ws P) = (Inr b, w) \<Longrightarrow>
    pstep T P (P\<lparr>pmem := sh w, phnd := phnd P - {#(q, None)#}\<rparr>)"

text \<open>At the start the threads hold freshly made nodes and every storage is empty.\<close>

fun chain_nodes :: "(usize \<times> usize) list \<Rightarrow> (usize \<times> Node) list" where
  "chain_nodes [] = []"
| "chain_nodes ((n, e) # bs) = (n, fresh_node e (case bs of [] \<Rightarrow> 0 | b # _ \<Rightarrow> fst b)) # chain_nodes bs"

definition pool_boot :: "(usize \<times> usize) list \<Rightarrow> usize list \<Rightarrow> 'v pool" where
  "pool_boot bs as = \<lparr>pmem = \<lparr>heap = Map.empty, envelopes = map_of (map (\<lambda>b. (snd b, 0)) bs),
       storage = map_of (map (\<lambda>a. (a, 0)) as), nodes = map_of (chain_nodes bs),
       list_head = (case bs of [] \<Rightarrow> 0 | b # _ \<Rightarrow> fst b), node_cnt = length bs, box_supply = [], arc_supply = [],
       rw_readers = (\<lambda>_. 0), rw_writer = (\<lambda>_. False)\<rparr>,
     plocs = (\<lambda>n. local_default\<lparr>node := Some n\<rparr>), pcs = (\<lambda>_. Idle), phnd = {#}\<rparr>"

definition boxes_ok :: "(usize \<times> usize) list \<Rightarrow> bool" where
  "boxes_ok bs \<longleftrightarrow> distinct (map fst bs) \<and> distinct (map snd bs) \<and> 0 \<notin> fst ` set bs \<and> (\<forall>b\<in>set bs. aligned4 (snd b))"

inductive interleaved :: "('t, 'v) RefCnt \<Rightarrow> 'v pool \<Rightarrow> bool" for T where
  start: "boxes_ok bs \<Longrightarrow> interleaved T (pool_boot bs as)"
| step: "interleaved T P \<Longrightarrow> pstep T P Q \<Longrightarrow> interleaved T Q"

section \<open>Schedules\<close>

text \<open>The same transitions as functions, so that runs can be computed; a move that is not possible does nothing.\<close>

datatype 'v move =
    Run usize nat "bool list"
  | Call usize request
  | Return usize
  | Copy usize handle
  | New usize usize 'v
  | NewNull usize
  | NewStorage usize usize usize

definition rests :: "usize \<Rightarrow> 'v pool \<Rightarrow> bool" where
  "rests n P \<longleftrightarrow> nodes (pmem P) n \<noteq> None \<and> pcs P n = Idle"

fun make_move :: "('t, 'v) RefCnt \<Rightarrow> 'v move \<Rightarrow> 'v pool \<Rightarrow> 'v pool" where
  "make_move T (Run n k ws) P =
     (if may_run n P then
        case thread_atom T (pcs P n) (in_pool n k ws P) of
          (Inr pc, w) \<Rightarrow> after_run n pc w P
        | (Inl f, w) \<Rightarrow> P
      else P)"
| "make_move T (Call n r) P =
     (if rests n P \<and> may_request r P
      then P\<lparr>pcs := (pcs P)(n := first_pc r), phnd := phnd P - consumed r\<rparr> else P)"
| "make_move T (Return n) P =
     (if nodes (pmem P) n \<noteq> None then
        case pcs P n of Done K \<Rightarrow> P\<lparr>pcs := (pcs P)(n := Idle), phnd := phnd P + K\<rparr> | _ \<Rightarrow> P
      else P)"
| "make_move T (Copy n h) P =
     (if rests n P \<and> h \<in># phnd P then
        case clone_val T (from_ptr T (fst h)) (in_pool n 0 [] P) of
          (Inr y, w) \<Rightarrow> P\<lparr>pmem := sh w, phnd := add_mset (fst h, None) (phnd P)\<rparr>
        | (Inl f, w) \<Rightarrow> P
      else P)"
| "make_move T (New n q v) P =
     (if rests n P \<and> q \<noteq> 0 \<and> q \<noteq> NONE \<and> heap (pmem P) q = None
      then P\<lparr>pmem := (pmem P)\<lparr>heap := (heap (pmem P))(q \<mapsto> \<lparr>strong = 1, weak = 0, payload = v\<rparr>)\<rparr>,
        phnd := add_mset (q, None) (phnd P)\<rparr> else P)"
| "make_move T (NewNull n) P = (if rests n P then P\<lparr>phnd := add_mset (0, None) (phnd P)\<rparr> else P)"
| "make_move T (NewStorage n a q) P =
     (if rests n P \<and> (q, None) \<in># phnd P then
        case any_new T a (from_ptr T q) (in_pool n 0 [] P) of
          (Inr b, w) \<Rightarrow> P\<lparr>pmem := sh w, phnd := phnd P - {#(q, None)#}\<rparr>
        | (Inl f, w) \<Rightarrow> P
      else P)"

definition run_moves :: "('t, 'v) RefCnt \<Rightarrow> 'v move list \<Rightarrow> 'v pool \<Rightarrow> 'v pool" where
  "run_moves T ms P = fold (make_move T) ms P"

lemma move_step: "make_move T m P = P \<or> pstep T P (make_move T m P)"
proof (cases m)
  case (Run n k ws)
  then show ?thesis by (auto split: prod.splits sum.splits intro: pstep.run)
next
  case (Return n)
  then show ?thesis by (auto split: pc.splits intro: pstep.return)
next
  case (Copy n h)
  then show ?thesis by (cases h) (auto simp: rests_def split: prod.splits sum.splits intro: pstep.clone)
next
  case (NewStorage n a q)
  then show ?thesis by (auto simp: rests_def split: prod.splits sum.splits intro: pstep.place)
qed (auto simp: rests_def simp del: One_nat_def intro: pstep.call pstep.alloc pstep.null)

lemma clone_frame:
  "clone_val T x (in_pool n k ws P) = (Inr y, w) \<Longrightarrow>
     \<exists>w'. clone_val T x (in_pool n 0 [] P) = (Inr y, w') \<and> sh w' = sh w"
  by (auto simp: clone_val_def atomic_solo split: sum.splits)

lemma any_new_solo:
  "solo w \<Longrightarrow> any_new T a x w = (case storage (sh w) a of Some _ \<Rightarrow> (Inl OutOfMemory, w)
     | None \<Rightarrow> (Inr a, w\<lparr>sh := (sh w)\<lparr>storage := (storage (sh w))(a \<mapsto> into_ptr T x)\<rparr>\<rparr>))"
  by (auto simp: any_new_def any_from_def with_strategy_def place_storage_def Let_def atomic_solo split: option.splits)

lemma place_frame:
  "any_new T a x (in_pool n k ws P) = (Inr b, w) \<Longrightarrow>
     \<exists>w'. any_new T a x (in_pool n 0 [] P) = (Inr b, w') \<and> sh w' = sh w"
  by (auto simp: any_new_solo split: option.splits)

lemma step_move: "pstep T P Q \<Longrightarrow> \<exists>m. Q = make_move T m P"
proof (induction rule: pstep.induct)
  case (run n P k ws pc w)
  then show ?case by (intro exI[of _ "Run n k ws"]) simp
next
  case (call P n r)
  then show ?case by (intro exI[of _ "Call n r"]) (simp add: rests_def)
next
  case (return P n K)
  then show ?case by (intro exI[of _ "Return n"]) simp
next
  case (clone P n p x k ws y w)
  then show ?case using clone_frame[OF clone(4)] by (intro exI[of _ "Copy n (p, x)"]) (auto simp: rests_def)
next
  case (alloc P n q v)
  then show ?case by (intro exI[of _ "New n q v"]) (simp add: rests_def)
next
  case (null P n)
  then show ?case by (intro exI[of _ "NewNull n"]) (simp add: rests_def)
next
  case (place P n q a k ws b w)
  then show ?case using place_frame[OF place(4)] by (intro exI[of _ "NewStorage n a q"]) (auto simp: rests_def)
qed

lemma interleaved_run: "interleaved T P \<Longrightarrow> interleaved T (run_moves T ms P)"
  unfolding run_moves_def
proof (induction ms arbitrary: P)
  case (Cons m ms)
  have "interleaved T (make_move T m P)" using move_step[of T m P] Cons.prems by (metis interleaved.step)
  then show ?case using Cons.IH by simp
qed simp

lemma interleaved_runs:
  "interleaved T P \<longleftrightarrow> (\<exists>bs as ms. boxes_ok bs \<and> P = run_moves T ms (pool_boot bs as))"
proof
  show "interleaved T P \<Longrightarrow> \<exists>bs as ms. boxes_ok bs \<and> P = run_moves T ms (pool_boot bs as)"
  proof (induction rule: interleaved.induct)
    case (start bs as)
    then show ?case by (intro exI[of _ bs] exI[of _ as] exI[of _ "[]"]) (simp add: run_moves_def)
  next
    case (step P Q)
    then obtain bs as ms m where "boxes_ok bs" "Q = run_moves T (ms @ [m]) (pool_boot bs as)"
      using step_move[OF step.hyps(2)] by (auto simp: run_moves_def)
    then show ?case by blast
  qed
qed (auto intro: interleaved_run interleaved.start)

section \<open>The invariant\<close>

definition pool_view :: "usize list \<Rightarrow> 'v pool \<Rightarrow> usize \<Rightarrow> tv" where
  "pool_view ns P n = thread_view ns (pcs P n) (generation (plocs P n))"

definition pool_ok :: "('v heap \<Rightarrow> usize \<Rightarrow> nat) \<Rightarrow> usize list \<Rightarrow> 'v pool \<Rightarrow> bool" where
  "pool_ok cnt ns P \<longleftrightarrow> core cnt (set ns) (pmem P) (pool_view ns P) (phnd P) \<and> steady (pmem P) ns \<and>
     (\<forall>n\<in>set ns. node (plocs P n) = Some n \<and> pc_ok ns (dom (storage (pmem P))) n (pcs P n))"

lemma pool_running:
  assumes "pool_ok cnt ns P" and "n \<in> set ns"
  shows "running cnt ns (pool_view ns P) (phnd P) n (in_pool n k ws P)"
  using assms by (simp add: pool_ok_def running_def pool_view_def)

lemma pool_nodes: "pool_ok cnt ns P \<Longrightarrow> nodes (pmem P) n \<noteq> None \<longleftrightarrow> n \<in> set ns"
  by (auto simp: pool_ok_def steady_def chained_def)

lemma pool_pc: "pool_ok cnt ns P \<Longrightarrow> n \<in> set ns \<Longrightarrow> pc_ok ns (dom (storage (pmem P))) n (pcs P n)"
  by (simp add: pool_ok_def)

text \<open>A step of one thread, given by its new position, generation and the new memory.\<close>

lemma pool_okI:
  assumes P: "pool_ok cnt ns P" and n: "n \<in> set ns"
    and R: "running cnt ns ((pool_view ns P)(n := thread_view ns pc (generation (loc w)))) K n w"
    and ok: "pc_ok ns (dom (storage (sh w))) n pc" and st: "dom (storage (sh w)) = dom (storage (pmem P))"
  shows "pool_ok cnt ns ((after_run n pc w P)\<lparr>phnd := K\<rparr>)"
proof -
  let ?Q = "(after_run n pc w P)\<lparr>phnd := K\<rparr>"
  have "pool_view ns ?Q = (pool_view ns P)(n := thread_view ns pc (generation (loc w)))"
    by (simp add: fun_eq_iff pool_view_def after_run_def)
  then show ?thesis using P R ok st n by (simp add: pool_ok_def running_def after_run_def)
qed

lemma pool_run:
  assumes "pool_ok cnt ns P" and "n \<in> set ns"
    and "thread_safe T cnt ns (pool_view ns P) (phnd P) n (in_pool n k ws P) (pcs P n)"
    and "thread_atom T (pcs P n) (in_pool n k ws P) = (Inr pc, w)"
  shows "pool_ok cnt ns (after_run n pc w P)"
proof -
  have r: "kept (in_pool n k ws P) w" "pc_ok ns (dom (storage (sh w))) n pc"
      "running cnt ns ((pool_view ns P)(n := thread_view ns pc (generation (loc w)))) (phnd P) n w"
    using assms(3,4) by (auto simp: thread_safe_def)
  have "pool_ok cnt ns ((after_run n pc w P)\<lparr>phnd := phnd P\<rparr>)"
    by (rule pool_okI[OF assms(1,2) r(3,2)]) (use r(1) in \<open>simp add: kept_def\<close>)
  then show ?thesis by (simp add: after_run_def)
qed

text \<open>A step that leaves the memory alone.\<close>

lemma pool_move:
  assumes P: "pool_ok cnt ns P" and n: "n \<in> set ns"
    and R: "running cnt ns ((pool_view ns P)(n := thread_view ns pc (generation (plocs P n)))) K n (in_pool n 0 [] P)"
    and ok: "pc_ok ns (dom (storage (pmem P))) n pc"
  shows "pool_ok cnt ns (P\<lparr>pcs := (pcs P)(n := pc), phnd := K\<rparr>)"
proof -
  have "pool_ok cnt ns ((after_run n pc (in_pool n 0 [] P) P)\<lparr>phnd := K\<rparr>)"
    by (rule pool_okI[OF P n]) (use R ok in simp_all)
  then show ?thesis by (simp add: after_run_def)
qed

lemma pool_call:
  assumes P: "pool_ok cnt ns P" and n: "n \<in> set ns" and i: "pcs P n = Idle" and r: "may_request r P"
  shows "pool_ok cnt ns (P\<lparr>pcs := (pcs P)(n := first_pc r), phnd := phnd P - consumed r\<rparr>)"
proof -
  let ?V = "pool_view ns P" and ?g = "generation (plocs P n)" and ?w = "in_pool n 0 [] P"
  have R: "running cnt ns ?V (phnd P) n ?w" by (rule pool_running[OF P n])
  have v: "?V n = plain {#} ?g" using i by (simp add: pool_view_def)
  have b: "phnd P - consumed r + consumed r = phnd P + {#}" using r by (simp add: may_request_def)
  have move: "running cnt ns (?V(n := plain (consumed r) ?g)) (phnd P - consumed r) n ?w"
    by (rule plain_move[OF R v b])
  have load: "running cnt ns (?V(n := at_load (plain (consumed r) ?g) a LdPtr ?g)) (phnd P - consumed r) n ?w" if "target r = Some a" for a
    by (rule plain_start_load[OF R v _ b]) (use r that in \<open>simp add: may_request_def\<close>)
  show ?thesis
  proof (rule pool_move[OF P n])
    show "running cnt ns (?V(n := thread_view ns (first_pc r) ?g)) (phnd P - consumed r) n ?w"
    proof (cases r)
      case (Release h)
      then show ?thesis using move by (cases h; cases "snd h") simp_all
    next
      case (Redeem h)
      then show ?thesis using move by (cases h; cases "snd h") (simp_all add: into_start_def)
    qed (use move load in simp_all)
    show "pc_ok ns (dom (storage (pmem P))) n (first_pc r)"
      using r by (cases r) (auto simp: may_request_def into_start_def split: option.splits)
  qed
qed

lemma pool_return:
  assumes P: "pool_ok cnt ns P" and n: "n \<in> set ns" and d: "pcs P n = Done K"
  shows "pool_ok cnt ns (P\<lparr>pcs := (pcs P)(n := Idle), phnd := phnd P + K\<rparr>)"
proof (rule pool_move[OF P n])
  have v: "pool_view ns P n = plain K (generation (plocs P n))" using d by (simp add: pool_view_def)
  show "running cnt ns ((pool_view ns P)(n := thread_view ns Idle (generation (plocs P n)))) (phnd P + K) n (in_pool n 0 [] P)"
    using plain_move[OF pool_running[OF P n] v, of "phnd P + K" "{#}"] by simp
qed simp

text \<open>The clients: they work on their own handles, between the operations of a thread.\<close>

lemma pool_client:
  assumes "pool_ok cnt ns P" and "core cnt (set ns) s' (pool_view ns P) K" and "steady s' ns"
    and "dom (storage (pmem P)) \<subseteq> dom (storage s')"
  shows "pool_ok cnt ns (P\<lparr>pmem := s', phnd := K\<rparr>)"
proof -
  have "pool_view ns (P\<lparr>pmem := s', phnd := K\<rparr>) = pool_view ns P" by (simp add: fun_eq_iff pool_view_def)
  moreover have "pc_ok ns (dom (storage (pmem P))) n pc \<Longrightarrow> pc_ok ns (dom (storage s')) n pc" for n pc
    using assms(4) by (cases pc) auto
  ultimately show ?thesis using assms(1-3) by (simp add: pool_ok_def)
qed

definition resting :: "('v heap \<Rightarrow> usize \<Rightarrow> nat) \<Rightarrow> usize list \<Rightarrow> 'v pool \<Rightarrow> usize \<Rightarrow> bool" where
  "resting cnt ns P n \<longleftrightarrow> pool_ok cnt ns P \<and> n \<in> set ns \<and> pcs P n = Idle"

lemma resting_facts:
  assumes "resting cnt ns P n"
  shows "core cnt (set ns) (pmem P) (pool_view ns P) (phnd P)" "n \<in> set ns" "steady (pmem P) ns"
    "ld (pool_view ns P n) = None" "(pool_view ns P)(n := pool_view ns P n) = pool_view ns P"
    "mine (pmem P) n (pool_view ns P n) K = K + inflight (pmem P) n"
    "mine ((pmem P)\<lparr>heap := h\<rparr>) n (pool_view ns P n) K = K + inflight (pmem P) n"
  using assms fun_upd_triv[of "pool_view ns P" n]
  by (simp_all add: resting_def pool_ok_def pool_view_def[of ns P n] mine_def part_def load_claims_def del: fun_upd_triv)

lemma resting_advance:
  assumes "resting cnt ns P n"
  shows "advance (set ns) (pmem P) (pool_view ns P) n ((pmem P)\<lparr>heap := h\<rparr>) (pool_view ns P n)"
    "advance (set ns) (pmem P) (pool_view ns P) n (pmem P) (pool_view ns P n)"
proof -
  note f = resting_facts[OF assms]
  have same: "(pool_view ns P n)\<lparr>oc := oc (pool_view ns P n)\<rparr> = pool_view ns P n" by simp
  have own: "owner_ok ((pool_view ns P n)\<lparr>oc := oc (pool_view ns P n)\<rparr>)"
    unfolding same using f(1,2) by (simp add: core_def shape_def)
  show "advance (set ns) (pmem P) (pool_view ns P) n ((pmem P)\<lparr>heap := h\<rparr>) (pool_view ns P n)"
    using advance_hand[OF f(1,2,4) apart_heap(1) _ _ _ _ own, unfolded same, of h] by simp
  show "advance (set ns) (pmem P) (pool_view ns P) n (pmem P) (pool_view ns P n)"
    using advance_hand[OF f(1,2,4) apart_heap(2) _ _ _ _ own, unfolded same] by simp
qed

lemma pool_null:
  assumes "resting cnt ns P n"
  shows "pool_ok cnt ns (P\<lparr>phnd := add_mset (0, None) (phnd P)\<rparr>)"
proof -
  note f = resting_facts[OF assms]
  have "core cnt (set ns) (pmem P) ((pool_view ns P)(n := pool_view ns P n)) (add_mset (0, None) (phnd P))"
    by (rule core_advance[OF f(1,2) resting_advance(2)[OF assms]]) (auto simp: f(6) intro: account_null)
  then show ?thesis
    using pool_client[of cnt ns P "pmem P"] assms f(3) by (simp add: f(5) resting_def)
qed

context shared_cnt
begin

lemma pool_clone:
  assumes "resting cnt ns P n" and "(p, x) \<in># phnd P"
  shows "clone_val T (from_ptr T p) (in_pool n k ws P) =
      (Inr (from_ptr T p), (in_pool n k ws P)\<lparr>sh := (pmem P)\<lparr>heap := up p (heap (pmem P))\<rparr>\<rparr>)"
    and "pool_ok cnt ns (P\<lparr>pmem := (pmem P)\<lparr>heap := up p (heap (pmem P))\<rparr>, phnd := add_mset (p, None) (phnd P)\<rparr>)"
proof -
  note f = resting_facts[OF assms(1)]
  have c: "(p, x) \<in># mine (pmem P) n (pool_view ns P n) (phnd P)" using assms(2) f(6) by simp
  have p: "live (heap (pmem P)) p" "p \<noteq> NONE"
    using claim_live[OF f(1,2) c] claim_not_NONE[OF f(1,2) c] f(4) by simp_all
  then show "clone_val T (from_ptr T p) (in_pool n k ws P) =
      (Inr (from_ptr T p), (in_pool n k ws P)\<lparr>sh := (pmem P)\<lparr>heap := up p (heap (pmem P))\<rparr>\<rparr>)"
    using clone_live[OF valid_from_any, of "heap (pmem P)" p] by (simp add: clone_val_def atomic_solo)
  have "core cnt (set ns) ((pmem P)\<lparr>heap := up p (heap (pmem P))\<rparr>) ((pool_view ns P)(n := pool_view ns P n))
      (add_mset (p, None) (phnd P))"
    by (rule core_inc[OF f(1,2) resting_advance(1)[OF assms(1)] p]) (simp add: f(6,7))
  then show "pool_ok cnt ns (P\<lparr>pmem := (pmem P)\<lparr>heap := up p (heap (pmem P))\<rparr>, phnd := add_mset (p, None) (phnd P)\<rparr>)"
    using assms(1) f(3) by (intro pool_client) (simp_all add: f(5) resting_def)
qed

lemma pool_place:
  assumes "resting cnt ns P n" and q: "(q, None) \<in># phnd P"
    and new: "any_new T a (from_ptr T q) (in_pool n k ws P) = (Inr b, w)"
  shows "pool_ok cnt ns (P\<lparr>pmem := sh w, phnd := phnd P - {#(q, None)#}\<rparr>)"
proof -
  have P: "pool_ok cnt ns P" using assms(1) by (simp add: resting_def)
  have a: "storage (pmem P) a = None" and w: "sh w = (pmem P)\<lparr>storage := (storage (pmem P))(a \<mapsto> q)\<rparr>"
    using new by (auto simp: any_new_solo into_raw split: option.splits)
  have "core cnt (set ns) (pmem P) (pool_view ns P) (add_mset (q, None) (phnd P - {#(q, None)#}))"
    using P q by (simp add: pool_ok_def)
  then have "core cnt (set ns) (sh w) (pool_view ns P) (phnd P - {#(q, None)#})"
    unfolding w by (rule place_core[OF _ a])
  moreover have "steady (sh w) ns" using P unfolding w by (simp add: pool_ok_def)
  ultimately show ?thesis using P by (intro pool_client) (auto simp: w)
qed

lemma pool_alloc:
  assumes "resting cnt ns P n" and "q \<noteq> 0" "q \<noteq> NONE" "heap (pmem P) q = None"
  shows "pool_ok cnt ns (P\<lparr>pmem := (pmem P)\<lparr>heap := (heap (pmem P))(q \<mapsto> \<lparr>strong = 1, weak = 0, payload = v\<rparr>)\<rparr>,
      phnd := add_mset (q, None) (phnd P)\<rparr>)"
proof -
  note f = resting_facts[OF assms(1)]
  let ?h = "(heap (pmem P))(q \<mapsto> \<lparr>strong = 1, weak = 0, payload = v\<rparr>)" and ?B = "view cnt (pmem P)"
  have "cnt ?h = (cnt (heap (pmem P)))(q := 1)" using cnt_alloc[of q "heap (pmem P)" v] assms(2,4) by auto
  then have B: "view cnt ((pmem P)\<lparr>heap := ?h\<rparr>) = ?B\<lparr>counts := (counts ?B)(q := 1), vals := vals_of cnt ?h\<rparr>"
    by (simp add: view_def del: fun_upd_apply)
  have z: "counts ?B q = 0" using cnt_free[of "heap (pmem P)" q] assms(4) by simp
  have "core cnt (set ns) ((pmem P)\<lparr>heap := ?h\<rparr>) ((pool_view ns P)(n := pool_view ns P n)) (add_mset (q, None) (phnd P))"
  proof (rule core_advance[OF f(1,2) resting_advance(1)[OF assms(1)]])
    fix R assume "account ?B (mine (pmem P) n (pool_view ns P n) (phnd P) + R)"
    then show "account (view cnt ((pmem P)\<lparr>heap := ?h\<rparr>)) (mine ((pmem P)\<lparr>heap := ?h\<rparr>) n (pool_view ns P n) (add_mset (q, None) (phnd P)) + R)"
      using account_alloc[OF _ assms(2,3) z] unfolding B f(6,7) by simp
  qed (auto simp: f(6,7))
  then show ?thesis using assms(1) f(3) by (intro pool_client) (simp_all add: f(5) resting_def)
qed

end

section \<open>The start\<close>

lemma chain_nodes_of:
  assumes "distinct (map fst bs)" and "(n, e) \<in> set bs"
  shows "\<exists>x. map_of (chain_nodes bs) n = Some (fresh_node e x)"
  using assms
proof (induction bs)
  case (Cons b bs)
  obtain m e' where b: "b = (m, e')" by (cases b)
  show ?case
  proof (cases "m = n")
    case True
    then have "e' = e" using Cons.prems b by force
    then show ?thesis using True b by auto
  next
    case False
    then show ?thesis using Cons b by simp
  qed
qed simp

lemma chain_nodes_dom: "dom (map_of (chain_nodes bs)) = fst ` set bs"
proof (induction bs)
  case (Cons b bs)
  then show ?case by (cases b) (simp del: fun_upd_apply)
qed simp

lemma chain_nodes_links:
  assumes "distinct (map fst bs)" and "0 \<notin> fst ` set bs"
    and "\<And>n. n \<in> fst ` set bs \<Longrightarrow> nx n = next_node (the (map_of (chain_nodes bs) n))"
  shows "links nx (case bs of [] \<Rightarrow> 0 | b # _ \<Rightarrow> fst b) (map fst bs)"
  using assms
proof (induction bs)
  case (Cons b bs)
  obtain m e where b: "b = (m, e)" by (cases b)
  have "nx n = next_node (the (map_of (chain_nodes bs) n))" if "n \<in> fst ` set bs" for n
    using Cons.prems(3)[of n] Cons.prems(1) that b by auto
  then have "links nx (case bs of [] \<Rightarrow> 0 | b # _ \<Rightarrow> fst b) (map fst bs)" using Cons by simp
  moreover have "nx m = (case bs of [] \<Rightarrow> 0 | b # _ \<Rightarrow> fst b)" using Cons.prems(3)[of m] b by simp
  ultimately show ?case using Cons.prems(2) b by auto
qed simp

lemma boot_pool_fields:
  assumes "P = pool_boot bs as"
  shows "nodes (pmem P) = map_of (chain_nodes bs)" "list_head (pmem P) = (case bs of [] \<Rightarrow> 0 | b # _ \<Rightarrow> fst b)"
    "node_cnt (pmem P) = length bs" "heap (pmem P) = Map.empty" "storage (pmem P) = map_of (map (\<lambda>a. (a, 0)) as)"
    "envelopes (pmem P) = map_of (map (\<lambda>b. (snd b, 0)) bs)" "plocs P = (\<lambda>n. local_default\<lparr>node := Some n\<rparr>)"
    "pcs P = (\<lambda>_. Idle)" "phnd P = {#}"
  by (simp_all add: assms pool_boot_def)

lemma boot_pool_node:
  assumes "boxes_ok bs" and "P = pool_boot bs as" and "(n, e) \<in> set bs"
  shows "\<exists>x. nodes (pmem P) n = Some (fresh_node e x)"
  using chain_nodes_of[of bs n e] assms by (auto simp: pool_boot_def boxes_ok_def)

lemma boot_pool_nodes: "P = pool_boot bs as \<Longrightarrow> dom (nodes (pmem P)) = fst ` set bs"
  by (simp add: pool_boot_def chain_nodes_dom)

lemma boot_pool_owed:
  assumes b: "boxes_ok bs" and P: "P = pool_boot bs as"
  shows "owed_of (pmem P) = {}"
proof -
  have "slot_get (pmem P) d = None \<or> slot_get (pmem P) d = Some NONE" for d
  proof (cases "debt_node d \<in> fst ` set bs")
    case True
    then obtain e where "(debt_node d, e) \<in> set bs" by auto
    then obtain x where "nodes (pmem P) (debt_node d) = Some (fresh_node e x)"
      using boot_pool_node[OF b P] by blast
    then show ?thesis by (cases d) (auto simp: fast_default_def)
  next
    case False
    then have "nodes (pmem P) (debt_node d) = None" using boot_pool_nodes[OF P] by auto
    then show ?thesis by (cases d) auto
  qed
  then have "p = NONE" if "slot_get (pmem P) d = Some p" for d p using that by (metis option.distinct(1) option.inject)
  then show ?thesis by (auto simp: owed_of_def simp del: slot_get.simps)
qed

lemma pool_boot_steady:
  assumes b: "boxes_ok bs" and P: "P = pool_boot bs as"
  shows "steady (pmem P) (map fst bs)"
proof -
  let ?s = "pmem P"
  have nd: "\<exists>e x. nodes ?s n = Some (fresh_node e x)" if "n \<in> fst ` set bs" for n
    using boot_pool_node[OF b P, of n] that by (force simp del: slot_get.simps)
  have "next_of ?s n = next_node (the (map_of (chain_nodes bs) n))" if "n \<in> fst ` set bs" for n
    using nd[OF that] boot_pool_fields(1)[OF P] by (auto simp: next_of_def)
  then have "links (next_of ?s) (list_head ?s) (map fst bs)"
    using chain_nodes_links[of bs "next_of ?s"] b boot_pool_fields(2)[OF P] by (simp add: boxes_ok_def)
  moreover have "node_ok x" if "nodes ?s n = Some x" for n x
    using nd[of n] that boot_pool_nodes[OF P] by (metis domI fresh_node_fields(1) option.inject)
  moreover have "in_use (node_at ?s n) = NODE_USED" if "n \<in> fst ` set bs" for n
    using nd[OF that] by (auto simp: node_at_def)
  moreover have "node_cnt ?s = length bs" by (rule boot_pool_fields[OF P])
  ultimately show ?thesis
    using b boot_pool_nodes[OF P] unfolding steady_def chained_def boxes_ok_def by auto
qed

lemma pool_boot_ok:
  assumes b: "boxes_ok bs" and cnt: "\<And>p. cnt Map.empty p = 0" and P: "P = pool_boot bs as"
  shows "pool_ok cnt (map fst bs) P"
proof -
  note f = boot_pool_fields[OF P]
  let ?ns = "map fst bs"
  let ?s = "pmem P" and ?V = "pool_view ?ns P"
  have V: "?V n = plain {#} 0" for n by (simp add: pool_view_def f local_default_def)
  have nd: "ctl ?s n = IDLE" "slot_get ?s (HelpingDebt n) = Some NONE" "offer ?s n = e" if "(n, e) \<in> set bs" for n e
    using boot_pool_node[OF b P that] by (auto simp: ctl_def offer_def node_at_def)
  have idle: "ctl ?s n = IDLE" "slot_get ?s (HelpingDebt n) = Some NONE" if "n \<in> set ?ns" for n
    using nd(1,2) that by (auto simp del: slot_get.simps)
  have env: "envelope ?s n (?V n) = e" if "(n, e) \<in> set bs" for n e
    using nd(3)[OF that] by (simp add: envelope_def V)
  have inj: "inj_on (\<lambda>n. envelope ?s n (?V n)) (set ?ns)"
  proof (rule inj_onI)
    fix n m assume "n \<in> set ?ns" "m \<in> set ?ns" and e: "envelope ?s n (?V n) = envelope ?s m (?V m)"
    then obtain x y where x: "(n, x) \<in> set bs" "(m, y) \<in> set bs" by auto
    moreover have "x = y" using e env x by metis
    moreover have "inj_on snd (set bs)" using b by (simp add: boxes_ok_def distinct_map)
    ultimately show "n = m" using inj_onD[of snd "set bs" "(n, y)" "(m, y)"] by simp
  qed
  have "aligned4 e \<and> envelopes ?s e \<noteq> None" if "(n, e) \<in> set bs" for n e
    using that b by (force simp: f boxes_ok_def map_of_eq_None_iff)
  then have "envelopes_ok (set ?ns) ?s ?V" using inj env by (auto simp: envelopes_ok_def)
  then have "shape (set ?ns) ?s ?V"
    unfolding shape_def
    using idle boot_pool_owed[OF b P]
    by (auto simp: linked_def waiting_def load_ok_def help_ok_def V aligned4_def simp del: slot_get.simps)
  moreover have "claims (set ?ns) ?s ?V (phnd P) = {#}"
    using idle by (simp add: claims_def part_def load_claims_def inflight_def V f)
  moreover have "account (view cnt ?s) {#}"
  proof (rule accountI)
    show "finite (owed (view cnt ?s))" using boot_pool_owed[OF b P] by simp
    fix p :: usize assume "p \<noteq> 0"
    have "map_of (map (\<lambda>a. (a, 0)) as) a = Some p \<Longrightarrow> p = 0" for a :: usize and p :: usize
      by (auto dest: map_of_SomeD)
    then have "{a. cells (view cnt ?s) a = Some p} = {}"
      using \<open>p \<noteq> 0\<close> by (auto simp: view_def f)
    then show "total (view cnt ?s) p = stored (view cnt ?s) p + held {#} p"
      using boot_pool_owed[OF b P] cnt by (simp add: total_def debts_on_def stored_def held_def f)
  next
    show "cells (view cnt ?s) a \<noteq> Some NONE" for a
      by (auto simp: view_def f NONE_def dest!: map_of_SomeD)
  qed (use boot_pool_owed[OF b P] in auto)
  ultimately have "core cnt (set ?ns) ?s ?V (phnd P)"
    using boot_pool_nodes[OF P] by (simp add: core_def accounted_def)
  then show ?thesis
    using pool_boot_steady[OF b P] by (simp add: pool_ok_def f)
qed

section \<open>Every state the pool can reach\<close>

context shared_cnt
begin

lemma pool_step:
  assumes P: "pool_ok cnt ns P" and st: "pstep T P Q"
  shows "pool_ok cnt ns Q"
  using st
proof cases
  case (run n k ws pc w)
  have n: "n \<in> set ns" and g: "thread_announces (pcs P n) \<Longrightarrow> generation (plocs P n) + 4 \<noteq> 0" using run(2) pool_nodes[OF P] by (auto simp: may_run_def)
  have V: "gen (pool_view ns P n) = generation (plocs P n)" by (simp add: pool_view_def)
  have "thread_safe T cnt ns (pool_view ns P) (phnd P) n (in_pool n k ws P) (pcs P n)"
    by (rule thread_atom_safe[OF pool_running[OF P n]]) (use V g pool_pc[OF P n] in \<open>simp_all add: pool_view_def\<close>)
  then show ?thesis unfolding run(1) by (rule pool_run[OF P n _ run(3)])
next
  case (call n r)
  then show ?thesis using pool_call[OF P] pool_nodes[OF P] by blast
next
  case (return n K)
  then show ?thesis using pool_return[OF P] pool_nodes[OF P] by blast
next
  case (clone n p x k ws y w)
  have r: "resting cnt ns P n" using clone P pool_nodes[OF P] by (simp add: resting_def)
  show ?thesis using pool_clone(1)[OF r clone(4), of k ws] pool_clone(2)[OF r clone(4)] clone(1,5) by simp
next
  case (alloc n q v)
  have r: "resting cnt ns P n" using alloc P pool_nodes[OF P] by (simp add: resting_def)
  show ?thesis unfolding alloc(1) by (rule pool_alloc[OF r alloc(4-6)])
next
  case (null n)
  have "resting cnt ns P n" using null P pool_nodes[OF P] by (simp add: resting_def)
  then show ?thesis unfolding null(1) by (rule pool_null)
next
  case (place n q a k ws b w)
  have "resting cnt ns P n" using place P pool_nodes[OF P] by (simp add: resting_def)
  then show ?thesis unfolding place(1) using place(4,5) by (rule pool_place)
qed

lemma interleaved_ok: "interleaved T P \<Longrightarrow> \<exists>ns. pool_ok cnt ns P"
proof (induction rule: interleaved.induct)
  case (start bs as)
  have "pool_ok cnt (map fst bs) (pool_boot bs as)" by (rule pool_boot_ok[OF start _ refl]) (rule cnt_empty)
  then show ?case by blast
next
  case (step P Q)
  then show ?case using pool_step by blast
qed

lemma pool_fault:
  assumes "pool_ok cnt ns P" and "may_run n P"
  shows "fst (thread_atom T (pcs P n) (in_pool n k ws P)) \<in> insert (Inl OutOfFuel) (range Inr)"
proof -
  have n: "n \<in> set ns" using assms pool_nodes[OF assms(1)] by (simp add: may_run_def)
  have "thread_safe T cnt ns (pool_view ns P) (phnd P) n (in_pool n k ws P) (pcs P n)"
    by (rule thread_atom_safe[OF pool_running[OF assms(1) n]])
      (use assms(2) pool_pc[OF assms(1) n] in \<open>simp_all add: pool_view_def may_run_def\<close>)
  then show ?thesis by (auto simp: thread_safe_def)
qed

end

section \<open>What holds in every state\<close>

text \<open>What a thread has in hand, and all claims there are: the clients' handles and what the threads have.\<close>

definition in_hand :: "'v pool \<Rightarrow> usize \<Rightarrow> handles" where
  "in_hand P n = part (pmem P) n (pool_view [] P n)"

definition pool_claims :: "'v pool \<Rightarrow> handles" where
  "pool_claims P = phnd P + (\<Sum>n\<in>dom (nodes (pmem P)). in_hand P n)"

lemma thread_view_hand:
  "oc (thread_view ns pc g) = oc (thread_view [] pc g)" "ld (thread_view ns pc g) = ld (thread_view [] pc g)"
  by (cases pc; simp)+

lemma part_in_hand: "part (pmem P) n (pool_view ns P n) = in_hand P n"
  using thread_view_hand[of ns "pcs P n" "generation (plocs P n)"]
  by (simp add: in_hand_def part_def pool_view_def)

lemma pool_dom: "pool_ok cnt ns P \<Longrightarrow> dom (nodes (pmem P)) = set ns"
  using pool_nodes[of cnt ns P] by (auto simp: dom_def)

lemma pool_claims_eq: "pool_ok cnt ns P \<Longrightarrow> claims (set ns) (pmem P) (pool_view ns P) (phnd P) = pool_claims P"
  by (simp add: claims_def pool_claims_def part_in_hand pool_dom)

lemma pool_account:
  assumes P: "pool_ok cnt ns P"
  shows "account (view cnt (pmem P)) (pool_claims P)"
proof -
  have "accounted cnt (set ns) (pmem P) (pool_view ns P) (phnd P)" using P by (simp add: pool_ok_def core_def)
  then show ?thesis unfolding accounted_def pool_claims_eq[OF P] by blast
qed

lemma pool_alive_stored:
  assumes "pool_ok cnt ns P" and "p \<noteq> 0" and "storage (pmem P) a = Some p"
  shows "0 < cnt (heap (pmem P)) p"
  using account_alive_stored[OF pool_account[OF assms(1)] assms(2), of a] assms(3) by simp

lemma pool_alive_handle:
  assumes P: "pool_ok cnt ns P" and p: "p \<noteq> 0" and h: "(p, x) \<in># phnd P"
  shows "0 < cnt (heap (pmem P)) p"
proof (cases ns)
  case Nil
  then have "nodes (pmem P) = Map.empty" using pool_dom[OF P] by simp
  then have "0 < counts (view cnt (pmem P)) p"
    using h by (intro account_alive_claim[OF pool_account[OF P] p, of x]) (auto simp: no_nodes_owed pool_claims_def)
  then show ?thesis by simp
next
  case (Cons n ms)
  have C: "core cnt (set ns) (pmem P) (pool_view ns P) (phnd P)" using P by (simp add: pool_ok_def)
  show ?thesis by (rule claim_alive[OF C p, of n x]) (use h Cons in auto)
qed

text \<open>A thread that is done or idle owes nothing and covers nothing, so a pool at rest is balanced.\<close>

lemma pool_balanced:
  assumes P: "pool_ok cnt ns P" and idle: "\<And>n. nodes (pmem P) n \<noteq> None \<Longrightarrow> pcs P n = Idle"
  shows "balanced (view cnt (pmem P)) (phnd P)"
proof -
  let ?B = "view cnt (pmem P)" and ?V = "pool_view ns P"
  have C: "core cnt (set ns) (pmem P) ?V (phnd P)" using P by (simp add: pool_ok_def)
  have i: "?V n = plain {#} (generation (plocs P n))" if "n \<in> set ns" for n
    using idle[of n] pool_nodes[OF P] that by (simp add: pool_view_def)
  have "ctl (pmem P) n = IDLE" if "n \<in> set ns" for n
    using C that i[OF that] by (auto simp: core_def shape_def load_ok_def)
  then have "in_hand P n = {#}" if "n \<in> set ns" for n
    using i[OF that] that by (simp add: part_in_hand[of P n ns, symmetric] part_def load_claims_def inflight_def)
  then have c: "pool_claims P = phnd P"
    using pool_nodes[OF P] by (auto simp: pool_claims_def dom_def intro!: sum.neutral)
  have "\<exists>a. storage (pmem P) a = Some p" if "(d, p) \<in> owed_of (pmem P)" for d p
  proof -
    have "covered (set ns) (pmem P) ?V d p" using C that by (simp add: core_def shape_def del: owed_of_iff)
    then show ?thesis using i by (auto simp: covered_def covers_def)
  qed
  then show ?thesis
    using pool_account[OF P] unfolding c by (simp add: account_def balanced_def del: owed_of_iff)
qed

text \<open>A control word is idle, a generation or the tagged address of an envelope.\<close>

lemma pool_ctl:
  assumes P: "pool_ok cnt ns P" and n: "nodes (pmem P) n \<noteq> None"
  shows "ctl (pmem P) n = IDLE \<or> is_gen (ctl (pmem P) n) \<or>
    is_env (ctl (pmem P) n) \<and> aligned4 (untag (ctl (pmem P) n)) \<and> envelopes (pmem P) (untag (ctl (pmem P) n)) \<noteq> None"
proof -
  have n': "n \<in> set ns" using n pool_nodes[OF P] by simp
  have l: "load_ok (pmem P) n (pool_view ns P n)" and e: "envelopes_ok (set ns) (pmem P) (pool_view ns P)"
    using P n' by (auto simp: pool_ok_def core_def shape_def)
  show ?thesis
  proof (cases "ld (pool_view ns P n)")
    case None
    then show ?thesis using l by (simp add: load_ok_def)
  next
    case (Some x)
    obtain a q where x: "x = (a, q)" by (cases x)
    have al: "aligned4 (gen (pool_view ns P n))" and c: "ctl_ok (pmem P) n (gen (pool_view ns P n)) a q"
      using l Some x by (auto simp: load_ok_def)
    have "ctl (pmem P) n = IDLE \<or> is_gen (ctl (pmem P) n) \<or> is_env (ctl (pmem P) n)"
      using c aligned4_gen_tag[OF al] by (cases q) (auto simp: in_transaction_def is_gen_def)
    moreover have "envelope (pmem P) n (pool_view ns P n) = untag (ctl (pmem P) n)" if "is_env (ctl (pmem P) n)"
      using that c Some x by (cases q) (auto simp: envelope_def)
    moreover have "aligned4 (envelope (pmem P) n (pool_view ns P n))" "envelopes (pmem P) (envelope (pmem P) n (pool_view ns P n)) \<noteq> None"
      using e n' by (auto simp: envelopes_ok_def)
    ultimately show ?thesis by metis
  qed
qed

end
