(* ===== verification/Progress.thy ===== *)
theory Progress
  imports Interleaving
begin

text \<open>
  Loads end: every access of a load brings it closer to its end, whatever the other threads do
  between two accesses. The rank of a position bounds the accesses that are left.
\<close>

fun load_rank :: "lpc \<Rightarrow> nat" where
  "load_rank LdPtr = 18 + DEBT_SLOT_CNT"
| "load_rank (LdNode p) = 17 + DEBT_SLOT_CNT"
| "load_rank (LdScan n p off i is) = 16 + length is"
| "load_rank (LdSwap n p j) = 15"
| "load_rank (LdConf p d) = 14"
| "load_rank (LdBack p d) = 13"
| "load_rank FbNode = 12"
| "load_rank (FbAddr n) = 11"
| "load_rank (FbCtl n g discard) = 10"
| "load_rank (FbWrap n g) = 9"
| "load_rank (FbCand g) = 8"
| "load_rank (FbConf g p) = 7"
| "load_rank (FbSlot n g p) = 6"
| "load_rank (FbIdle n g p) = 5"
| "load_rank (FbEnv n p e) = 4"
| "load_rank (FbOffer n p e r) = 3"
| "load_rank (FbCancel n p r) = 2"
| "load_rank (FbCancelDec p r) = 1"
| "load_rank (FbInc n p) = 3"
| "load_rank (FbPay n p) = 2"
| "load_rank (FbDec p) = 1"
| "load_rank (LdDone p d) = 0"

lemma scan_next_rank: "load_rank (scan_next n p off is) \<le> 15 + length is"
  by (cases "is") simp_all

lemma load_atom_descends:
  assumes "load_atom T a l w = (Inr l', w')" and "\<not> load_done l"
  shows "load_rank l' < load_rank l"
proof -
  have "yields (\<lambda>l'. load_rank l' < load_rank l) (load_atom T a l)"
  proof (cases l)
    case (LdNode p)
    have "load_rank (scan_next n p off [0..<DEBT_SLOT_CNT]) < load_rank l" for n off
      using scan_next_rank[of n p off "[0..<DEBT_SLOT_CNT]"] LdNode by (simp only: length_upt load_rank.simps)
    then show ?thesis using LdNode by (auto intro!: yields_bnd simp: Let_def)
  next
    case (LdScan n p off i "is")
    then show ?thesis
      using scan_next_rank[of n p off "is"] by (auto intro!: yields_bnd simp: Let_def)
  qed (use assms(2) in \<open>auto intro!: yields_bnd simp: Let_def\<close>)
  then show ?thesis using assms(1) unfolding yields_def by blast
qed

section \<open>Loads in a schedule\<close>

fun own :: "usize \<Rightarrow> 'v move \<Rightarrow> bool" where
  "own n (Run m k ws) \<longleftrightarrow> m = n"
| "own n m \<longleftrightarrow> False"

text \<open>The thread is loading with at most \<open>j\<close> accesses to go, or has loaded.\<close>

definition nearly_loaded :: "nat \<Rightarrow> pc \<Rightarrow> bool" where
  "nearly_loaded j c \<longleftrightarrow> (\<exists>a l. c = Loading a l \<and> \<not> load_done l \<and> load_rank l \<le> j) \<or> (\<exists>p d. c = Done {#(p, d)#})"

lemma nearly_loaded_0: "nearly_loaded 0 c \<Longrightarrow> \<exists>p d. c = Done {#(p, d)#}"
proof -
  have "load_rank l = 0 \<Longrightarrow> load_done l" for l by (cases l) simp_all
  then show "nearly_loaded 0 c \<Longrightarrow> ?thesis" by (auto simp: nearly_loaded_def)
qed

lemma other_move:
  assumes "nearly_loaded j (pcs P n)" and "m \<noteq> Return n" and "own n m \<Longrightarrow> \<not> may_run n P"
  shows "pcs (make_move T m P) n = pcs P n" "plocs (make_move T m P) n = plocs P n"
  using assms
  by (cases m; auto simp: nearly_loaded_def rests_def after_run_def split: prod.splits sum.splits pc.splits)+

context shared_cnt
begin

lemma own_move:
  assumes P: "pool_ok cnt ns P" and j: "nearly_loaded (Suc j) (pcs P n)" and m: "own n m" "may_run n P"
  shows "nearly_loaded j (pcs (make_move T m P) n)"
proof -
  obtain k ws where m': "m = Run n k ws" using m(1) by (cases m) auto
  have n: "n \<in> set ns" using m(2) pool_nodes[OF P] by (simp add: may_run_def)
  from j consider a l where "pcs P n = Loading a l" "\<not> load_done l" "load_rank l \<le> Suc j" | p d where "pcs P n = Done {#(p, d)#}"
    by (auto simp: nearly_loaded_def)
  then show ?thesis
  proof cases
    case 1
    let ?V = "pool_view ns P" and ?w = "in_pool n k ws P"
    have v: "?V n = at_load (plain {#} (gen (?V n))) a l (gen (?V n))" and g: "announces l \<Longrightarrow> gen (?V n) + 4 \<noteq> 0"
      using 1 m(2) by (simp_all add: pool_view_def may_run_def)
    obtain l' w' where l': "load_atom T a l ?w = (Inr l', w')"
      by (rule loading_safe[OF pool_running[OF P n] v g]) blast
    have "load_rank l' \<le> j" using load_atom_descends[OF l' 1(2)] 1(3) by simp
    moreover have "pcs (make_move T m P) n = loading a l'"
      using 1 l' m(2) m' by (simp add: bnd_apply after_run_def)
    ultimately show ?thesis by (cases l') (auto simp: nearly_loaded_def)
  next
    case 2
    then show ?thesis using m(2) m' by (simp add: nearly_loaded_def after_run_def)
  qed
qed

lemma move_ok: "pool_ok cnt ns P \<Longrightarrow> pool_ok cnt ns (make_move T m P)"
  using move_step[of T m P] pool_step[of ns P] by auto

lemma run_ok: "pool_ok cnt ns P \<Longrightarrow> pool_ok cnt ns (run_moves T ms P)"
  unfolding run_moves_def by (induction ms arbitrary: P) (simp_all add: move_ok)

lemma may_run_ok: "pool_ok cnt ns P \<Longrightarrow> n \<in> set ns \<Longrightarrow> 
    may_run n P \<longleftrightarrow> (thread_announces (pcs P n) \<longrightarrow> generation (plocs P n) + 4 \<noteq> 0)"
  using pool_nodes[of cnt ns P n] by (simp add: may_run_def)

lemma stuck_stays:
  assumes "pool_ok cnt ns P" and "nearly_loaded j (pcs P n)" and "n \<in> set ns" and "Return n \<notin> set ms" and "\<not> may_run n P"
  shows "\<not> may_run n (run_moves T ms P)"
  using assms
proof (induction ms arbitrary: P)
  case (Cons m ms)
  let ?Q = "make_move T m P"
  have Q: "pool_ok cnt ns ?Q" by (rule move_ok[OF Cons.prems(1)])
  have same: "pcs ?Q n = pcs P n" "plocs ?Q n = plocs P n"
    using other_move[OF Cons.prems(2), of m T] Cons.prems(4,5) by auto
  then have "\<not> may_run n ?Q" using may_run_ok[OF Q Cons.prems(3)] may_run_ok[OF Cons.prems(1,3)] Cons.prems(5) by simp
  then show ?case using Cons.IH[OF Q _ Cons.prems(3)] Cons.prems(2,4) same(1) by (simp add: run_moves_def)
qed (simp add: run_moves_def)

lemma loads_end:
  assumes "pool_ok cnt ns P" and "nearly_loaded j (pcs P n)" and "n \<in> set ns" and "Return n \<notin> set ms"
    and "j \<le> length (filter (own n) ms)" and "may_run n (run_moves T ms P)"
  shows "\<exists>p d. pcs (run_moves T ms P) n = Done {#(p, d)#}"
  using assms
proof (induction ms arbitrary: P j)
  case Nil
  then show ?case using nearly_loaded_0[of "pcs P n"] by (simp add: run_moves_def)
next
  case (Cons m ms)
  let ?Q = "make_move T m P"
  have Q: "pool_ok cnt ns ?Q" by (rule move_ok[OF Cons.prems(1)])
  have R: "run_moves T (m # ms) P = run_moves T ms ?Q" by (simp add: run_moves_def)
  show ?case
  proof (cases "own n m \<and> may_run n P")
    case True
    have "nearly_loaded (j - 1) (pcs ?Q n)"
    proof (cases j)
      case 0
      then obtain p d where "pcs P n = Done {#(p, d)#}" using nearly_loaded_0 Cons.prems(2) by blast
      then have "nearly_loaded (Suc 0) (pcs P n)" by (simp add: nearly_loaded_def)
      then show ?thesis using own_move[OF Cons.prems(1), of 0 n m] True 0 by simp
    next
      case (Suc i)
      then show ?thesis using own_move[OF Cons.prems(1), of i n m] True Cons.prems(2) by simp
    qed
    then show ?thesis
      using Cons.IH[OF Q _ Cons.prems(3)] Cons.prems(4-6) True unfolding R by auto
  next
    case False
    have "may_run n P" using stuck_stays[OF Cons.prems(1-4)] Cons.prems(6) by blast
    then have m: "\<not> own n m" using False by blast
    then have "pcs ?Q n = pcs P n" using other_move(1)[OF Cons.prems(2), of m T] Cons.prems(4) by auto
    then show ?thesis using Cons.IH[OF Q _ Cons.prems(3), of j] Cons.prems(2,4-6) m unfolding R by simp
  qed
qed

end

end
