(* ===== verification/LoadWindow.thy ===== *)
theory LoadWindow
  imports Progress
begin

unbundle bit_operations_syntax

text \<open>
  What a load knows of its storage, however the threads interleave: the pointer in its hands is one the storage has
  shown since the load began, whether it has read it itself or a writer has loaded it in the course of the same
  transaction. The invariant follows, for every thread, the values its storage has shown; \<open>CallWindow\<close> draws
  the results of the calls from it.
\<close>

section \<open>Accesses that leave the protocol alone\<close>

definition alike :: "'v shared \<Rightarrow> 'v shared \<Rightarrow> bool" where
  "alike s s' \<longleftrightarrow> storage s' = storage s \<and> ctl s' = ctl s \<and> envelopes s' = envelopes s"

definition still :: "('v, 'a) prog \<Rightarrow> bool" where
  "still m \<longleftrightarrow> (\<forall>w x w'. solo w \<longrightarrow> m w = (Inr x, w') \<longrightarrow> solo w' \<and> alike (sh w) (sh w'))"

lemma stillD: "still m \<Longrightarrow> solo w \<Longrightarrow> m w = (Inr x, w') \<Longrightarrow> alike (sh w) (sh w')"
  by (auto simp: still_def)

lemma alike_refl [simp]: "alike s s"
  by (simp add: alike_def)

lemma alike_heap [simp]: "alike s (s\<lparr>heap := h\<rparr>)"
  by (simp add: alike_def ctl_def node_at_def fun_eq_iff)

lemma alike_node:
  "nodes s n = Some nd \<Longrightarrow> control (helping nd') = control (helping nd) \<Longrightarrow> alike s (s\<lparr>nodes := (nodes s)(n \<mapsto> nd')\<rparr>)"
  by (simp add: alike_def ctl_def node_at_def fun_eq_iff)

lemma still_ret [simp]: "still (ret x)"
  by (simp add: still_def)

lemma still_raise [simp]: "still (raise e)"
  by (simp add: still_def raise_def)

lemma alike_trans: "alike s t \<Longrightarrow> alike t u \<Longrightarrow> alike s u"
  by (simp add: alike_def)

lemma still_bnd:
  assumes "still m" and "\<And>x. still (f x)"
  shows "still (bnd m f)"
  unfolding still_def
proof (intro allI impI)
  fix w x w' assume s: "solo w" and r: "bnd m f w = (Inr x, w')"
  obtain y v where y: "m w = (Inr y, v)" "f y v = (Inr x, w')"
    using r by (auto simp: bnd_apply split: prod.splits sum.splits)
  have v: "solo v" "alike (sh w) (sh v)" using assms(1) s y(1) by (auto simp: still_def)
  have "solo w'" "alike (sh v) (sh w')" using assms(2)[of y] v(1) y(2) by (auto simp: still_def)
  then show "solo w' \<and> alike (sh w) (sh w')" using alike_trans[OF v(2)] by simp
qed

lemma still_atomic:
  assumes "\<And>s x s'. f s = Inr (x, s') \<Longrightarrow> alike s s'"
  shows "still (atomic f)"
  using assms unfolding still_def by (auto simp: atomic_solo split: prod.splits sum.splits)

lemma still_node_read [simp]: "still (node_read n f)"
  unfolding node_read_def by (rule still_atomic) (auto split: option.splits)

lemma still_node_rmw:
  assumes "\<And>nd. control (helping (snd (f nd))) = control (helping nd)"
  shows "still (node_rmw n f)"
  unfolding node_rmw_def
proof (rule still_atomic)
  fix s s' :: "'b shared" and x assume "(case nodes s n of None \<Rightarrow> Inl Dangling
      | Some nd \<Rightarrow> case f nd of (x, nd') \<Rightarrow> Inr (x, s\<lparr>nodes := (nodes s)(n \<mapsto> nd')\<rparr>)) = Inr (x, s')"
  then show "alike s s'" using assms by (auto intro!: alike_node split: option.splits prod.splits) (metis snd_conv)
qed

lemma still_slot_rmw [simp]: "still (slot_rmw d f)"
proof (cases d)
  case (FastDebt n i)
  then show ?thesis
    by (auto intro!: still_atomic alike_node split: option.splits prod.splits if_splits)
qed (auto intro!: still_node_rmw split: prod.splits)

lemma still_heap [simp]:
  "still (inc_value T x)" "still (dec_ptr T p)" "still (drop_val T x)" "still (clone_val T x)"
  unfolding inc_value_def dec_ptr_def drop_val_def clone_val_def
  by (rule still_atomic; auto split: sum.splits prod.splits)+

lemma still_slots [simp]: "still (slot_load d)" "still (slot_swap d p)" "still (pay d p)"
  by (simp_all add: slot_load_def slot_swap_def pay_def slot_cas_def)

lemma still_local [simp]: "still get_loc" "still (modify_loc f)" "still get_fuel" "still (debug_assert b)" "still (assert_that b)" "still (expect x)"
  by (auto simp: still_def get_loc_def modify_loc_def get_fuel_def debug_assert_def assert_that_def expect_def raise_def
      split: if_splits option.splits)

lemma still_fields [simp]:
  "still (control_load n)" "still (active_addr_load n)" "still (space_offer_load n)" "still (in_use_load n)"
  "still (active_addr_store n a)" "still (space_offer_store n e)" "still (in_use_swap n v)"
  "still (reserve_writer n)" "still (release_writer n)"
  by (auto simp: control_load_def active_addr_load_def space_offer_load_def in_use_load_def active_addr_store_def
      space_offer_store_def in_use_swap_def reserve_writer_def release_writer_def intro!: still_node_rmw)

lemma still_envelope_load [simp]: "still (envelope_load e)"
  unfolding envelope_load_def by (rule still_atomic) (auto split: option.splits)

lemma still_local_node [simp]: "still local_node"
  by (auto simp: local_node_def intro!: still_bnd)

lemma still_storage_load [simp]: "still (storage_load a)"
  unfolding storage_load_def storage_rmw_def
  by (rule still_atomic) (auto simp: alike_def ctl_def node_at_def fun_upd_idem fun_eq_iff split: option.splits)

section \<open>What a load brings home\<close>

fun lvals :: "'v shared \<Rightarrow> lpc \<Rightarrow> usize set" where
  "lvals s (LdNode p) = {p}"
| "lvals s (LdScan n p off i is) = {p}"
| "lvals s (LdSwap n p j) = {p}"
| "lvals s (LdConf p d) = {p}"
| "lvals s (LdBack p d) = {p}"
| "lvals s (FbConf g p) = {p}"
| "lvals s (FbSlot n g p) = {p}"
| "lvals s (FbIdle n g p) = {p}"
| "lvals s (FbInc n p) = {p}"
| "lvals s (FbPay n p) = {p}"
| "lvals s (FbDec p) = {p}"
| "lvals s (FbEnv n p e) = {the (envelopes s e)}"
| "lvals s (FbOffer n p e r) = {r}"
| "lvals s (FbCancel n p r) = {r}"
| "lvals s (FbCancelDec p r) = {r}"
| "lvals s (LdDone p d) = {p}"
| "lvals s l = {}"

definition shown :: "'v shared \<Rightarrow> usize \<Rightarrow> usize set" where
  "shown s a = {v. storage s a = Some v}"

definition offered :: "'v shared \<Rightarrow> usize \<Rightarrow> usize set" where
  "offered s n = (if is_env (ctl s n) then {the (envelopes s (untag (ctl s n)))} else {})"

lemma lvals_scan: "v \<in> lvals s (scan_next n p off is) \<Longrightarrow> v = p"
  by (cases "is") simp_all

lemma envelope_load_val: "solo w \<Longrightarrow> envelope_load e w = (Inr r, w') \<Longrightarrow> r = the (envelopes (sh w) e)"
  by (auto simp: envelope_load_def atomic_solo split: option.splits)

lemma lvals_alike: "envelopes s' = envelopes s \<Longrightarrow> lvals s' l = lvals s l"
  by (cases l) simp_all

lemma storage_load_shown: "solo w \<Longrightarrow> storage_load a w = (Inr p, w') \<Longrightarrow> p \<in> shown (sh w) a"
  by (auto simp: storage_load_def storage_rmw_def atomic_solo shown_def split: option.splits)

text \<open>What an access of a load does to the words the protocol lives on.\<close>

fun load_still :: "lpc \<Rightarrow> bool" where
  "load_still (FbCtl n g b) \<longleftrightarrow> False"
| "load_still (FbIdle n g p) \<longleftrightarrow> False"
| "load_still (FbWrap n g) \<longleftrightarrow> False"
| "load_still l \<longleftrightarrow> True"

lemma still_load_atom: "load_still l \<Longrightarrow> still (load_atom T a l)"
  by (cases l) (auto intro!: still_bnd simp: Let_def)

lemma load_atom_vals:
  assumes s: "solo w" and l: "load_atom T a l w = (Inr l', w')" and st: "load_still l"
  shows "lvals (sh w) l' \<subseteq> lvals (sh w) l \<union> shown (sh w) a"
proof -
  show ?thesis
    using l st
    by (cases l) (auto simp: bnd_apply Let_def debug_assert_def raise_def get_loc_def modify_loc_def
        split: prod.splits sum.splits if_splits dest: lvals_scan storage_load_shown[OF s] envelope_load_val[OF s])
qed

text \<open>An access of a load in the running pool.\<close>

lemma load_effect:
  assumes R: "running cnt ns V H n w" and l: "ld (V n) = Some (a, l)" and r: "load_atom T a l w = (Inr l', w')"
  shows "storage (sh w') = storage (sh w)" "envelopes (sh w') = envelopes (sh w)"
    "\<And>m. m \<noteq> n \<Longrightarrow> ctl (sh w') m = ctl (sh w) m"
    "\<And>c. issued (V n) c \<Longrightarrow> ctl (sh w') n = c \<Longrightarrow> ctl (sh w) n = c"
    "offered (sh w') n \<subseteq> offered (sh w) n"
    "lvals (sh w') l' \<subseteq> lvals (sh w) l \<union> shown (sh w) a \<union> offered (sh w) n"
proof -
  note f = running_facts[OF R l]
  have "storage (sh w') = storage (sh w) \<and> envelopes (sh w') = envelopes (sh w) \<and>
      (\<forall>m. m \<noteq> n \<longrightarrow> ctl (sh w') m = ctl (sh w) m) \<and>
      (\<forall>c. issued (V n) c \<and> ctl (sh w') n = c \<longrightarrow> ctl (sh w) n = c) \<and>
      offered (sh w') n \<subseteq> offered (sh w) n \<and>
      lvals (sh w') l' \<subseteq> lvals (sh w) l \<union> shown (sh w) a \<union> offered (sh w) n"
  proof (cases "load_still l")
    case True
    have a: "alike (sh w) (sh w')" by (rule stillD[OF still_load_atom[OF True] f(3) r])
    then have "lvals (sh w') l' \<subseteq> lvals (sh w) l \<union> shown (sh w) a"
      using load_atom_vals[OF f(3) r True] lvals_alike[of "sh w'" "sh w" l'] by (simp add: alike_def)
    then show ?thesis using a by (auto simp: alike_def offered_def)
  next
    case False
    then consider c b where "l = FbCtl n c b" | g p where "l = FbIdle n g p" using f(10) by (cases l) auto
    then show ?thesis
    proof cases
      case 1
      have g: "ctl (sh w) n = IDLE" "c = gen (V n) OR GEN_TAG" "4 \<le> unat (gen (V n))" using f(8) 1 by simp_all
      have new: "\<not> issued (V n) c" using issued_bound[of "V n" "gen (V n)"] f(11) g l 1 by (auto simp: published_def)
      have e: "\<not> is_env c" using aligned4_gen_tag[OF f(11)] gen_not_env g(2) by (auto simp: is_gen_def)
      let ?s = "on_helping n (control_update (\<lambda>_. c)) (sh w)"
      have s: "sh w' = ?s" "lvals (sh w') l' = {}" using r f(3,7,10) 1 by (simp_all add: bnd_apply helping_slots_solo debug_assert_def raise_def split: if_splits) auto
      have "ctl ?s n = c" using on_helping_own[OF f(7)] by (simp add: ctl_def)
      then show ?thesis using new e s by (auto simp: offered_def)
    next
      case 2
      let ?s = "on_helping n (control_update (\<lambda>_. IDLE)) (sh w)"
      have s: "sh w' = ?s" using r f(3,7) 2 by (simp add: bnd_apply helping_slots_solo debug_assert_def raise_def split: if_splits) auto
      have c: "ctl ?s n = IDLE" using on_helping_own[OF f(7)] by (simp add: ctl_def)
      have "lvals ?s l' \<subseteq> {p} \<union> offered (sh w) n"
        using r f(3,7) 2 by (auto simp: bnd_apply helping_slots_solo debug_assert_def raise_def offered_def is_env_def untag_def split: if_splits)
      moreover have "\<not> issued (V n) IDLE" using issued_gen by fastforce
      ultimately show ?thesis using c s 2 by (auto simp: offered_def)
    qed
  qed
  then show "storage (sh w') = storage (sh w)" "envelopes (sh w') = envelopes (sh w)"
    "\<And>m. m \<noteq> n \<Longrightarrow> ctl (sh w') m = ctl (sh w) m"
    "\<And>c. issued (V n) c \<Longrightarrow> ctl (sh w') n = c \<Longrightarrow> ctl (sh w) n = c"
    "offered (sh w') n \<subseteq> offered (sh w) n"
    "lvals (sh w') l' \<subseteq> lvals (sh w) l \<union> shown (sh w) a \<union> offered (sh w) n"
    by blast+
qed

section \<open>The values each thread has been shown\<close>

text \<open>The load a thread is in, and the node a writer is helping with the value it will hand over.\<close>

fun pay_pos :: "pc \<Rightarrow> (usize \<times> usize \<times> ppc) option" where
  "pay_pos (Paying a p pp) = Some (a, p, pp)"
| "pay_pos (CasPay a p d pp) = Some (a, p, pp)"
| "pay_pos pc = None"

fun load_of :: "pc \<Rightarrow> (usize \<times> lpc) option" where
  "load_of (Loading a l) = Some (a, l)"
| "load_of (CasLoad k a c q l) = Some (a, l)"
| "load_of (Paying a p pp) = pay_load a pp"
| "load_of (CasPay a p d pp) = pay_load a pp"
| "load_of pc = None"

fun pay_helps :: "usize \<Rightarrow> ppc \<Rightarrow> (usize \<times> usize \<times> hpc) option" where
  "pay_helps a (PHelp k cur h) = Some (cur, a, h)"
| "pay_helps a pp = None"

fun helps_of :: "pc \<Rightarrow> (usize \<times> usize \<times> hpc) option" where
  "helps_of (Paying a p pp) = pay_helps a pp"
| "helps_of (CasPay a p d pp) = pay_helps a pp"
| "helps_of pc = None"

fun ipc_val :: "ipc \<Rightarrow> usize" where
  "ipc_val (IiInc p d) = p"
| "ipc_val (IiPay p d) = p"
| "ipc_val (IiDec p) = p"
| "ipc_val (IiDone p) = p"

fun hsees :: "hpc \<Rightarrow> usize option" where
  "hsees (HLoad m k c l) = Some c"
| "hsees (HInto m k c i) = Some c"
| "hsees (HTheir m k c r) = Some c"
| "hsees (HMine m k c r th) = Some c"
| "hsees (HStore m k c r th my) = Some c"
| "hsees (HCas m k c r th my) = Some c"
| "hsees h = None"

fun hgood :: "usize set \<Rightarrow> usize set \<Rightarrow> hpc \<Rightarrow> bool" where
  "hgood Gm Gw (HLoad m k c l) \<longleftrightarrow> Gm \<subseteq> Gw"
| "hgood Gm Gw (HInto m k c i) \<longleftrightarrow> ipc_val i \<in> Gw"
| "hgood Gm Gw (HTheir m k c r) \<longleftrightarrow> r \<in> Gw"
| "hgood Gm Gw (HMine m k c r th) \<longleftrightarrow> r \<in> Gw"
| "hgood Gm Gw (HStore m k c r th my) \<longleftrightarrow> r \<in> Gw"
| "hgood Gm Gw (HCas m k c r th my) \<longleftrightarrow> r \<in> Gw"
| "hgood Gm Gw h \<longleftrightarrow> True"

text \<open>
  \<open>G m\<close> are the values the storage has had since the load of \<open>m\<close> began. What a load has in hand is among
  them, and so is what a helper of its current transaction has loaded for it.
\<close>

definition helped_well :: "usize list \<Rightarrow> 'v pool \<Rightarrow> (usize \<Rightarrow> usize set) \<Rightarrow> usize \<Rightarrow> bool" where
  "helped_well ns P G m \<longleftrightarrow> (\<forall>who a h c a' l. helps_of (pcs P m) = Some (who, a, h) \<longrightarrow> hsees h = Some c \<longrightarrow>
     ctl (pmem P) who = c \<longrightarrow> load_of (pcs P who) = Some (a', l) \<longrightarrow> a' = a \<and> hgood (G m) (G who) h)"

definition seen_ok :: "usize list \<Rightarrow> 'v pool \<Rightarrow> (usize \<Rightarrow> usize set) \<Rightarrow> bool" where
  "seen_ok ns P G \<longleftrightarrow> (\<forall>m\<in>set ns. helped_well ns P G m \<and> (\<forall>a l. load_of (pcs P m) = Some (a, l) \<longrightarrow>
     shown (pmem P) a \<union> lvals (pmem P) l \<union> offered (pmem P) m \<subseteq> G m))"

definition after :: "'v shared \<Rightarrow> (usize \<times> lpc) option \<Rightarrow> usize set \<Rightarrow> usize set" where
  "after s x S = (case x of None \<Rightarrow> S | Some (a, l) \<Rightarrow> (if l = LdPtr then {} else S) \<union> shown s a)"

lemma load_of_view: "ld (pool_view ns P n) = load_of (pcs P n)"
  by (cases "pcs P n") (simp_all add: pool_view_def)

lemma helps_of_view: "helps_of (pcs P n) = Some (who, a, h) \<Longrightarrow> hp (pool_view ns P n) = map_option (Pair who) (hview_of h)"
  by (cases "pcs P n"; simp add: pool_view_def; rename_tac pp; case_tac pp; simp)+

lemma hsees_view: "hsees h = Some c \<Longrightarrow> \<exists>hv. hview_of h = Some hv \<and> seen hv = Some c"
  by (cases h) simp_all

text \<open>Facts about the pool.\<close>

lemma pool_shape: "pool_ok cnt ns P \<Longrightarrow> shape (set ns) (pmem P) (pool_view ns P)"
  by (simp add: pool_ok_def core_def)

lemma pool_load_ok: "pool_ok cnt ns P \<Longrightarrow> n \<in> set ns \<Longrightarrow> load_ok (pmem P) n (pool_view ns P n)"
  using pool_shape[of cnt ns P] by (simp add: shape_def)

lemma pool_sees:
  assumes P: "pool_ok cnt ns P" and m: "m \<in> set ns" and h: "helps_of (pcs P m) = Some (who, a, h)" "hsees h = Some c"
  shows "who \<in> set ns" "who \<noteq> m" "is_gen c" "issued (pool_view ns P who) c"
proof -
  obtain hv where hv: "hview_of h = Some hv" "seen hv = Some c" using hsees_view[OF h(2)] by blast
  have hp: "hp (pool_view ns P m) = Some (who, hv)" using helps_of_view[OF h(1), of ns] hv(1) by simp
  have ok: "help_ok (set ns) (pmem P) (pool_view ns P) m" using pool_shape[OF P] m by (simp add: shape_def)
  show w: "who \<in> set ns" "who \<noteq> m" using ok hp by (auto simp: help_ok_def)
  have "pc_ok ns (dom (storage (pmem P))) m (pcs P m)" by (rule pool_pc[OF P m])
  then have "hpc_ok m h" using h(1) by (cases "pcs P m"; simp; rename_tac pp; case_tac pp; simp)+
  then show g: "is_gen c" using h(2) by (cases h) simp_all
  show "issued (pool_view ns P who) c" using ok hp hv(2) g by (auto simp: help_ok_def)
qed

lemma gen_loading:
  assumes P: "pool_ok cnt ns P" and m: "m \<in> set ns" and g: "is_gen (ctl (pmem P) m)"
  obtains a l where "load_of (pcs P m) = Some (a, l)" "l \<noteq> LdPtr" "addr (pmem P) m = a"
proof -
  have ok: "load_ok (pmem P) m (pool_view ns P m)" by (rule pool_load_ok[OF P m])
  have i: "ctl (pmem P) m \<noteq> IDLE" using g by auto
  then obtain a l where al: "load_of (pcs P m) = Some (a, l)" "ctl_ok (pmem P) m (gen (pool_view ns P m)) a l"
    using ok by (auto simp: load_ok_def load_of_view split: option.splits)
  then show ?thesis using that[of a l] i by (cases l) (auto simp: in_transaction_def)
qed

lemma idle_offers: "ctl s n = IDLE \<Longrightarrow> offered s n = {}"
  by (simp add: offered_def)

lemma env_of_ctl: "load_ok s n v \<Longrightarrow> is_env (ctl s n) \<Longrightarrow> envelope s n v = untag (ctl s n)"
  by (auto simp: load_ok_def envelope_def split: option.splits lpc.splits)

section \<open>One step\<close>

text \<open>
  A step of thread \<open>n\<close> from the state of \<open>P\<close> to the memory \<open>s\<close>, after which it is in the load \<open>lo\<close> and helps \<open>ho\<close>:
  other threads keep their control words, except that a helper may replace a generation by an envelope
  with a value the reader was shown; \<open>n\<close> does not come back to a generation it has used; envelopes of others
  are left alone; what \<open>n\<close> has in hand afterwards it was shown.
\<close>

definition seen_move :: "usize list \<Rightarrow> 'v pool \<Rightarrow> (usize \<Rightarrow> usize set) \<Rightarrow> usize \<Rightarrow> 'v shared \<Rightarrow> (usize \<times> lpc) option \<Rightarrow> (usize \<times> usize \<times> hpc) option \<Rightarrow> bool" where
  "seen_move ns P G n s lo ho \<longleftrightarrow>
     (\<forall>m\<in>set ns. m \<noteq> n \<longrightarrow> ctl s m = ctl (pmem P) m \<or> is_gen (ctl (pmem P) m) \<and> is_env (ctl s m) \<and> offered s m \<subseteq> G m) \<and>
     (\<forall>c. issued (pool_view ns P n) c \<and> ctl s n = c \<longrightarrow> ctl (pmem P) n = c) \<and>
     (\<forall>m\<in>set ns. m \<noteq> n \<longrightarrow> (let e = envelope (pmem P) m (pool_view ns P m) in envelopes s e = envelopes (pmem P) e)) \<and>
     (\<forall>a l. lo = Some (a, l) \<and> l \<noteq> LdPtr \<longrightarrow> (\<exists>l0. load_of (pcs P n) = Some (a, l0)) \<and>
       lvals s l \<union> offered s n \<subseteq> G n \<union> shown s a) \<and>
     (\<forall>who a h c a' l. ho = Some (who, a, h) \<and> hsees h = Some c \<and> who \<in> set ns \<and> who \<noteq> n \<and> ctl s who = c \<and>
       load_of (pcs P who) = Some (a', l) \<and> l \<noteq> LdPtr \<longrightarrow> a' = a \<and> hgood (after s lo (G n)) (after s (Some (a', l)) (G who)) h)"

definition seen_after :: "'v pool \<Rightarrow> (usize \<Rightarrow> usize set) \<Rightarrow> usize \<Rightarrow> usize set" where
  "seen_after Q G m = after (pmem Q) (load_of (pcs Q m)) (G m)"

lemma seen_helped:
  assumes "seen_ok ns P G" and "m \<in> set ns" and "helps_of (pcs P m) = Some (who, a, h)" and "hsees h = Some c"
    and "ctl (pmem P) who = c" and "load_of (pcs P who) = Some (a', l)"
  shows "a' = a \<and> hgood (G m) (G who) h"
proof -
  have "helped_well ns P G m" using assms(1,2) by (simp add: seen_ok_def)
  then show ?thesis using assms(3-6) unfolding helped_well_def by blast
qed

lemma hgood_mono:
  assumes "hgood A B h" and "B \<subseteq> B'" and "\<And>k c l m. h = HLoad m k c l \<Longrightarrow> A' \<subseteq> A \<union> B'"
  shows "hgood A' B' h"
  using assms by (cases h) auto

lemma seen_step:
  assumes P: "pool_ok cnt ns P" and Q: "pool_ok cnt ns Q" and n: "n \<in> set ns"
    and pcs: "\<And>m. m \<noteq> n \<Longrightarrow> pcs Q m = pcs P m" and G: "seen_ok ns P G"
    and M: "seen_move ns P G n (pmem Q) (load_of (pcs Q n)) (helps_of (pcs Q n))"
  shows "seen_ok ns Q (seen_after Q G)"
proof -
  let ?s = "pmem P" and ?s' = "pmem Q" and ?G = "seen_after Q G"
  have old: "shown ?s a \<union> lvals ?s l \<union> offered ?s m \<subseteq> G m" if "m \<in> set ns" "load_of (pcs P m) = Some (a, l)" for m a l
    using G that by (simp add: seen_ok_def)
  have idleQ: "ctl ?s' m = IDLE" if "m \<in> set ns" "load_of (pcs Q m) = Some (a, LdPtr)" for m a
    using pool_load_ok[OF Q that(1)] that(2) by (simp add: load_ok_def load_of_view)
  have vals: "shown ?s' a \<union> lvals ?s' l \<union> offered ?s' m \<subseteq> ?G m" if m: "m \<in> set ns" and l: "load_of (pcs Q m) = Some (a, l)" for m a l
  proof (cases "l = LdPtr")
    case True
    then show ?thesis using idle_offers[OF idleQ[OF m]] l by (simp add: seen_after_def after_def)
  next
    case ld: False
    have G': "?G m = G m \<union> shown ?s' a" using l ld by (simp add: seen_after_def after_def)
    show ?thesis
    proof (cases "m = n")
      case True
      then have "lvals ?s' l \<union> offered ?s' n \<subseteq> G n \<union> shown ?s' a" using M l ld unfolding seen_move_def by blast
      then show ?thesis using G' True by auto
    next
      case False
      have l0: "load_of (pcs P m) = Some (a, l)" using l pcs[OF False] by simp
      have ok: "load_ok ?s m (pool_view ns P m)" by (rule pool_load_ok[OF P m])
      have e: "envelopes ?s' (envelope ?s m (pool_view ns P m)) = envelopes ?s (envelope ?s m (pool_view ns P m))"
        using M m False unfolding seen_move_def Let_def by blast
      have "lvals ?s' l \<subseteq> lvals ?s l"
      proof (cases l)
        case (FbEnv k p x)
        then have "envelope ?s m (pool_view ns P m) = x" using l0 by (simp add: envelope_def load_of_view)
        then show ?thesis using FbEnv e by simp
      qed simp_all
      moreover have "offered ?s' m \<subseteq> G m"
      proof (cases "ctl ?s' m = ctl ?s m")
        case True
        then have "offered ?s' m \<subseteq> offered ?s m" using e env_of_ctl[OF ok] by (auto simp: offered_def)
        then show ?thesis using old[OF m l0] by blast
      next
        case c: False
        then show ?thesis using M m False unfolding seen_move_def by blast
      qed
      ultimately show ?thesis using old[OF m l0] unfolding G' by blast
    qed
  qed
  have hw: "helped_well ns Q ?G m" if m: "m \<in> set ns" for m
    unfolding helped_well_def
  proof (intro allI impI)
    fix who a h c a' l
    assume h: "helps_of (pcs Q m) = Some (who, a, h)" "hsees h = Some c" and c: "ctl ?s' who = c" and l: "load_of (pcs Q who) = Some (a', l)"
    note q = pool_sees[OF Q m h]
    have ld: "l \<noteq> LdPtr" using q(1,3) c idleQ[of who a'] l by auto
    have Gw: "?G who = G who \<union> shown ?s' a'" using l ld by (simp add: seen_after_def after_def)
    show "a' = a \<and> hgood (?G m) (?G who) h"
    proof (cases "m = n")
      case True
      then have "load_of (pcs P who) = Some (a', l)" using l q(2) pcs by auto
      then have "a' = a \<and> hgood (after ?s' (load_of (pcs Q n)) (G n)) (after ?s' (Some (a', l)) (G who)) h"
        using M h c q(1,2) ld True unfolding seen_move_def by blast
      then show ?thesis using True l by (auto simp: seen_after_def)
    next
      case False
      have hP: "helps_of (pcs P m) = Some (who, a, h)" using h(1) pcs[OF False] by simp
      note r = pool_sees[OF P m hP h(2)]
      have cP: "ctl ?s who = c"
      proof (cases "who = n")
        case True
        then show ?thesis using M r(4) c unfolding seen_move_def by blast
      next
        case w: False
        have "\<not> is_env c" using gen_not_env[OF r(3)] .
        then show ?thesis using M r(1) w c unfolding seen_move_def by metis
      qed
      obtain l0 where l0: "load_of (pcs P who) = Some (a', l0)"
      proof (cases "who = n")
        case True
        then show ?thesis using M l ld that unfolding seen_move_def by blast
      qed (use l pcs that in auto)
      have ok: "a' = a" "hgood (G m) (G who) h" using seen_helped[OF G m hP h(2) cP l0] by simp_all
      have "hgood (?G m) (?G who) h"
      proof (rule hgood_mono[OF ok(2)])
        show "G who \<subseteq> ?G who" using Gw by blast
        fix k c' l' j assume "h = HLoad j k c' l'"
        then have "load_of (pcs Q m) = Some (a, l')" using h(1) by (cases "pcs Q m"; simp; rename_tac pp; case_tac pp; simp)+
        then show "?G m \<subseteq> G m \<union> ?G who" unfolding Gw using ok(1) by (auto simp: seen_after_def after_def)
      qed
      then show ?thesis using ok(1) by simp
    qed
  qed
  show ?thesis
    unfolding seen_ok_def by (intro ballI conjI allI impI) (rule hw vals; assumption)+
qed

section \<open>Every kind of step\<close>

lemma seen_moveI:
  assumes "\<And>m. m \<in> set ns \<Longrightarrow> m \<noteq> n \<Longrightarrow>
      ctl s m = ctl (pmem P) m \<or> is_gen (ctl (pmem P) m) \<and> is_env (ctl s m) \<and> offered s m \<subseteq> G m"
    and "\<And>c. issued (pool_view ns P n) c \<Longrightarrow> ctl s n = c \<Longrightarrow> ctl (pmem P) n = c"
    and "\<And>m e. m \<in> set ns \<Longrightarrow> m \<noteq> n \<Longrightarrow> e = envelope (pmem P) m (pool_view ns P m) \<Longrightarrow> envelopes s e = envelopes (pmem P) e"
    and "\<And>a l. lo = Some (a, l) \<Longrightarrow> l \<noteq> LdPtr \<Longrightarrow>
      (\<exists>l0. load_of (pcs P n) = Some (a, l0)) \<and> lvals s l \<union> offered s n \<subseteq> G n \<union> shown s a"
    and "\<And>who a h c a' l. ho = Some (who, a, h) \<Longrightarrow> hsees h = Some c \<Longrightarrow> who \<in> set ns \<Longrightarrow> who \<noteq> n \<Longrightarrow> ctl s who = c \<Longrightarrow>
      load_of (pcs P who) = Some (a', l) \<Longrightarrow> l \<noteq> LdPtr \<Longrightarrow> a' = a \<and> hgood (after s lo (G n)) (after s (Some (a', l)) (G who)) h"
  shows "seen_move ns P G n s lo ho"
proof -
  have 1: "\<forall>m\<in>set ns. m \<noteq> n \<longrightarrow> ctl s m = ctl (pmem P) m \<or> is_gen (ctl (pmem P) m) \<and> is_env (ctl s m) \<and> offered s m \<subseteq> G m"
    using assms(1) by blast
  have 2: "\<forall>c. issued (pool_view ns P n) c \<and> ctl s n = c \<longrightarrow> ctl (pmem P) n = c" using assms(2) by blast
  have 3: "\<forall>m\<in>set ns. m \<noteq> n \<longrightarrow> (let e = envelope (pmem P) m (pool_view ns P m) in envelopes s e = envelopes (pmem P) e)"
    using assms(3) by (simp add: Let_def)
  have 4: "\<forall>a l. lo = Some (a, l) \<and> l \<noteq> LdPtr \<longrightarrow> (\<exists>l0. load_of (pcs P n) = Some (a, l0)) \<and>
      lvals s l \<union> offered s n \<subseteq> G n \<union> shown s a"
    using assms(4) by blast
  have 5: "\<forall>who a h c a' l. ho = Some (who, a, h) \<and> hsees h = Some c \<and> who \<in> set ns \<and> who \<noteq> n \<and> ctl s who = c \<and>
       load_of (pcs P who) = Some (a', l) \<and> l \<noteq> LdPtr \<longrightarrow> a' = a \<and> hgood (after s lo (G n)) (after s (Some (a', l)) (G who)) h"
    using assms(5) by blast
  show ?thesis unfolding seen_move_def by (intro conjI 1 2 3 4 5)
qed

lemma seen_calm:
  assumes "ctl s = ctl (pmem P)" and "envelopes s = envelopes (pmem P)"
    and "\<And>a l. lo = Some (a, l) \<Longrightarrow> l = LdPtr" and "\<And>who a h. ho = Some (who, a, h) \<Longrightarrow> hsees h = None"
  shows "seen_move ns P G n s lo ho"
proof (rule seen_moveI)
  fix a l assume "lo = Some (a, l)" "l \<noteq> LdPtr"
  then show "(\<exists>l0. load_of (pcs P n) = Some (a, l0)) \<and> lvals s l \<union> offered s n \<subseteq> G n \<union> shown s a" using assms(3) by blast
next
  fix who a h c a' l assume "ho = Some (who, a, h)" "hsees h = Some c"
  then show "a' = a \<and> hgood (after s lo (G n)) (after s (Some (a', l)) (G who)) h" using assms(4)[of who a h] by simp
qed (simp_all add: assms(1,2))

lemma seen_unhelped: "seen_move ns P G n s lo ho \<Longrightarrow> seen_move ns P G n s lo None"
  unfolding seen_move_def by (elim conjE, intro conjI, assumption+) (simp (no_asm))

lemma after_mono: "after s (Some (a, l')) S \<subseteq> S \<union> shown s a" "after s None S = S"
  by (simp_all add: after_def)

text \<open>The next position of a load, alone or in the course of helping.\<close>

lemma seen_load:
  assumes P: "pool_ok cnt ns P" and n: "n \<in> set ns" and G: "seen_ok ns P G"
    and l: "load_of (pcs P n) = Some (a, l)" and r: "load_atom T a l (in_pool n k ws P) = (Inr l', w')"
    and lo: "lo = Some (a, l') \<or> lo = None"
    and ho: "\<And>who a1 h c. ho = Some (who, a1, h) \<Longrightarrow> hsees h = Some c \<Longrightarrow> a1 = a \<and>
      (\<exists>m j. helps_of (pcs P n) = Some (who, a, HLoad m j c l)) \<and>
      ((\<exists>m j. lo = Some (a, l') \<and> h = HLoad m j c l') \<or> (\<exists>q d. l' = LdDone q d \<and> (\<forall>A B. hgood A B h \<longleftrightarrow> q \<in> B)))"
  shows "seen_move ns P G n (sh w') lo ho"
proof -
  let ?s = "pmem P" and ?s' = "sh w'"
  have ld: "ld (pool_view ns P n) = Some (a, l)" using l by (simp add: load_of_view)
  note e = load_effect[OF pool_running[OF P n] ld r, unfolded in_pool_fields]
  have Gn: "shown ?s a \<union> lvals ?s l \<union> offered ?s n \<subseteq> G n" using G n l by (simp add: seen_ok_def)
  have sh: "shown ?s' b = shown ?s b" for b using e(1) by (simp add: shown_def)
  have vals: "lvals ?s' l' \<union> offered ?s' n \<subseteq> G n" using e(5,6) Gn by blast
  have hand: "a' = a1 \<and> hgood (after ?s' lo (G n)) (after ?s' (Some (a', l2)) (G who)) h"
    if h: "ho = Some (who, a1, h)" "hsees h = Some c" and w: "who \<in> set ns" "who \<noteq> n" "ctl ?s' who = c"
      "load_of (pcs P who) = Some (a', l2)" "l2 \<noteq> LdPtr" for who a1 h c a' l2
  proof -
    obtain m j where o: "a1 = a" "helps_of (pcs P n) = Some (who, a, HLoad m j c l)" using ho[OF h] by blast
    have c: "ctl ?s who = c" using e(3)[OF w(2)] w(3) by simp
    have "a' = a \<and> hgood (G n) (G who) (HLoad m j c l)" by (rule seen_helped[OF G n o(2) _ c w(4)]) simp
    then have a': "a' = a" "G n \<subseteq> G who" by simp_all
    have B: "after ?s' (Some (a', l2)) (G who) = G who \<union> shown ?s a" using w(5) a'(1) sh by (simp add: after_def)
    from ho[OF h] consider i u where "lo = Some (a, l')" "h = HLoad i u c l'" | q d where "l' = LdDone q d" "\<And>A B. hgood A B h \<longleftrightarrow> q \<in> B"
      by blast
    then show ?thesis
    proof cases
      case 1
      then show ?thesis unfolding B using after_mono(1)[of ?s' a l' "G n"] a' o(1) sh by auto
    next
      case 2
      then show ?thesis unfolding B 2(2) using vals a' o(1) by auto
    qed
  qed
  show ?thesis
  proof (rule seen_moveI)
    fix a2 l2 assume "lo = Some (a2, l2)" "l2 \<noteq> LdPtr"
    then show "(\<exists>l0. load_of (pcs P n) = Some (a2, l0)) \<and> lvals ?s' l2 \<union> offered ?s' n \<subseteq> G n \<union> shown ?s' a2"
      using lo l vals by auto
  next
    fix who a1 h c a' l2
    assume "ho = Some (who, a1, h)" "hsees h = Some c" "who \<in> set ns" "who \<noteq> n" "ctl ?s' who = c"
      "load_of (pcs P who) = Some (a', l2)" "l2 \<noteq> LdPtr"
    then show "a' = a1 \<and> hgood (after ?s' lo (G n)) (after ?s' (Some (a', l2)) (G who)) h" by (rule hand)
  qed (use e(2-4) in simp_all)
qed

text \<open>The next access of a helper.\<close>

lemma help_enter_still: "still (help_enter n who k c)"
  by (cases k) (auto intro!: still_bnd)

lemma yields_raise [simp]: "yields Q (raise e)"
  by (simp add: yields_def raise_def)

lemma help_enter_blind:
  fixes w :: "'v world"
  assumes "help_enter n who k c w = (Inr h', w')"
  shows "hsees h' = None \<and> hload a h' = None"
proof -
  have "yields (\<lambda>h'. hsees h' = None \<and> hload a h' = None) (help_enter n who k c :: ('v, hpc) prog)"
    by (cases k) (auto intro!: yields_bnd)
  then show ?thesis using assms unfolding yields_def by blast
qed

lemma help_quiet:
  assumes s: "solo w" and r: "help_atom T who a h w = (Inr h', w')" and h: "hsees h = None" and n: "\<And>m k c. h \<noteq> HAddr m k c"
  shows "alike (sh w) (sh w')" "hsees h' = None" "hload a h' = None"
proof -
  have st: "still (help_atom T who a h)"
    using h n by (cases h) (auto intro!: still_bnd help_enter_still)
  show "alike (sh w) (sh w')" by (rule stillD[OF st s r])
  have "hsees h' = None \<and> hload a h' = None"
    using r h n help_enter_blind
    by (cases h) (fastforce simp: bnd_apply debug_assert_def raise_def get_fuel_def split: prod.splits sum.splits if_splits)+
  then show "hsees h' = None" "hload a h' = None" by simp_all
qed

text \<open>Handing a value on from one position of the helper to the next.\<close>

lemma seen_hand_on:
  assumes P: "pool_ok cnt ns P" and n: "n \<in> set ns" and G: "seen_ok ns P G"
    and h: "helps_of (pcs P n) = Some (who, a, h)" "hsees h = Some c" and l: "hload a h' = None"
    and v: "\<And>A B A' B'. B \<subseteq> B' \<Longrightarrow> hgood A B h \<Longrightarrow> hgood A' B' h'" and c: "hsees h' = Some c"
    and s: "ctl s = ctl (pmem P)" "\<And>m. m \<in> set ns \<Longrightarrow> m \<noteq> n \<Longrightarrow>
      envelopes s (envelope (pmem P) m (pool_view ns P m)) = envelopes (pmem P) (envelope (pmem P) m (pool_view ns P m))"
  shows "seen_move ns P G n s None (Some (who, a, h'))"
proof (rule seen_moveI)
  fix who' a1 h1 c1 a' l
  assume g: "Some (who, a, h') = Some (who', a1, h1)" "hsees h1 = Some c1" "ctl s who' = c1" "load_of (pcs P who') = Some (a', l)" "l \<noteq> LdPtr"
  then have e: "who' = who" "a1 = a" "h1 = h'" "c1 = c" using c by simp_all
  have "a' = a \<and> hgood (G n) (G who) h" by (rule seen_helped[OF G n h]) (use g e s(1) in simp_all)
  then show "a' = a1 \<and> hgood (after s None (G n)) (after s (Some (a', l)) (G who')) h1"
    using v[of "G who" "after s (Some (a', l)) (G who)" "G n" "after s None (G n)"] g(5) e by (auto simp: after_def)
qed (use s in auto)

lemma seen_help_start:
  assumes P: "pool_ok cnt ns P" and n: "n \<in> set ns" and h: "helps_of (pcs P n) = Some (who, a, HAddr m k c)" and G: "seen_ok ns P G"
    and r: "help_atom T who a (HAddr m k c) (in_pool n j ws P) = (Inr h', w')"
  shows "seen_move ns P G n (sh w') (hload a h') (Some (who, a, h'))"
proof -
  have hp: "hp (pool_view ns P n) = Some (who, Seen c)" using helps_of_view[OF h, of ns] by simp
  have "help_ok (set ns) (pmem P) (pool_view ns P) n" using pool_shape[OF P] n by (simp add: shape_def)
  then have who: "who \<in> set ns" using hp by (simp add: help_ok_def)
  then have d: "who \<in> dom (nodes (pmem P))" using pool_dom[OF P] by simp
  have "pc_ok ns (dom (storage (pmem P))) n (pcs P n)" by (rule pool_pc[OF P n])
  then have c: "is_gen c" using h by (cases "pcs P n"; simp; rename_tac pp; case_tac pp; simp)+
  have r': "sh w' = pmem P" "h' = (if addr (pmem P) who \<noteq> a then HRe m k c else HLoad m k c LdPtr)"
    using r d by (auto simp: bnd_apply helping_slots_solo split: if_splits)
  show ?thesis
  proof (cases "addr (pmem P) who = a")
    case True
    show ?thesis
    proof (rule seen_moveI)
      fix who' a1 h1 c1 a' l
      assume g: "Some (who, a, h') = Some (who', a1, h1)" "hsees h1 = Some c1" "ctl (sh w') who' = c1" "load_of (pcs P who') = Some (a', l)" "l \<noteq> LdPtr"
      then have e: "who' = who" "a1 = a" "h1 = HLoad m k c LdPtr" "c1 = c" using r' True by auto
      have "is_gen (ctl (pmem P) who)" using g(3) e r'(1) c by simp
      then have "a' = a" using gen_loading[OF P who] g(4) e(1) True by (metis fst_conv option.inject)
      then show "a' = a1 \<and> hgood (after (sh w') (hload a h') (G n)) (after (sh w') (Some (a', l)) (G who')) h1"
        using e r' True g(5) by (simp add: after_def)
    next
      fix b l assume "hload a h' = Some (b, l)" "l \<noteq> LdPtr"
      then show "(\<exists>l0. load_of (pcs P n) = Some (b, l0)) \<and> lvals (sh w') l \<union> offered (sh w') n \<subseteq> G n \<union> shown (sh w') b"
        using r' True by simp
    qed (use r'(1) in auto)
  next
    case False
    then show ?thesis by (intro seen_calm) (use r' in auto)
  qed
qed

lemma helper_view:
  assumes P: "pool_ok cnt ns P" and n: "n \<in> set ns" and h: "helps_of (pcs P n) = Some (who, a, h)" and hv: "hview_of h = Some hv"
  shows "who \<in> set ns" "who \<noteq> n" "hview_ok (pmem P) n who hv" "hp (pool_view ns P n) = Some (who, hv)"
proof -
  show hp: "hp (pool_view ns P n) = Some (who, hv)" using helps_of_view[OF h, of ns] hv by simp
  have "help_ok (set ns) (pmem P) (pool_view ns P) n" using pool_shape[OF P] n by (simp add: shape_def)
  then show "who \<in> set ns" "who \<noteq> n" "hview_ok (pmem P) n who hv" using hp by (simp_all add: help_ok_def)
qed

lemma helping_load: "helps_of pc = Some (who, a, h) \<Longrightarrow> load_of pc = hload a h"
  by (cases pc; simp; rename_tac pp; case_tac pp; simp)

lemma seen_help_store:
  assumes P: "pool_ok cnt ns P" and n: "n \<in> set ns" and G: "seen_ok ns P G"
    and h: "helps_of (pcs P n) = Some (who, a, HStore m k c r th my)"
    and at: "help_atom T who a (HStore m k c r th my) (in_pool n j ws P) = (Inr h', w')"
  shows "seen_move ns P G n (sh w') None (Some (who, a, h'))"
proof -
  note hv = helper_view[OF P n h, of "Mine c th my", simplified]
  let ?e = "\<lambda>m. envelope (pmem P) m (pool_view ns P m)"
  have w': "sh w' = (pmem P)\<lparr>envelopes := (envelopes (pmem P))(my \<mapsto> r)\<rparr>" "h' = HCas m k c r th my"
    using at by (auto simp: envelope_store_def atomic_solo bnd_apply assert_that_def raise_def split: option.splits if_splits)
  have "ld (pool_view ns P n) = None" using helping_load[OF h] by (simp add: load_of_view)
  then have my: "?e n = my" using hv(3,4) by (simp add: envelope_def)
  have "inj_on ?e (set ns)" using pool_shape[OF P] by (simp add: shape_def envelopes_ok_def)
  then have other: "?e m \<noteq> my" if "m \<in> set ns" "m \<noteq> n" for m using that n my by (auto dest: inj_onD)
  have "ctl (sh w') = ctl (pmem P)" by (simp add: w'(1) ctl_def node_at_def fun_eq_iff)
  then show ?thesis
    by (intro seen_hand_on[OF P n G h]) (use w' other in auto)
qed

lemma seen_help_cas:
  assumes P: "pool_ok cnt ns P" and n: "n \<in> set ns" and G: "seen_ok ns P G"
    and h: "helps_of (pcs P n) = Some (who, a, HCas m k c r th my)"
    and at: "help_atom T who a (HCas m k c r th my) (in_pool n j ws P) = (Inr h', w')"
  shows "seen_move ns P G n (sh w') None (Some (who, a, h'))"
proof -
  note hv = helper_view[OF P n h, of "Stored c th my r", simplified]
  let ?s = "pmem P"
  have d: "who \<in> dom (nodes ?s)" using pool_dom[OF P] hv(1) by simp
  have blind: "hsees h' = None" using at by (auto simp: bnd_apply split: prod.splits sum.splits if_splits)
  show ?thesis
  proof (cases "ctl ?s who = c")
    case False
    have "sh w' = ?s" using at control_cas_at[of "in_pool n j ws P" who] d False by (simp add: bnd_apply) auto
    then show ?thesis using blind by (intro seen_calm) auto
  next
    case True
    let ?s' = "on_helping who (control_update (\<lambda>_. my OR REPLACEMENT_TAG)) ?s"
    have w': "sh w' = ?s'" using at control_cas_at[of "in_pool n j ws P" who] d True by (simp add: bnd_apply) auto
    have lV: "ld (pool_view ns P n) = None" using helping_load[OF h] by (simp add: load_of_view)
    have "envelope ?s n (pool_view ns P n) = my" using hv(3,4) lV by (simp add: envelope_def)
    then have my: "aligned4 my" using pool_shape[OF P] n by (auto simp: shape_def envelopes_ok_def)
    have g: "is_gen c" by (rule pool_sees(3)[OF P n h]) simp
    obtain a' l where l: "load_of (pcs P who) = Some (a', l)" by (rule gen_loading[OF P hv(1)]) (use True g in auto)
    have r: "r \<in> G who" using seen_helped[OF G n h _ True l] by simp
    have c': "ctl ?s' who = my OR REPLACEMENT_TAG" using on_helping_own(1)[OF d] by simp
    have e: "is_env (ctl ?s' who)" "untag (ctl ?s' who) = my"
      unfolding c' is_env_def untag_def by (rule aligned4_repl_tag[OF my], rule aligned4_untag[OF my])
    have "envelopes ?s my = Some r" using hv(3) by blast
    then have o: "offered ?s' who = {r}" unfolding offered_def e(2) using e(1) by simp
    show ?thesis
      unfolding w'
    proof (rule seen_moveI)
      fix m assume "m \<in> set ns" "m \<noteq> n"
      then show "ctl ?s' m = ctl ?s m \<or> is_gen (ctl ?s m) \<and> is_env (ctl ?s' m) \<and> offered ?s' m \<subseteq> G m"
        using e(1) o r g True by (cases "m = who") simp_all
    qed (use blind hv(2) in simp_all)
  qed
qed

text \<open>All positions of a helper.\<close>

lemma seen_help:
  assumes P: "pool_ok cnt ns P" and n: "n \<in> set ns" and G: "seen_ok ns P G" and h: "helps_of (pcs P n) = Some (who, a, h)"
    and at: "help_atom T who a h (in_pool n k ws P) = (Inr h', w')"
  shows "seen_move ns P G n (sh w') (hload a h') (Some (who, a, h'))"
proof (cases h)
  case (HAddr m j c)
  show ?thesis by (rule seen_help_start[OF P n h[unfolded HAddr] G at[unfolded HAddr]])
next
  case (HLoad m j c l)
  have l: "load_of (pcs P n) = Some (a, l)" using helping_load[OF h] HLoad by simp
  obtain l' where l': "load_atom T a l (in_pool n k ws P) = (Inr l', w')" "h' = help_load m j c l'"
    using at HLoad by (auto simp: bnd_apply split: prod.splits sum.splits)
  show ?thesis
  proof (cases "load_done l'")
    case True
    then obtain q d where q: "l' = LdDone q d" by (cases l') simp_all
    have "hload a h' = None" "hsees h' = Some c" "hgood A B h' \<longleftrightarrow> q \<in> B" for A B
      using l'(2) q by (cases d; simp add: into_start_def)+
    then show ?thesis using h HLoad q by (intro seen_load[OF P n G l l'(1)]) auto
  next
    case False
    then have h': "h' = HLoad m j c l'" using l'(2) by (cases l') simp_all
    show ?thesis using h HLoad h' by (intro seen_load[OF P n G l l'(1)]) auto
  qed
next
  case (HInto m j c i)
  obtain i' where i': "into_atom T i (in_pool n k ws P) = (Inr i', w')" "h' = help_into m j c i'"
    using at HInto by (auto simp: bnd_apply split: prod.splits sum.splits)
  have "still (into_atom T i)" by (cases i) (auto intro!: still_bnd)
  from stillD[OF this in_pool_fields(3) i'(1)] have "alike (pmem P) (sh w')" by simp
  moreover have "ipc_val i' = ipc_val i" using i'(1) by (cases i) (auto simp: bnd_apply split: prod.splits sum.splits if_splits)
  moreover have "hload a h' = None" "hsees h' = Some c" "hgood A B h' \<longleftrightarrow> ipc_val i' \<in> B" for A B
    using i'(2) by (cases i'; simp)+
  ultimately show ?thesis
    using h HInto by (auto intro!: seen_hand_on[OF P n G h[unfolded HInto], where c = c] simp: alike_def)
next
  case (HTheir m j c r)
  obtain x where x: "alike (pmem P) (sh w')" "h' = HMine m j c r x"
    using at HTheir stillD[OF still_fields(3), of "in_pool n k ws P"] by (auto simp: bnd_apply split: prod.splits sum.splits)
  have keep: "hgood A B h \<Longrightarrow> B \<subseteq> B' \<Longrightarrow> hgood A' B' h'" for A B A' B' using x(2) HTheir by auto
  have "seen_move ns P G n (sh w') None (Some (who, a, h'))"
    by (rule seen_hand_on[OF P n G h, where c = c]) (use x HTheir keep in \<open>simp_all add: alike_def\<close>)
  then show ?thesis using x(2) by simp
next
  case (HMine m j c r th)
  obtain x where x: "alike (pmem P) (sh w')" "h' = HStore m j c r th x"
    using at HMine stillD[OF still_fields(3), of "in_pool n k ws P"] by (auto simp: bnd_apply split: prod.splits sum.splits)
  have keep: "hgood A B h \<Longrightarrow> B \<subseteq> B' \<Longrightarrow> hgood A' B' h'" for A B A' B' using x(2) HMine by auto
  have "seen_move ns P G n (sh w') None (Some (who, a, h'))"
    by (rule seen_hand_on[OF P n G h, where c = c]) (use x HMine keep in \<open>simp_all add: alike_def\<close>)
  then show ?thesis using x(2) by simp
next
  case (HStore m j c r th my)
  have "hload a h' = None" using at HStore by (auto simp: bnd_apply split: prod.splits sum.splits)
  then show ?thesis using seen_help_store[OF P n G h[unfolded HStore] at[unfolded HStore]] by simp
next
  case (HCas m j c r th my)
  have "hload a h' = None" using at HCas by (auto simp: bnd_apply split: prod.splits sum.splits if_splits)
  then show ?thesis using seen_help_cas[OF P n G h[unfolded HCas] at[unfolded HCas]] by simp
qed (use help_quiet[OF _ at] in \<open>auto intro!: seen_calm simp: alike_def\<close>)

text \<open>The walk of a writer.\<close>

lemma pay_pos_of: "pay_pos pc = Some (a, p, pp) \<Longrightarrow> load_of pc = pay_load a pp \<and> helps_of pc = pay_helps a pp"
  by (cases pc) simp_all

lemma pay_at_quiet: "still (pay_at k cur)" "yields (\<lambda>pp. pay_load a pp = None \<and> pay_helps a pp = None) (pay_at k cur)"
  by (cases k; auto)+

lemma slot_at_quiet [simp]: "pay_load a (slot_at k cur ds) = None" "pay_helps a (slot_at k cur ds) = None"
  by (cases ds; simp)+

lemma pay_atom_quiet:
  fixes w :: "'v world"
  assumes s: "solo w" and r: "pay_atom T p a pp w = (Inr pp', w')" and h: "pay_helps a pp = None"
  shows "alike (sh w) (sh w')" "pay_load a pp' = None" "pay_helps a pp' = Some (who, b, h) \<Longrightarrow> hsees h = None"
proof -
  have "still (atomic (\<lambda>s. Inr ((list_head s, node_cnt s), s)) :: ('v, usize \<times> nat) prog)" by (rule still_atomic) auto
  then have "still (pay_atom T p a pp)"
    using h by (cases pp) (auto intro!: still_bnd pay_at_quiet(1) split: prod.splits)
  from stillD[OF this s r] show "alike (sh w) (sh w')" .
  have "yields (\<lambda>pp. pay_load a pp = None \<and> (\<forall>who b h. pay_helps a pp = Some (who, b, h) \<longrightarrow> hsees h = None)) (pay_at k cur :: ('v, ppc) prog)" for k cur
    by (cases k) auto
  then have "yields (\<lambda>pp. pay_load a pp = None \<and> (\<forall>who b h. pay_helps a pp = Some (who, b, h) \<longrightarrow> hsees h = None)) (pay_atom T p a pp)"
    using h by (cases pp) (auto intro!: yields_bnd split: prod.splits)
  then have "pay_load a pp' = None \<and> (\<forall>who b h. pay_helps a pp' = Some (who, b, h) \<longrightarrow> hsees h = None)"
    using r unfolding yields_def by blast
  then show "pay_load a pp' = None" "pay_helps a pp' = Some (who, b, h) \<Longrightarrow> hsees h = None" by blast+
qed

lemma seen_pay:
  assumes P: "pool_ok cnt ns P" and n: "n \<in> set ns" and G: "seen_ok ns P G" and pp: "pay_pos (pcs P n) = Some (a, p, pp)"
    and at: "pay_atom T p a pp (in_pool n k ws P) = (Inr pp', w')"
  shows "seen_move ns P G n (sh w') (pay_load a pp') (pay_helps a pp')"
proof (cases "\<exists>j cur h. pp = PHelp j cur h")
  case True
  then obtain j cur h where h: "pp = PHelp j cur h" by blast
  obtain h' where h': "help_atom T cur a h (in_pool n k ws P) = (Inr h', w')" "pp' = pay_help j cur h'"
    using at h by (auto simp: bnd_apply split: prod.splits sum.splits)
  have "helps_of (pcs P n) = Some (cur, a, h)" using pay_pos_of[OF pp] h by simp
  from seen_help[OF P n G this h'(1)] have m: "seen_move ns P G n (sh w') (hload a h') (Some (cur, a, h'))" .
  then show ?thesis using h'(2) seen_unhelped[OF m] by (cases "h' = HDone") (simp_all add: pay_help_def)
next
  case False
  then have "pay_helps a pp = None" by (cases pp) auto
  note q = pay_atom_quiet[OF in_pool_fields(3) at this]
  show ?thesis by (rule seen_calm) (use q in \<open>auto simp: alike_def\<close>)
qed

section \<open>Every step of the pool\<close>

lemma seen_position:
  assumes P: "pool_ok cnt ns P" and n: "n \<in> set ns" and G: "seen_ok ns P G"
    and at: "thread_atom T (pcs P n) (in_pool n k ws P) = (Inr c, w)"
  shows "seen_move ns P G n (sh w) (load_of c) (helps_of c)"
proof -
  have calm: "seen_move ns P G n (sh w) (load_of c) (helps_of c)"
    if "ctl (sh w) = ctl (pmem P)" "envelopes (sh w) = envelopes (pmem P)" "helps_of c = None" "\<And>a l. load_of c = Some (a, l) \<Longrightarrow> l = LdPtr"
    by (rule seen_calm) (use that in auto)
  have quiet: "seen_move ns P G n (sh w) (load_of c) (helps_of c)"
    if "still (thread_atom T (pcs P n))"
      "yields (\<lambda>c. helps_of c = None \<and> (\<forall>a l. load_of c = Some (a, l) \<longrightarrow> l = LdPtr)) (thread_atom T (pcs P n))"
  proof -
    have "helps_of c = None \<and> (\<forall>a l. load_of c = Some (a, l) \<longrightarrow> l = LdPtr)" using that(2) at unfolding yields_def by blast
    then show ?thesis using stillD[OF that(1) in_pool_fields(3) at] by (intro calm) (auto simp: alike_def)
  qed
  have retry: "still (cas_retry j a e q)" "yields (\<lambda>c. helps_of c = None \<and> (\<forall>a l. load_of c = Some (a, l) \<longrightarrow> l = LdPtr)) (cas_retry j a e q)" for j a e q
    by (cases j; simp)+
  show ?thesis
  proof (cases "pcs P n")
    case (Loading a l)
    obtain l' where l': "load_atom T a l (in_pool n k ws P) = (Inr l', w)" "c = loading a l'"
      using at Loading by (auto simp: bnd_apply split: prod.splits sum.splits)
    have "load_of c = Some (a, l') \<or> load_of c = None" "helps_of c = None" using l'(2) by (cases l'; simp)+
    then show ?thesis using Loading by (intro seen_load[OF P n G _ l'(1)]) auto
  next
    case (CasLoad j a e q l)
    obtain l' where l': "load_atom T a l (in_pool n k ws P) = (Inr l', w)" "c = cas_load j a e q l'"
      using at CasLoad by (auto simp: bnd_apply split: prod.splits sum.splits)
    have "load_of c = Some (a, l') \<or> load_of c = None" "helps_of c = None" using l'(2) by (cases l'; simp)+
    then show ?thesis using CasLoad by (intro seen_load[OF P n G _ l'(1)]) auto
  next
    case (Paying a p pp)
    obtain pp' where p': "pay_atom T p a pp (in_pool n k ws P) = (Inr pp', w)" "c = paying a p pp'"
      using at Paying by (auto simp: bnd_apply split: prod.splits sum.splits)
    have "load_of c = pay_load a pp'" "helps_of c = pay_helps a pp'" using p'(2) by (cases pp'; simp)+
    then show ?thesis using seen_pay[OF P n G _ p'(1)] Paying by simp
  next
    case (CasPay a p d pp)
    obtain pp' where p': "pay_atom T p a pp (in_pool n k ws P) = (Inr pp', w)" "c = cas_pay a p d pp'"
      using at CasPay by (auto simp: bnd_apply split: prod.splits sum.splits)
    have "load_of c = pay_load a pp'" "helps_of c = pay_helps a pp'" using p'(2) by (cases pp'; simp)+
    then show ?thesis using seen_pay[OF P n G _ p'(1)] CasPay by simp
  next
    case (Swapping a q)
    show ?thesis
      by (rule calm; use at Swapping in \<open>auto simp: bnd_apply storage_swap_def storage_rmw_def atomic_solo ctl_def node_at_def
          split: option.splits\<close>)
  next
    case (CasTry j a e q p d)
    show ?thesis
      by (rule calm; use at CasTry in \<open>auto simp: bnd_apply storage_cas_weak_def spurious_def storage_rmw_def atomic_solo ctl_def node_at_def
          split: option.splits list.splits if_splits\<close>)
  next
    case (Redeeming i)
    have "still (into_atom T i)" by (cases i) (auto intro!: still_bnd)
    moreover have "load_of (redeeming i') = None" "helps_of (redeeming i') = None" for i' by (cases i'; simp)+
    ultimately show ?thesis by (intro quiet) (auto simp: Redeeming intro!: still_bnd yields_bnd)
  qed (rule quiet; auto intro!: still_bnd yields_bnd retry)+
qed

lemma first_pc_quiet: "helps_of (first_pc r) = None" "load_of (first_pc r) = Some (a, l) \<Longrightarrow> l = LdPtr"
proof -
  have "helps_of (first_pc r) = None \<and> (\<forall>a l. load_of (first_pc r) = Some (a, l) \<longrightarrow> l = LdPtr)"
  proof (cases r)
    case (Release h)
    then show ?thesis by (cases "snd h") simp_all
  next
    case (Redeem h)
    then show ?thesis by (cases "snd h") (simp_all add: into_start_def)
  qed simp_all
  then show "helps_of (first_pc r) = None" "load_of (first_pc r) = Some (a, l) \<Longrightarrow> l = LdPtr" by blast+
qed

lemma heap_fields_eq: "ctl (s\<lparr>heap := h\<rparr>) = ctl s"
  by (simp add: ctl_def node_at_def fun_eq_iff)

lemma seen_pstep:
  assumes P: "pool_ok cnt ns P" and Q: "pool_ok cnt ns Q" and G: "seen_ok ns P G" and st: "pstep T P Q"
  shows "seen_ok ns Q (seen_after Q G)"
  using st
proof cases
  case (run n k ws c w)
  have n: "n \<in> set ns" using run(2) pool_nodes[OF P] by (simp add: may_run_def)
  show ?thesis
    by (rule seen_step[OF P Q n _ G]) (use seen_position[OF P n G run(3)] run(1) in \<open>simp_all add: after_run_def\<close>)
next
  case (call n r)
  then have n: "n \<in> set ns" using pool_nodes[OF P] by blast
  show ?thesis
    by (rule seen_step[OF P Q n _ G]; (rule seen_calm)?) (use call(1) first_pc_quiet in auto)
next
  case (return n K)
  then have n: "n \<in> set ns" using pool_nodes[OF P] by blast
  show ?thesis
    by (rule seen_step[OF P Q n _ G]; (rule seen_calm)?) (use return(1) in auto)
next
  case (clone n p x k ws y w)
  then have n: "n \<in> set ns" using pool_nodes[OF P] by blast
  have a: "alike (pmem P) (sh w)" using stillD[OF still_heap(4) in_pool_fields(3) clone(5)] by simp
  show ?thesis
    by (rule seen_step[OF P Q n _ G]; (rule seen_calm)?) (use clone(1,3) a in \<open>auto simp: alike_def\<close>)
next
  case (alloc n q v)
  then have n: "n \<in> set ns" using pool_nodes[OF P] by blast
  show ?thesis
    by (rule seen_step[OF P Q n _ G]; (rule seen_calm)?) (use alloc(1,3) in \<open>auto simp: heap_fields_eq\<close>)
next
  case (null n)
  then have n: "n \<in> set ns" using pool_nodes[OF P] by blast
  show ?thesis
    by (rule seen_step[OF P Q n _ G]; (rule seen_calm)?) (use null(1,3) in auto)
next
  case (place n q a k ws b w)
  then have n: "n \<in> set ns" using pool_nodes[OF P] by blast
  have "ctl (sh w) = ctl (pmem P)" "envelopes (sh w) = envelopes (pmem P)"
    using place(5) by (auto simp: any_new_solo ctl_def node_at_def fun_eq_iff split: option.splits)
  then have "seen_move ns P G n (pmem Q) (load_of (pcs Q n)) (helps_of (pcs Q n))"
    using place(1,3) by (intro seen_calm) auto
  then show ?thesis by (rule seen_step[OF P Q n _ G, rotated]) (simp add: place(1))
qed

context shared_cnt
begin

lemma interleaved_seen: "interleaved T P \<Longrightarrow> \<exists>ns G. pool_ok cnt ns P \<and> seen_ok ns P G"
proof (induction rule: interleaved.induct)
  case (start bs as)
  have "pool_ok cnt (map fst bs) (pool_boot bs as)" by (rule pool_boot_ok[OF start _ refl]) (rule cnt_empty)
  moreover have "seen_ok (map fst bs) (pool_boot bs as) G" for G
    by (simp add: seen_ok_def helped_well_def pool_boot_def)
  ultimately show ?case by blast
next
  case (step P Q)
  then obtain ns G where "pool_ok cnt ns P" "seen_ok ns P G" by blast
  then show ?case using pool_step[of ns P Q] seen_pstep[of cnt ns P Q G] step.hyps(2) by blast
qed

end

end
