(* ===== verification/CallWindow.thy ===== *)
theory CallWindow
  imports LoadWindow
begin

unbundle bit_operations_syntax

text \<open>
  Loads, swaps and compare-and-swaps from their call to their return. A window collects the values the storage has
  shown since the call and the exchanges the call itself has made. A load returns one of these values
  and exchanges nothing; a swap makes one exchange and returns what it took out; a compare-and-swap
  returns one of the values and has made its one exchange exactly when that value is the expected one. So each of
  them takes effect at one moment between call and return.
\<close>

section \<open>Windows\<close>

fun under_way :: "pc \<Rightarrow> bool" where
  "under_way Idle \<longleftrightarrow> False"
| "under_way (Done K) \<longleftrightarrow> False"
| "under_way _ \<longleftrightarrow> True"

text \<open>The positions before and after the exchange of a swap and of a compare-and-swap.\<close>

fun about_to_exchange :: "pc \<Rightarrow> bool" where
  "about_to_exchange (Swapping a q) \<longleftrightarrow> True"
| "about_to_exchange (CasTry k a c q p d) \<longleftrightarrow> True"
| "about_to_exchange _ \<longleftrightarrow> False"

fun has_exchanged :: "pc \<Rightarrow> bool" where
  "has_exchanged (Paying a p pp) \<longleftrightarrow> True"
| "has_exchanged (CasPay a p d pp) \<longleftrightarrow> True"
| "has_exchanged _ \<longleftrightarrow> False"

text \<open>The exchange a step of the pool is for the thread \<open>n\<close>: what the storage held before and after.\<close>

definition exchange :: "usize \<Rightarrow> usize \<Rightarrow> 'v pool \<Rightarrow> 'v pool \<Rightarrow> (usize \<times> usize) list" where
  "exchange n a P Q =
     (if about_to_exchange (pcs P n) \<and> has_exchanged (pcs Q n)
      then [(the (storage (pmem P) a), the (storage (pmem Q) a))] else [])"

text \<open>Thread \<open>n\<close> has called \<open>r\<close>; \<open>S\<close> are the values the storage has had since then, up to the end of the call, \<open>E\<close> the
  exchanges of the call.\<close>

inductive call_window :: "('t, 'v) RefCnt \<Rightarrow> usize \<Rightarrow> request \<Rightarrow> usize set \<Rightarrow> (usize \<times> usize) list \<Rightarrow> 'v pool \<Rightarrow> bool"
  for T n r where
  called: "interleaved T P \<Longrightarrow> nodes (pmem P) n \<noteq> None \<Longrightarrow> pcs P n = Idle \<Longrightarrow> may_request r P \<Longrightarrow> target r = Some a \<Longrightarrow>
    call_window T n r (shown (pmem P) a) [] (P\<lparr>pcs := (pcs P)(n := first_pc r), phnd := phnd P - consumed r\<rparr>)"
| during: "call_window T n r S E P \<Longrightarrow> target r = Some a \<Longrightarrow> under_way (pcs P n) \<Longrightarrow> pstep T P Q \<Longrightarrow>
    call_window T n r (S \<union> shown (pmem Q) a) (E @ exchange n a P Q) Q"

text \<open>Windows along a schedule.\<close>

fun busy_on :: "('t, 'v) RefCnt \<Rightarrow> usize \<Rightarrow> 'v move list \<Rightarrow> 'v pool \<Rightarrow> bool" where
  "busy_on T n [] P \<longleftrightarrow> True"
| "busy_on T n (m # ms) P \<longleftrightarrow> under_way (pcs P n) \<and> busy_on T n ms (make_move T m P)"

lemma window_run:
  "call_window T n r S E P \<Longrightarrow> target r = Some a \<Longrightarrow> busy_on T n ms P \<Longrightarrow> \<exists>S' E'. call_window T n r S' E' (run_moves T ms P)"
proof (induction ms arbitrary: S E P)
  case (Cons m ms)
  have "under_way (pcs P n)" using Cons.prems(3) by simp
  then have "\<exists>S' E'. call_window T n r S' E' (make_move T m P)"
    using move_step[of T m P] Cons.prems(1) call_window.during[OF Cons.prems(1,2)] by metis
  then show ?case using Cons.IH Cons.prems(2,3) by (auto simp: run_moves_def)
qed (auto simp: run_moves_def)

section \<open>What a call has done so far\<close>

text \<open>For each position of a call: the values it has in hand are among those the storage has shown, and which
  exchanges it has made. \<open>G\<close> are the values shown since the start of the load that the position may be in.\<close>

fun load_way :: "usize \<Rightarrow> usize set \<Rightarrow> usize set \<Rightarrow> (usize \<times> usize) list \<Rightarrow> pc \<Rightarrow> bool" where
  "load_way a S G E (Loading b l) \<longleftrightarrow> b = a \<and> G \<subseteq> S \<and> E = []"
| "load_way a S G E (Done K) \<longleftrightarrow> E = [] \<and> (\<exists>p d. K = {#(p, d)#} \<and> p \<in> S)"
| "load_way a S G E _ \<longleftrightarrow> False"

fun swap_way :: "usize \<Rightarrow> usize \<Rightarrow> usize set \<Rightarrow> usize set \<Rightarrow> (usize \<times> usize) list \<Rightarrow> pc \<Rightarrow> bool" where
  "swap_way a q S G E (Swapping b x) \<longleftrightarrow> b = a \<and> x = q \<and> E = []"
| "swap_way a q S G E (Paying b p pp) \<longleftrightarrow> b = a \<and> E = [(p, q)] \<and> p \<in> S"
| "swap_way a q S G E (Done K) \<longleftrightarrow> (\<exists>p. K = {#(p, None)#} \<and> E = [(p, q)] \<and> p \<in> S)"
| "swap_way a q S G E _ \<longleftrightarrow> False"

fun cas_way :: "usize \<Rightarrow> usize \<Rightarrow> usize \<Rightarrow> usize set \<Rightarrow> usize set \<Rightarrow> (usize \<times> usize) list \<Rightarrow> pc \<Rightarrow> bool" where
  "cas_way a c q S G E (CasLoad k b e x l) \<longleftrightarrow> b = a \<and> e = c \<and> x = q \<and> E = [] \<and> G \<subseteq> S"
| "cas_way a c q S G E (CasMiss x p d) \<longleftrightarrow> E = [] \<and> p \<noteq> c \<and> p \<in> S"
| "cas_way a c q S G E (CasTry k b e x p d) \<longleftrightarrow> b = a \<and> e = c \<and> x = q \<and> E = [] \<and> p = c \<and> p \<in> S"
| "cas_way a c q S G E (CasPay b p d pp) \<longleftrightarrow> b = a \<and> E = [(c, q)] \<and> p = c \<and> p \<in> S"
| "cas_way a c q S G E (CasDec p d) \<longleftrightarrow> E = [(c, q)] \<and> p = c \<and> p \<in> S"
| "cas_way a c q S G E (CasRel k b e x p d) \<longleftrightarrow> b = a \<and> e = c \<and> x = q \<and> E = []"
| "cas_way a c q S G E (CasFree k b e x p) \<longleftrightarrow> b = a \<and> e = c \<and> x = q \<and> E = []"
| "cas_way a c q S G E (Done K) \<longleftrightarrow> (\<exists>p d. K = {#(p, d)#} \<and> p \<in> S \<and> E = (if p = c then [(c, q)] else []))"
| "cas_way a c q S G E _ \<longleftrightarrow> False"

fun on_way :: "request \<Rightarrow> usize set \<Rightarrow> usize set \<Rightarrow> (usize \<times> usize) list \<Rightarrow> pc \<Rightarrow> bool" where
  "on_way (LoadAt a) = load_way a"
| "on_way (SwapAt a q) = swap_way a q"
| "on_way (CasAt k a c q) = cas_way a c q"
| "on_way _ = (\<lambda>S G E pc. True)"

text \<open>The storage shows more values, the thread stays.\<close>

lemma on_way_stays:
  "on_way r S G E pc \<Longrightarrow> S \<subseteq> S' \<Longrightarrow> (G \<subseteq> S \<Longrightarrow> G' \<subseteq> S') \<Longrightarrow> on_way r S' G' E pc"
  by (cases r; cases pc) auto

lemma pay_load_at: "pay_load a pp = Some (b, l) \<Longrightarrow> b = a"
  by (cases pp; simp; rename_tac h; case_tac h; simp)

lemma seen_after_bound:
  assumes "load_of (pcs Q n) = Some (a, l)" and "l = LdPtr \<or> G n \<subseteq> S"
  shows "seen_after Q G n \<subseteq> S \<union> shown (pmem Q) a"
  using assms by (auto simp: seen_after_def after_def split: if_splits)

text \<open>A step leaves a thread in the middle of a call where it is, or is its next access.\<close>

lemma busy_step:
  assumes "pstep T P Q" and "under_way (pcs P n)"
  shows "pcs Q n = pcs P n \<or>
    (\<exists>k ws w. thread_atom T (pcs P n) (in_pool n k ws P) = (Inr (pcs Q n), w) \<and> pmem Q = sh w)"
  using assms(1)
proof cases
  case (run m k ws c w)
  then show ?thesis by (cases "m = n") (auto simp: after_run_def)
qed (use assms(2) in auto)

lemma exchange_stays: "pcs Q n = pcs P n \<Longrightarrow> exchange n a P Q = []"
  by (cases "pcs P n") (simp_all add: exchange_def)

section \<open>One access of a call\<close>

definition in_window :: "('v heap \<Rightarrow> usize \<Rightarrow> nat) \<Rightarrow> usize \<Rightarrow> request \<Rightarrow> usize set \<Rightarrow> (usize \<times> usize) list \<Rightarrow> 'v pool \<Rightarrow>
    usize list \<Rightarrow> (usize \<Rightarrow> usize set) \<Rightarrow> bool" where
  "in_window cnt n r S E P ns G \<longleftrightarrow> pool_ok cnt ns P \<and> seen_ok ns P G \<and> n \<in> set ns \<and>
     (\<forall>a. target r = Some a \<longrightarrow> shown (pmem P) a \<subseteq> S) \<and> on_way r S (G n) E (pcs P n)"

lemma exchange_taken:
  assumes "storage s a = Some p" and "storage s' a = Some q"
    and "about_to_exchange (pcs P n)" "has_exchanged (pcs Q n)" "pmem P = s" "pmem Q = s'"
  shows "exchange n a P Q = [(p, q)]"
  using assms by (simp add: exchange_def)

lemma no_exchange: "\<not> about_to_exchange (pcs P n) \<or> \<not> has_exchanged (pcs Q n) \<Longrightarrow> exchange n a P Q = []"
  by (auto simp: exchange_def)

lemma not_exchanging [simp]:
  "\<not> has_exchanged (loading a l)" "\<not> has_exchanged (cas_load k a c q l)"
  by (cases l; simp)+

text \<open>The values a load has in hand after its next access.\<close>

lemma load_vals:
  assumes "pool_ok cnt ns P" and "seen_ok ns P G" and "n \<in> set ns" and l: "load_of (pcs P n) = Some (a, l)"
    and r: "load_atom T a l (in_pool n k ws P) = (Inr l', w)" and "G n \<subseteq> S"
  shows "lvals (sh w) l' \<subseteq> S"
proof -
  have "lvals (sh w) l' \<subseteq> lvals (pmem P) l \<union> shown (pmem P) a \<union> offered (pmem P) n"
    using load_effect(6)[OF pool_running[OF assms(1,3)] _ r] l by (simp add: load_of_view)
  also have "\<dots> \<subseteq> G n" using assms(2,3) l by (fastforce simp: seen_ok_def)
  finally show ?thesis using assms(6) by blast
qed

lemma load_way_step:
  assumes "load_way a S G E (Loading b l)" and "lvals s l' \<subseteq> S" and "\<not> load_done l' \<Longrightarrow> G' \<subseteq> S'" and "S \<subseteq> S'"
  shows "load_way a S' G' E (loading b l')"
  using assms by (cases l') auto

lemma cas_load_way_step:
  assumes "cas_way a c q S G E (CasLoad k b e x l)" and "lvals s l' \<subseteq> S" and "\<not> load_done l' \<Longrightarrow> G' \<subseteq> S'" and "S \<subseteq> S'"
  shows "cas_way a c q S' G' E (cas_load k b e x l')"
  using assms by (cases l') auto

text \<open>One access of the thread itself, for each kind of call.\<close>

lemma own_load:
  assumes P: "pool_ok cnt ns P" "seen_ok ns P G" "n \<in> set ns" and W: "load_way a S (G n) E (pcs P n)" and u: "under_way (pcs P n)"
    and at: "thread_atom T (pcs P n) (in_pool n k ws P) = (Inr (pcs Q n), w)" and s: "pmem Q = sh w"
  shows "load_way a (S \<union> shown (pmem Q) a) (seen_after Q G n) (E @ exchange n a P Q) (pcs Q n)"
proof -
  obtain l where l: "pcs P n = Loading a l" and G: "G n \<subseteq> S" using W u by (cases "pcs P n") auto
  obtain l' where l': "load_atom T a l (in_pool n k ws P) = (Inr l', w)" "pcs Q n = loading a l'"
    using at l by (auto simp: bnd_apply split: prod.splits sum.splits)
  have "lvals (sh w) l' \<subseteq> S" using load_vals[OF P _ l'(1) G] l by simp
  moreover have "load_way a S (G n) E (Loading a l)" using W l by simp
  moreover have "seen_after Q G n \<subseteq> S \<union> shown (pmem Q) a" if "\<not> load_done l'"
    by (rule seen_after_bound[of Q n a l']) (use that l'(2) G in \<open>cases l'; simp\<close>)+
  ultimately show ?thesis unfolding l'(2) using l
    by (simp add: no_exchange) (rule load_way_step, auto)
qed

lemma own_swap:
  assumes W: "swap_way a q S G E (pcs P n)" and u: "under_way (pcs P n)" and a: "shown (pmem P) a \<subseteq> S"
    and at: "thread_atom T (pcs P n) (in_pool n k ws P) = (Inr (pcs Q n), w)" and s: "pmem Q = sh w"
  shows "swap_way a q (S \<union> shown (pmem Q) a) G' (E @ exchange n a P Q) (pcs Q n)"
proof (cases "pcs P n")
  case (Swapping b x)
  then have b: "b = a" "x = q" "E = []" using W by simp_all
  obtain p where p: "storage (pmem P) a = Some p" "pcs Q n = Paying a p PInc" "storage (sh w) a = Some q"
    using at Swapping b by (auto simp: bnd_apply storage_swap_def storage_rmw_def atomic_solo split: option.splits)
  then have "exchange n a P Q = [(p, q)]" using Swapping s by (simp add: exchange_def)
  then show ?thesis using b p a by (auto simp: shown_def)
next
  case (Paying b p pp)
  then obtain pp' where p': "pcs Q n = paying b p pp'"
    using at by (auto simp: bnd_apply dest!: sym[of _ "pcs Q n"] split: prod.splits sum.splits)
  have "exchange n a P Q = []" using Paying by (simp add: no_exchange)
  then show ?thesis using W Paying unfolding p' by (cases pp') auto
qed (use W u in auto)

lemma own_cas:
  assumes P: "pool_ok cnt ns P" "seen_ok ns P G" "n \<in> set ns" and W: "cas_way a c q S (G n) E (pcs P n)" and u: "under_way (pcs P n)"
    and a: "shown (pmem P) a \<subseteq> S"
    and at: "thread_atom T (pcs P n) (in_pool n k ws P) = (Inr (pcs Q n), w)" and s: "pmem Q = sh w"
  shows "cas_way a c q (S \<union> shown (pmem Q) a) (seen_after Q G n) (E @ exchange n a P Q) (pcs Q n)"
proof -
  have again: ?thesis if r: "cas_retry j a c q w0 = (Inr (pcs Q n), w)" and e: "E = []" "exchange n a P Q = []" for j w0
  proof -
    obtain i where "pcs Q n = CasLoad i a c q LdPtr" using r by (cases j) (auto dest!: sym[of _ "pcs Q n"])
    then show ?thesis using e seen_after_bound[of Q n a LdPtr G S] by simp
  qed
  show ?thesis
  proof (cases "pcs P n")
    case (CasLoad j b e x l)
    then have b: "b = a" "e = c" "x = q" "E = []" and G: "G n \<subseteq> S" using W by simp_all
    obtain l' where l': "load_atom T a l (in_pool n k ws P) = (Inr l', w)" "pcs Q n = cas_load j a c q l'"
      using at CasLoad b by (auto simp: bnd_apply split: prod.splits sum.splits)
    have "lvals (sh w) l' \<subseteq> S" using load_vals[OF P _ l'(1) G] CasLoad b by simp
    moreover have "cas_way a c q S (G n) E (CasLoad j a c q l)" using b G by simp
    moreover have "seen_after Q G n \<subseteq> S \<union> shown (pmem Q) a" if "\<not> load_done l'"
      by (rule seen_after_bound[of Q n a l']) (use that l'(2) G in \<open>cases l'; simp\<close>)+
    ultimately show ?thesis unfolding l'(2) using CasLoad
      by (simp add: no_exchange) (rule cas_load_way_step, auto)
  next
    case (CasMiss x p d)
    then have "pcs Q n = Done {#(p, d)#}" using at by (auto simp: bnd_apply split: prod.splits sum.splits)
    then show ?thesis using W CasMiss by (auto simp: no_exchange)
  next
    case (CasTry j b e x p d)
    then have b: "b = a" "e = c" "x = q" "E = []" "p = c" "p \<in> S" using W by auto
    obtain v where v: "storage (pmem P) a = Some v"
      using at CasTry b by (auto simp: bnd_apply storage_cas_weak_def spurious_def storage_rmw_def atomic_solo split: option.splits list.splits)
    show ?thesis
    proof (rule storage_cas_weak_cases[of "in_pool n k ws P" a v c q])
      fix ws' assume r: "storage_cas_weak a c q (in_pool n k ws P) = (Inr False, (in_pool n k ws P)\<lparr>weak_cas := ws'\<rparr>)"
      then show ?thesis using at CasTry b
        by (cases d) (auto simp: bnd_apply no_exchange dest!: sym[of _ "pcs Q n"])
    next
      fix ws' assume r: "v = c" "storage_cas_weak a c q (in_pool n k ws P) = (Inr True,
          (in_pool n k ws P)\<lparr>weak_cas := ws', sh := (sh (in_pool n k ws P))\<lparr>storage := (storage (sh (in_pool n k ws P)))(a \<mapsto> q)\<rparr>\<rparr>)"
      then have q: "pcs Q n = CasPay a p d PInc" "storage (pmem Q) a = Some q"
        using at CasTry b s by (auto simp: bnd_apply)
      then have "exchange n a P Q = [(c, q)]" using CasTry v r(1) by (simp add: exchange_def)
      then show ?thesis using q b by simp
    qed (simp_all add: v)
  next
    case (CasPay b p d pp)
    then obtain pp' where p': "pcs Q n = cas_pay b p d pp'"
      using at by (auto simp: bnd_apply dest!: sym[of _ "pcs Q n"] split: prod.splits sum.splits)
    have "exchange n a P Q = []" using CasPay by (simp add: no_exchange)
    then show ?thesis using W CasPay unfolding p' by (cases pp') auto
  next
    case (CasDec p d)
    then have "pcs Q n = Done {#(p, d)#}" using at by (auto simp: bnd_apply split: prod.splits sum.splits)
    then show ?thesis using W CasDec by (auto simp: no_exchange)
  next
    case (CasRel j b e x p d)
    then have b: "b = a" "e = c" "x = q" "E = []" and no: "exchange n a P Q = []" using W by (simp_all add: no_exchange)
    show ?thesis
    proof (cases "\<exists>w0. pay d p (in_pool n k ws P) = (Inr True, w0)")
      case True
      then obtain w0 where "cas_retry j a c q w0 = (Inr (pcs Q n), w)" using at CasRel b by (auto simp: bnd_apply)
      then show ?thesis using again b(4) no by blast
    next
      case False
      then have "pcs Q n = CasFree j a c q p" using at CasRel b by (auto simp: bnd_apply split: prod.splits sum.splits if_splits)
      then show ?thesis using b no by simp
    qed
  next
    case (CasFree j b e x p)
    then have b: "b = a" "e = c" "x = q" "E = []" and no: "exchange n a P Q = []" using W by (simp_all add: no_exchange)
    obtain w0 where "cas_retry j a c q w0 = (Inr (pcs Q n), w)"
      using at CasFree b by (auto simp: bnd_apply split: prod.splits sum.splits)
    then show ?thesis using again b(4) no by blast
  qed (use W u in auto)
qed

section \<open>Calls take effect at one moment\<close>

lemma window_way_step:
  assumes W: "in_window cnt n r S E P ns G" and a: "target r = Some a" and u: "under_way (pcs P n)" and st: "pstep T P Q"
    and Q: "pool_ok cnt ns Q"
  shows "in_window cnt n r (S \<union> shown (pmem Q) a) (E @ exchange n a P Q) Q ns (seen_after Q G)"
proof -
  have P: "pool_ok cnt ns P" "seen_ok ns P G" "n \<in> set ns" and w: "on_way r S (G n) E (pcs P n)" and sh: "shown (pmem P) a \<subseteq> S"
    using W a by (simp_all add: in_window_def)
  have "on_way r (S \<union> shown (pmem Q) a) (seen_after Q G n) (E @ exchange n a P Q) (pcs Q n)"
    using busy_step[OF st u]
  proof (elim disjE exE conjE)
    assume q: "pcs Q n = pcs P n"
    have "on_way r (S \<union> shown (pmem Q) a) (seen_after Q G n) E (pcs P n)"
    proof (cases "load_of (pcs P n)")
      case None
      then have "seen_after Q G n = G n" using q by (simp add: seen_after_def after_def)
      then show ?thesis using on_way_stays[OF w, of "S \<union> shown (pmem Q) a" "G n"] by auto
    next
      case (Some x)
      obtain b l where x: "x = (b, l)" by (cases x)
      show ?thesis
      proof (rule on_way_stays[OF w])
        assume G: "G n \<subseteq> S"
        show "seen_after Q G n \<subseteq> S \<union> shown (pmem Q) a"
          using seen_after_bound[of Q n b l G S] Some x q G w a by (cases r; cases "pcs P n") (auto dest!: pay_load_at)
      qed simp
    qed
    then show ?thesis using exchange_stays[OF q] q by simp
  next
    fix k ws w' assume at: "thread_atom T (pcs P n) (in_pool n k ws P) = (Inr (pcs Q n), w')" and s: "pmem Q = sh w'"
    show ?thesis
    proof (cases r)
      case (LoadAt b) then show ?thesis using own_load[OF P _ u at s] w a by simp
    next
      case (SwapAt b q) then show ?thesis using own_swap[OF _ u sh at s] w a by simp
    next
      case (CasAt j b c q) then show ?thesis using own_cas[OF P _ u sh at s] w a by simp
    qed simp_all
  qed
  then show ?thesis using Q P seen_pstep[OF P(1) Q P(2) st] a by (auto simp: in_window_def)
qed

context shared_cnt
begin

lemma window_holds: "call_window T n r S E P \<Longrightarrow> \<exists>ns G. in_window cnt n r S E P ns G"
proof (induction rule: call_window.induct)
  case (called P a)
  obtain ns G where P: "pool_ok cnt ns P" "seen_ok ns P G" using interleaved_seen[OF called(1)] by blast
  let ?Q = "P\<lparr>pcs := (pcs P)(n := first_pc r), phnd := phnd P - consumed r\<rparr>"
  have st: "pstep T P ?Q" by (rule pstep.call[OF called(2-4)])
  have Q: "pool_ok cnt ns ?Q" by (rule pool_step[OF P(1) st])
  have "on_way r (shown (pmem P) a) (seen_after ?Q G n) [] (first_pc r)"
    using called(5) by (cases r) (auto simp: seen_after_def after_def)
  then have "in_window cnt n r (shown (pmem P) a) [] ?Q ns (seen_after ?Q G)"
    using Q seen_pstep[OF P(1) Q P(2) st] pool_nodes[OF P(1), of n] called(2,5) by (simp add: in_window_def)
  then show ?case by blast
next
  case (during S E P a Q)
  then obtain ns G where W: "in_window cnt n r S E P ns G" by blast
  then have "pool_ok cnt ns Q" using pool_step[OF _ during(4)] by (simp add: in_window_def)
  from window_way_step[OF W during(2,3,4) this] show ?case by blast
qed

theorem call_window_result:
  assumes "call_window T n r S E P" and "pcs P n = Done K"
  shows "\<exists>G. on_way r S G E (Done K)"
proof -
  obtain ns G where "in_window cnt n r S E P ns G" using window_holds[OF assms(1)] by blast
  then show ?thesis using assms(2) by (auto simp: in_window_def)
qed

end

end
