(* ===== verification/Registers.thy ===== *)
theory Registers
  imports CallWindow
begin

unbundle bit_operations_syntax

text \<open>
  The storages of the pool seen as atomic registers. Of all the accesses of all operations only the exchange of a swap
  and the successful exchange of a compare-and-swap write to a storage: loads, helpers, writers on their walk and
  dropped guards leave every storage alone. So each step of the pool is one of: nothing, a register takes the value
  a swap was called with, a register that holds the expected value takes the new one, a new register appears.
\<close>

section \<open>Accesses that leave the storages alone\<close>

definition keeps :: "('v, 'a) prog \<Rightarrow> bool" where
  "keeps m \<longleftrightarrow> (\<forall>w x w'. solo w \<longrightarrow> m w = (Inr x, w') \<longrightarrow> solo w' \<and> storage (sh w') = storage (sh w))"

lemma keepsD: "keeps m \<Longrightarrow> solo w \<Longrightarrow> m w = (Inr x, w') \<Longrightarrow> storage (sh w') = storage (sh w)"
  unfolding keeps_def by blast

lemma keeps_still: "still m \<Longrightarrow> keeps m"
  unfolding keeps_def still_def alike_def by blast

lemma keeps_bnd:
  assumes "keeps m" and "\<And>x. keeps (f x)"
  shows "keeps (bnd m f)"
  unfolding keeps_def
proof (intro allI impI)
  fix w x w' assume s: "solo w" and r: "bnd m f w = (Inr x, w')"
  obtain y v where y: "m w = (Inr y, v)" "f y v = (Inr x, w')"
    using r by (auto simp: bnd_apply split: prod.splits sum.splits)
  then show "solo w' \<and> storage (sh w') = storage (sh w)"
    using assms(1) assms(2)[of y] s unfolding keeps_def by metis
qed

lemma keeps_atomic: "(\<And>s x s'. f s = Inr (x, s') \<Longrightarrow> storage s' = storage s) \<Longrightarrow> keeps (atomic f)"
  unfolding keeps_def by (auto simp: atomic_solo split: prod.splits sum.splits)

lemma keeps_node_rmw [simp]: "keeps (node_rmw n f)"
  unfolding node_rmw_def by (rule keeps_atomic) (auto split: option.splits prod.splits)

lemma keeps_control [simp]: "keeps (control_swap n v)" "keeps (control_cas n old new)"
  by (simp_all add: control_swap_def control_cas_def)

lemma keeps_envelope_store [simp]: "keeps (envelope_store e p)"
  unfolding envelope_store_def by (rule keeps_atomic) (auto split: option.splits)

lemma keeps_basic [simp]:
  "keeps (ret x)" "keeps (raise f)" "keeps (inc_value T y)" "keeps (dec_ptr T p)" "keeps (drop_val T y)" "keeps (pay d p)"
  "keeps (space_offer_store n e)" "keeps (space_offer_load n)" "keeps (active_addr_load n)" "keeps (control_load n)"
  "keeps local_node" "keeps get_fuel" "keeps (modify_loc g)" "keeps (assert_that b)" "keeps (debug_assert b)"
  "keeps (reserve_writer n)" "keeps (release_writer n)" "keeps (node_read n h)" "keeps (in_use_swap n v)"
  by (rule keeps_still, simp)+

lemma keeps_start_cooldown: "keeps (start_cooldown n)"
  by (auto simp: start_cooldown_def intro!: keeps_bnd)

lemma keeps_load_atom [simp]: "keeps (load_atom T a l)"
proof (cases "load_still l")
  case True
  then show ?thesis by (intro keeps_still still_load_atom)
next
  case False
  then show ?thesis by (cases l) (auto intro!: keeps_bnd keeps_start_cooldown)
qed

lemma keeps_into_atom [simp]: "keeps (into_atom T i)"
  by (cases i) (auto intro!: keeps_bnd)

lemma keeps_help_enter [simp]: "keeps (help_enter n who k c)"
  by (cases k) (auto intro!: keeps_bnd)

lemma keeps_help_atom [simp]: "keeps (help_atom T who a h)"
  by (cases h) (auto intro!: keeps_bnd)

lemma keeps_pay_atom [simp]: "keeps (pay_atom T p a pp)"
proof -
  have "keeps (pay_at k cur)" for k cur by (cases k) auto
  moreover have "keeps (atomic (\<lambda>s. Inr ((list_head s, node_cnt s), s)))" by (rule keeps_atomic) auto
  ultimately show ?thesis by (cases pp) (auto intro!: keeps_bnd)
qed

lemma keeps_thread_atom: "\<not> about_to_exchange c \<Longrightarrow> keeps (thread_atom T c)"
proof -
  have "keeps (cas_retry k a c q)" for k a c q by (cases k) auto
  then show "\<not> about_to_exchange c \<Longrightarrow> ?thesis" by (cases c) (auto intro!: keeps_bnd)
qed

section \<open>Steps of the registers\<close>

text \<open>What a step does to the registers: it leaves them alone, thread \<open>n\<close> exchanges the value of one, or a
  register comes into being.\<close>

datatype reg_event = Quiet | Exchange usize usize usize | Fresh usize usize

fun reg_step :: "reg_event \<Rightarrow> (usize \<rightharpoonup> usize) \<Rightarrow> (usize \<rightharpoonup> usize) \<Rightarrow> bool" where
  "reg_step Quiet m m' \<longleftrightarrow> m' = m"
| "reg_step (Exchange a p q) m m' \<longleftrightarrow> m a = Some p \<and> m' = m(a \<mapsto> q)"
| "reg_step (Fresh a q) m m' \<longleftrightarrow> m a = None \<and> m' = m(a \<mapsto> q)"

text \<open>The exchange that the position of a thread allows: a swap takes whatever is there, a compare-and-swap only
  the expected value.\<close>

fun may_exchange :: "pc \<Rightarrow> usize \<Rightarrow> usize \<Rightarrow> usize \<Rightarrow> bool" where
  "may_exchange (Swapping b x) a p q \<longleftrightarrow> a = b \<and> q = x"
| "may_exchange (CasTry k b c x r d) a p q \<longleftrightarrow> a = b \<and> p = c \<and> q = x"
| "may_exchange _ a p q \<longleftrightarrow> False"

lemma thread_registers:
  assumes s: "solo w" and r: "thread_atom T c w = (Inr c', w')"
  shows "storage (sh w') = storage (sh w) \<and> (about_to_exchange c \<longrightarrow> \<not> has_exchanged c') \<or>
    (\<exists>a p q. may_exchange c a p q \<and> has_exchanged c' \<and> reg_step (Exchange a p q) (storage (sh w)) (storage (sh w')))"
proof (cases c)
  case (Swapping a q)
  then show ?thesis
    using s r by (auto simp: bnd_apply storage_swap_def storage_rmw_def atomic_solo split: option.splits)
next
  case (CasTry k a e q p d)
  show ?thesis
  proof (cases "storage (sh w) a")
    case None
    then show ?thesis
      using s r CasTry by (auto simp: bnd_apply storage_cas_weak_def spurious_def storage_rmw_def atomic_solo solo_def split: list.splits)
  next
    case (Some v)
    show ?thesis
    proof (rule storage_cas_weak_cases[OF s Some, where old = e and new = q])
      fix ws assume "storage_cas_weak a e q w = (Inr False, w\<lparr>weak_cas := ws\<rparr>)"
      then show ?thesis using r CasTry by (cases d) (auto simp: bnd_apply)
    next
      fix ws assume "v = e" "storage_cas_weak a e q w = (Inr True, w\<lparr>weak_cas := ws, sh := (sh w)\<lparr>storage := (storage (sh w))(a \<mapsto> q)\<rparr>\<rparr>)"
      then show ?thesis using r CasTry Some by (auto simp: bnd_apply)
    qed
  qed
qed (use keepsD[OF keeps_thread_atom s r] in auto)

lemma pool_registers:
  assumes "pstep T P Q"
  obtains "reg_step Quiet (storage (pmem P)) (storage (pmem Q))"
  | n a p q where "may_exchange (pcs P n) a p q" "has_exchanged (pcs Q n)"
      "reg_step (Exchange a p q) (storage (pmem P)) (storage (pmem Q))"
  | a q where "(q, None) \<in># phnd P" "phnd Q = phnd P - {#(q, None)#}" "reg_step (Fresh a (into_ptr T (from_ptr T q))) (storage (pmem P)) (storage (pmem Q))"
  using assms
proof cases
  case (run n k ws c w)
  have "storage (sh w) = storage (pmem P) \<or>
      (\<exists>a p q. may_exchange (pcs P n) a p q \<and> has_exchanged c \<and> reg_step (Exchange a p q) (storage (pmem P)) (storage (sh w)))"
    using thread_registers[OF in_pool_fields(3) run(3)] by auto
  then show ?thesis using that(1) that(2)[of n] run(1) by (auto simp: after_run_def)
next
  case (clone n p x k ws y w)
  have "storage (sh w) = storage (pmem P)" using keepsD[OF keeps_still[OF still_heap(4)] in_pool_fields(3) clone(5)] by simp
  then show ?thesis using that(1) clone(1) by simp
next
  case (place n q a k ws b w)
  have "storage (pmem P) a = None \<and> storage (sh w) = (storage (pmem P))(a \<mapsto> into_ptr T (from_ptr T q))"
    using place(5) by (auto simp: any_new_solo split: option.splits)
  then show ?thesis using that(3)[of q a] place(1,4) by simp
qed (use that(1) in auto)

end
