(* ===== verification/Interference.thy ===== *)
theory Interference
  imports Hybrid
begin

unbundle bit_operations_syntax

text \<open>
  What happens when a writer gets in between the steps of a reader: the three ways out of
  \<open>attempt\<close>, the exchange of envelopes between \<open>help\<close> and \<open>confirm\<close>, and the way \<open>fallback\<close>
  accepts a replacement; and when other threads push nodes while a thread pushes its own. The interference is an
  arbitrary change of the shared memory, inserted at the point the code is prepared for.
\<close>

section \<open>Between the debt and its confirmation\<close>

text \<open>One step of an explicit schedule.\<close>

lemma interfere_cons: "sched w = g # gs \<Longrightarrow> interfere w = w\<lparr>sh := g (sh w), sched := gs\<rparr>"
  by (simp add: interfere_def)

lemma storage_load_step:
  "storage (sh (interfere w)) a = Some p \<Longrightarrow> storage_load a w = (Inr p, interfere w)"
  by (simp add: storage_load_def storage_rmw_def atomic_def Let_def fun_upd_idem)

text \<open>
  The part of \<open>attempt\<close> after the debt is on record. \<open>g\<close> is what the other threads do before the
  second load, \<open>g'\<close> what they do before the slot is paid back.
\<close>

definition confirm_attempt :: "('t, 'v) RefCnt \<Rightarrow> usize \<Rightarrow> usize \<Rightarrow> Debt \<Rightarrow> ('v, 't HybridProtection option) prog" where
  "confirm_attempt T storage_addr ptr debt =
     bnd (storage_load storage_addr) (\<lambda>confirm.
     if ptr = confirm then ret (Some (hp_new T confirm (Some debt)))
     else
       bnd (pay debt ptr) (\<lambda>paid.
       if paid then ret None
       else ret (Some (hp_new T ptr None))))"

lemma attempt_unfold:
  "attempt T a =
     bnd (storage_load a) (\<lambda>ptr.
     bnd (new_fast ptr) (\<lambda>slot_opt. case slot_opt of None \<Rightarrow> ret None | Some d \<Rightarrow> confirm_attempt T a ptr d))"
  unfolding attempt_def confirm_attempt_def ..

lemma confirm_same:
  assumes "sched w = g # gs" and "storage (g (sh w)) a = Some p"
  shows "confirm_attempt T a p d w = (Inr (Some (hp_new T p (Some d))), w\<lparr>sh := g (sh w), sched := gs\<rparr>)"
  using assms
  by (simp add: confirm_attempt_def bnd_apply storage_load_step interfere_cons)

lemma confirm_changed:
  assumes "sched w = g # g' # gs" and "storage (g (sh w)) a = Some q" and "q \<noteq> p"
    and "slot_get (g' (g (sh w))) d = Some v"
  shows "confirm_attempt T a p d w =
    (if v = p
     then (Inr None, w\<lparr>sh := slot_set d NONE (g' (g (sh w))), sched := gs\<rparr>)
     else (Inr (Some (hp_new T p None)), w\<lparr>sh := g' (g (sh w)), sched := gs\<rparr>))"
proof -
  let ?w1 = "w\<lparr>sh := g (sh w), sched := g' # gs\<rparr>"
  have load: "storage_load a w = (Inr q, ?w1)"
    using assms(1,2) by (simp add: storage_load_step interfere_cons)
  have i: "interfere ?w1 = w\<lparr>sh := g' (g (sh w)), sched := gs\<rparr>" by (simp add: interfere_def)
  have "pay d p ?w1 = (Inr (v = p), (interfere ?w1)\<lparr>sh := if v = p then slot_set d NONE (sh (interfere ?w1)) else sh (interfere ?w1)\<rparr>)"
    using assms(4) by (intro pay_interfered) (simp add: i)
  then show ?thesis using load assms(3) by (auto simp: confirm_attempt_def bnd_apply i)
qed

section \<open>The envelope exchange\<close>

lemma help_loop_delivers:
  assumes "solo w" and "nodes (sh w) self = Some ns" and "nodes (sh w) who = Some nw" and "self \<noteq> who"
    and "control (helping nw) = g OR GEN_TAG" and "aligned4 g" and "active_addr (helping nw) = a"
    and "repl w = (Inr x, w\<lparr>sh := (sh w)\<lparr>heap := h\<rparr>\<rparr>)"
    and "aligned4 (space_offer (helping ns))" and "envelopes (sh w) (space_offer (helping ns)) \<noteq> None"
  defines "es \<equiv> space_offer (helping ns)" and "ew \<equiv> space_offer (helping nw)"
  shows "help_loop (Suc k) T self who a repl (g OR GEN_TAG) w = (Inr (),
    w\<lparr>sh := (sh w)\<lparr>heap := h, envelopes := (envelopes (sh w))(es \<mapsto> as_ptr T x),
      nodes := (nodes (sh w))(who \<mapsto> nw\<lparr>helping := (helping nw)\<lparr>control := es OR REPLACEMENT_TAG\<rparr>\<rparr>,
                               self \<mapsto> ns\<lparr>helping := (helping ns)\<lparr>space_offer := ew\<rparr>\<rparr>)\<rparr>\<rparr>)"
proof -
  obtain e where e: "envelopes (sh w) es = Some e" using assms(10) by (auto simp: es_def)
  let ?w1 = "w\<lparr>sh := (sh w)\<lparr>heap := h\<rparr>\<rparr>"
  let ?w2 = "w\<lparr>sh := (sh w)\<lparr>heap := h, envelopes := (envelopes (sh w))(es \<mapsto> as_ptr T x)\<rparr>\<rparr>"
  let ?nw = "nw\<lparr>helping := (helping nw)\<lparr>control := es OR REPLACEMENT_TAG\<rparr>\<rparr>"
  let ?w3 = "?w2\<lparr>sh := (sh ?w2)\<lparr>nodes := (nodes (sh w))(who \<mapsto> ?nw)\<rparr>\<rparr>"
  have tags: "(g OR GEN_TAG) AND TAG_MASK = GEN_TAG" "GEN_TAG \<noteq> IDLE" "GEN_TAG \<noteq> REPLACEMENT_TAG" "es AND TAG_MASK = 0"
    using aligned4_gen_tag[OF assms(6)] assms(9) by (simp_all add: tag_defs aligned4_def es_def)
  have store: "envelope_store es (as_ptr T x) ?w1 = (Inr (), ?w2)"
    using assms(1) e by (simp add: envelope_store_solo)
  have cas: "control_cas who (g OR GEN_TAG) (es OR REPLACEMENT_TAG) ?w2 = (Inr (g OR GEN_TAG, True), ?w3)"
    using assms(1,3,5) by (simp add: control_cas_solo)
  have offer: "space_offer_store self ew ?w3 = (Inr (),
      ?w3\<lparr>sh := (sh ?w3)\<lparr>nodes := (nodes (sh ?w3))(self \<mapsto> ns\<lparr>helping := (helping ns)\<lparr>space_offer := ew\<rparr>\<rparr>)\<rparr>\<rparr>)"
    using assms(1,2,4) by (intro space_offer_store_solo) simp_all
  show ?thesis
    using tags assms(1-5,7,8) store cas offer
    by (simp add: bnd_apply active_addr_load_solo space_offer_load_solo Let_def es_def[symmetric] ew_def[symmetric]
        del: fun_upd_apply)
qed

text \<open>
  The writer helps a reader that announced itself on the writer's storage, the reader then confirms:
  it is handed the writer's value, and the two nodes have exchanged their envelopes.
\<close>

lemma help_then_confirm:
  assumes "solo w" and "nodes (sh w) self = Some ns" and "nodes (sh w) who = Some nw" and "self \<noteq> who"
    and "control (helping ns) = IDLE" and "control (helping nw) = g OR GEN_TAG" and "aligned4 g"
    and "active_addr (helping nw) = a" and "slot (helping nw) = NONE" and "0 < fuel w"
    and "repl w = (Inr x, w\<lparr>sh := (sh w)\<lparr>heap := h\<rparr>\<rparr>)"
    and "aligned4 (space_offer (helping ns))" and "envelopes (sh w) (space_offer (helping ns)) \<noteq> None"
  defines "es \<equiv> space_offer (helping ns)" and "ew \<equiv> space_offer (helping nw)"
  shows "bnd (helping_help T self who a repl) (\<lambda>_. helping_confirm who (g OR GEN_TAG) cand) w =
    (Inr (Inl (as_ptr T x)),
     w\<lparr>sh := (sh w)\<lparr>heap := h, envelopes := (envelopes (sh w))(es \<mapsto> as_ptr T x),
       nodes := (nodes (sh w))(self \<mapsto> ns\<lparr>helping := (helping ns)\<lparr>space_offer := ew\<rparr>\<rparr>,
         who \<mapsto> nw\<lparr>helping := (helping nw)\<lparr>slot := cand, control := IDLE, space_offer := es\<rparr>\<rparr>)\<rparr>\<rparr>)"
proof -
  obtain k where k: "fuel w = Suc k" using assms(10) by (cases "fuel w") auto
  let ?nw = "nw\<lparr>helping := (helping nw)\<lparr>control := es OR REPLACEMENT_TAG\<rparr>\<rparr>"
  let ?w1 = "w\<lparr>sh := (sh w)\<lparr>heap := h, envelopes := (envelopes (sh w))(es \<mapsto> as_ptr T x),
      nodes := (nodes (sh w))(who \<mapsto> ?nw, self \<mapsto> ns\<lparr>helping := (helping ns)\<lparr>space_offer := ew\<rparr>\<rparr>)\<rparr>\<rparr>"
  have "helping_help T self who a repl w = (Inr (), ?w1)"
    using assms(1-3,5,6) k help_loop_delivers[where repl = repl and k = k and T = T, OF assms(1-4,6-8,11-13)]
    by (simp add: helping_help_def bnd_apply control_load_solo loc_exec es_def ew_def del: help_loop.simps fun_upd_apply)
  moreover have "helping_confirm who (g OR GEN_TAG) cand ?w1 = (Inr (Inl (as_ptr T x)),
      ?w1\<lparr>sh := (sh ?w1)\<lparr>nodes := (nodes (sh ?w1))(who \<mapsto>
         ?nw\<lparr>helping := (helping ?nw)\<lparr>slot := cand, control := IDLE, space_offer := es\<rparr>\<rparr>)\<rparr>\<rparr>)"
    using assms by (intro helping_confirm_helped) (simp_all add: es_def)
  moreover have "(nodes (sh w))(who \<mapsto> u, self \<mapsto> v, who \<mapsto> z) = (nodes (sh w))(self \<mapsto> v, who \<mapsto> z)" for u v z
    using assms(4) by (auto simp: fun_eq_iff)
  ultimately show ?thesis
    by (simp add: bnd_apply del: fun_upd_apply)
qed

section \<open>A reader that was helped\<close>

text \<open>The part of \<open>fallback\<close> after the candidate was read.\<close>

definition finish_fallback :: "('t, 'v) RefCnt \<Rightarrow> usize \<Rightarrow> usize \<Rightarrow> ('v, 't HybridProtection) prog" where
  "finish_fallback T gen candidate =
     bnd (confirm_helping gen candidate) (\<lambda>r.
     case r of
       Inr debt \<Rightarrow>
         bnd (hp_into_inner T (hp_new T candidate (Some debt))) (\<lambda>x. ret (hp_from_inner x))
     | Inl (unused_debt, replacement) \<Rightarrow>
         bnd (pay unused_debt candidate) (\<lambda>paid.
         bnd (if \<not> paid then dec_ptr T candidate else ret ()) (\<lambda>_.
         ret (hp_new T replacement None))))"

lemma fallback_unfold:
  "fallback T a = bnd (new_helping a) (\<lambda>gen. bnd (storage_load a) (finish_fallback T gen))"
  unfolding fallback_def finish_fallback_def ..

context ref_cnt
begin

text \<open>
  The reader had announced itself and a writer left an envelope before the confirmation. The debt the
  reader wrote for its own candidate is cancelled, and the replacement comes with its own reference.
\<close>

lemma fallback_helped:
  assumes "solo w" and "node (loc w) = Some n" and "nodes (sh w) n = Some nd" and "in_use nd = NODE_USED"
    and "slot (helping nd) = NONE" and "control (helping nd) = e OR REPLACEMENT_TAG" and "aligned4 e"
    and "envelopes (sh w) e = Some r" and "aligned4 g"
  shows "finish_fallback T (g OR GEN_TAG) p w =
    (Inr (hp_new T r None),
     w\<lparr>sh := (sh w)\<lparr>nodes := (nodes (sh w))(n \<mapsto>
         nd\<lparr>helping := (helping nd)\<lparr>control := IDLE, space_offer := e\<rparr>\<rparr>)\<rparr>\<rparr>)"
proof -
  let ?nd = "nd\<lparr>helping := (helping nd)\<lparr>slot := p, control := IDLE, space_offer := e\<rparr>\<rparr>"
  let ?w1 = "w\<lparr>sh := (sh w)\<lparr>nodes := (nodes (sh w))(n \<mapsto> ?nd)\<rparr>\<rparr>"
  have conf: "helping_confirm n (g OR GEN_TAG) p w = (Inr (Inl r), ?w1)"
    using helping_confirm_helped[OF assms(1,3,5-9)] .
  have "confirm_helping (g OR GEN_TAG) p w = (Inr (Inl (HelpingDebt n, r)), ?w1)"
    using assms(1-4) conf by (simp add: confirm_helping_def bnd_apply local_node_solo)
  moreover have "pay (HelpingDebt n) p ?w1 = (Inr True, ?w1\<lparr>sh := slot_set (HelpingDebt n) NONE (sh ?w1)\<rparr>)"
    using pay_solo[of ?w1 "HelpingDebt n" p p] assms(1) by simp
  moreover have "(helping nd)\<lparr>control := IDLE, space_offer := e, slot := NONE\<rparr> = (helping nd)\<lparr>control := IDLE, space_offer := e\<rparr>"
    using assms(5) by (cases "helping nd") simp
  then have "slot_set (HelpingDebt n) NONE (sh ?w1) = (sh w)\<lparr>nodes := (nodes (sh w))(n \<mapsto>
      nd\<lparr>helping := (helping nd)\<lparr>control := IDLE, space_offer := e\<rparr>\<rparr>)\<rparr>"
    by (simp add: slot_set_def del: fun_upd_apply add: fun_upd_same)
  ultimately show ?thesis by (simp add: finish_fallback_def bnd_apply)
qed

end

section \<open>The wrapped generation\<close>

text \<open>
  When the generation counter wraps around, \<open>new_helping\<close> gives the node up; the confirmation then
  finds no node.
\<close>

lemma fallback_wrapped:
  assumes "solo w" and "node (loc w) = Some n" and "nodes (sh w) n = Some nd" and "in_use nd = NODE_USED"
    and "control (helping nd) = IDLE" and "generation (loc w) + 4 = 0" and "storage (sh w) a = Some p"
  shows "fst (fallback T a w) = Inl ExpectNone"
proof -
  have "generation (loc w) = - 4" using assms(6) by (simp add: eq_neg_iff_add_eq_0)
  then have al: "aligned4 (generation (loc w))" by (simp add: aligned4_def TAG_MASK_def)
  let ?g = "(generation (loc w) + 4) OR GEN_TAG"
  let ?nd = "nd\<lparr>helping := (helping nd)\<lparr>active_addr := a, control := ?g\<rparr>\<rparr>"
  let ?w1 = "w\<lparr>loc := (loc w)\<lparr>generation := generation (loc w) + 4\<rparr>,
       sh := (sh w)\<lparr>nodes := (nodes (sh w))(n \<mapsto> ?nd)\<rparr>\<rparr>"
  let ?w2 = "?w1\<lparr>sh := (sh ?w1)\<lparr>nodes := (nodes (sh ?w1))(n \<mapsto> ?nd\<lparr>in_use := NODE_COOLDOWN\<rparr>)\<rparr>\<rparr>"
  let ?w3 = "?w2\<lparr>loc := (loc ?w2)\<lparr>node := None\<rparr>\<rparr>"
  have get: "helping_get_debt n a w = (Inr (?g, True), ?w1)"
    using helping_get_debt_solo[OF assms(1,3,5) al, of a] assms(6) by simp
  have cool: "start_cooldown n ?w1 = (Inr (), ?w2)"
    using assms(1,4) by (intro start_cooldown_solo) simp_all
  have "new_helping a w = (Inr ?g, ?w3)"
    using assms(1-4) get cool
    by (simp add: new_helping_def bnd_apply local_node_solo[of w n nd] loc_exec del: fun_upd_apply)
  moreover have "storage_load a ?w3 = (Inr p, ?w3)"
    using assms(1,7) by (intro storage_load_solo) simp_all
  moreover have "confirm_helping ?g p ?w3 = (Inl ExpectNone, ?w3)"
    by (simp add: confirm_helping_def bnd_apply local_node_None)
  ultimately show ?thesis by (simp add: fallback_def bnd_apply del: fun_upd_apply)
qed

section \<open>The cooldown race\<close>

text \<open>
  What other threads do while this one stands between two of its atomic accesses, as a step of the
  schedule: they run \<open>p\<close> to its end.
\<close>

definition meanwhile :: "('v, 'a) prog \<Rightarrow> 'v shared \<Rightarrow> 'v shared" where
  "meanwhile p s =
     sh (snd (p \<lparr>sh = s, loc = local_default, tls_alive = True, sched = [], weak_cas = [], fuel = 1\<rparr>))"

text \<open>The node is claimed by a second thread, a writer comes to it, and the second thread gives it up.\<close>

definition reused :: "usize \<Rightarrow> ('v, unit) prog" where
  "reused n = bnd (try_claim n) (\<lambda>_. bnd (reserve_writer n) (\<lambda>_. start_cooldown n))"

lemma meanwhile_reused:
  assumes "nodes s n = Some nd" and "in_use nd = NODE_COOLDOWN" and "active_writers nd = 0"
  shows "meanwhile (reused n) s = s\<lparr>nodes := (nodes s)(n \<mapsto> nd\<lparr>active_writers := 1\<rparr>)\<rparr>"
proof -
  have "meanwhile (reused n) s = s\<lparr>nodes := (nodes s)(n \<mapsto> nd\<lparr>active_writers := 1, in_use := NODE_COOLDOWN\<rparr>)\<rparr>"
    using assms
    by (simp add: meanwhile_def reused_def bnd_apply try_claim_solo reserve_writer_solo start_cooldown_solo
        solo_def claimable_def del: fun_upd_apply add: fun_upd_same)
  also have "nd\<lparr>active_writers := 1, in_use := NODE_COOLDOWN\<rparr> = nd\<lparr>active_writers := 1\<rparr>"
    using assms(2) by (cases nd) simp
  finally show ?thesis .
qed

lemma claim_overtakes_writer:
  assumes "sched w = [id, id, meanwhile (reused n)]" and "nodes (sh w) n = Some nd"
    and "in_use nd = NODE_COOLDOWN" and "active_writers nd = 0"
  shows "try_claim n w = (Inr (Some n), w\<lparr>sched := [], sh := (sh w)\<lparr>nodes := (nodes (sh w))(n \<mapsto>
     nd\<lparr>active_writers := 1, in_use := NODE_USED\<rparr>)\<rparr>\<rparr>)"
  using assms
  by (simp add: try_claim_def check_cooldown_def bnd_apply in_use_load_def in_use_cas_def node_read_def
      node_rmw_def atomic_def interfere_def meanwhile_reused del: fun_upd_apply add: fun_upd_same)

section \<open>Pushing a node under contention\<close>

text \<open>Following the links from the head of the list visits exactly the nodes \<open>ns\<close>.\<close>

definition listed :: "'v shared \<Rightarrow> usize list \<Rightarrow> bool" where
  "listed s ns \<longleftrightarrow> links (next_of s) (list_head s) ns \<and> distinct ns \<and> set ns \<subseteq> dom (nodes s)"

text \<open>What other threads do to the list while a thread pushes its node \<open>n\<close>, which nobody else knows of: they put
  nodes of their own in front of it.\<close>

definition prepends :: "usize \<Rightarrow> ('v shared \<Rightarrow> 'v shared) \<Rightarrow> bool" where
  "prepends n g \<longleftrightarrow> (\<forall>s ns. listed s ns \<and> n \<notin> set ns \<longrightarrow>
     nodes (g s) n = nodes s n \<and> (\<exists>ms. listed (g s) (ms @ ns) \<and> n \<notin> set ms))"

text \<open>For instance: another thread pushes the node \<open>m\<close>, if it has not done so before.\<close>

definition joined :: "usize \<Rightarrow> usize \<Rightarrow> 'v shared \<Rightarrow> 'v shared" where
  "joined m e s =
     (if nodes s m \<noteq> None then s
      else s\<lparr>nodes := (nodes s)(m \<mapsto> fresh_node e (list_head s)), list_head := m, node_cnt := node_cnt s + 1\<rparr>)"

lemma links_own: "n \<notin> set ns \<Longrightarrow> links (nx(n := y)) x ns \<longleftrightarrow> links nx x ns"
  by (rule links_cong) auto

lemma next_of_put: "next_of (s\<lparr>nodes := (nodes s)(n \<mapsto> nd)\<rparr>) = (next_of s)(n := next_node nd)"
  by (auto simp: next_of_def fun_eq_iff)

lemma listed_other: "n \<notin> set ns \<Longrightarrow> listed s ns \<Longrightarrow> listed (s\<lparr>nodes := (nodes s)(n \<mapsto> nd)\<rparr>) ns"
  unfolding listed_def next_of_put by (auto simp: links_own)

lemma listed_front:
  assumes "listed s ns" and "n \<notin> set ns" and "n \<noteq> 0" and "nodes s n = Some nd" and "next_node nd = list_head s"
  shows "listed (s\<lparr>list_head := n, node_cnt := k\<rparr>) (n # ns)"
  using assms by (auto simp: listed_def next_of_def)

lemma prepends_id: "prepends n id" "prepends n (\<lambda>s. s)"
  by (auto simp: prepends_def intro: exI[of _ "[]"])

lemma prepends_joined:
  assumes "m \<noteq> n" and "m \<noteq> 0"
  shows "prepends n (joined m e)"
  unfolding prepends_def
proof (intro allI impI)
  fix s :: "'v shared" and ns assume a: "listed s ns \<and> n \<notin> set ns"
  show "nodes (joined m e s) n = nodes s n \<and> (\<exists>ms. listed (joined m e s) (ms @ ns) \<and> n \<notin> set ms)"
  proof (cases "nodes s m")
    case None
    let ?s = "s\<lparr>nodes := (nodes s)(m \<mapsto> fresh_node e (list_head s))\<rparr>"
    have m: "m \<notin> set ns" using None a by (auto simp: listed_def)
    have "listed (?s\<lparr>list_head := m, node_cnt := node_cnt s + 1\<rparr>) (m # ns)"
      using listed_other[OF m] a m assms(2) by (intro listed_front) (auto simp: fresh_node_def)
    then show ?thesis using None assms(1) by (auto simp: joined_def intro!: exI[of _ "[m]"])
  next
    case (Some nd)
    then show ?thesis using a by (auto simp: joined_def intro!: exI[of _ "[]"])
  qed
qed

text \<open>What is known of the world of the pushing thread: its node is still private, and only pushes are to come.\<close>

definition pushing :: "usize \<Rightarrow> Node \<Rightarrow> usize list \<Rightarrow> 'v world \<Rightarrow> bool" where
  "pushing n nd ns w \<longleftrightarrow> list_all (prepends n) (sched w) \<and> listed (sh w) ns \<and> n \<notin> set ns \<and> n \<noteq> 0 \<and>
     nodes (sh w) n = Some nd"

lemma pushing_interfere:
  assumes "pushing n nd ns w"
  obtains ms where "pushing n nd (ms @ ns) (interfere w)"
proof (cases "sched w")
  case Nil
  then show ?thesis using that[of "[]"] assms by (simp add: interfere_def)
next
  case (Cons g gs)
  then have "prepends n g" "listed (sh w) ns \<and> n \<notin> set ns" using assms by (simp_all add: pushing_def)
  then obtain ms where "listed (g (sh w)) (ms @ ns)" "n \<notin> set ms" "nodes (g (sh w)) n = nodes (sh w) n"
    unfolding prepends_def by blast
  then show ?thesis using that[of ms] assms Cons by (auto simp: pushing_def interfere_cons)
qed

text \<open>The rounds of the push loop that are still ahead, at most: one for each element of the schedule, one for each
  spurious failure, and one more if the head that was read is outdated.\<close>

definition push_rank :: "usize \<Rightarrow> 'v world \<Rightarrow> nat" where
  "push_rank head w = length (sched w) + spurious_left w + (if head = list_head (sh w) then 0 else 1)"

lemma interfere_frame [simp]: "weak_cas (interfere w) = weak_cas w" "loc (interfere w) = loc w" "fuel (interfere w) = fuel w"
  by (simp_all add: interfere_def split: list.splits)

lemma interfere_sched: "sched (interfere w) = tl (sched w)"
  by (simp add: interfere_def split: list.splits)

lemma interfere_quiet: "sched w = [] \<Longrightarrow> interfere w = w"
  by (simp add: interfere_def)

lemma set_next_step:
  assumes "pushing n nd ns w"
  obtains ms w1 where "node_rmw n (\<lambda>nd. ((), nd\<lparr>next_node := head\<rparr>)) w = (Inr (), w1)"
    and "pushing n (nd\<lparr>next_node := head\<rparr>) (ms @ ns) w1" and "sched w1 = tl (sched w)" and "weak_cas w1 = weak_cas w"
    and "list_head (sh w1) = list_head (sh (interfere w))"
proof -
  obtain ms where ms: "pushing n nd (ms @ ns) (interfere w)" using pushing_interfere[OF assms] .
  let ?v = "interfere w" and ?nd = "nd\<lparr>next_node := head\<rparr>"
  let ?w1 = "?v\<lparr>sh := (sh ?v)\<lparr>nodes := (nodes (sh ?v))(n \<mapsto> ?nd)\<rparr>\<rparr>"
  have "node_rmw n (\<lambda>nd. ((), nd\<lparr>next_node := head\<rparr>)) w = (Inr (), ?w1)"
    using ms by (simp add: node_rmw_def atomic_def pushing_def Let_def)
  moreover have "pushing n ?nd (ms @ ns) ?w1" using ms listed_other[of n "ms @ ns" "sh ?v" ?nd] by (simp add: pushing_def)
  ultimately show ?thesis using that by (simp add: interfere_sched)
qed

lemma head_cas_step:
  assumes "pushing n nd ns w" and "next_node nd = head"
  obtains (pushed) ms w1 where "list_head_cas_weak head n w = (Inr (head, True), w1)" and "listed (sh w1) (n # ms @ ns)"
      and "nodes (sh w1) n = Some nd"
  | (overtaken) ms w1 where "list_head_cas_weak head n w = (Inr (list_head (sh w1), False), w1)" and "pushing n nd (ms @ ns) w1"
      and "sched w1 = tl (sched w)" and "spurious_left w1 \<le> spurious_left w"
      and "spurious_left w1 < spurious_left w \<or> list_head (sh (interfere w)) \<noteq> head"
proof -
  obtain ms where ms: "pushing n nd (ms @ ns) (interfere w)" using pushing_interfere[OF assms(1)] .
  let ?v = "(interfere w)\<lparr>weak_cas := tl (weak_cas w)\<rparr>" and ?fails = "\<exists>bs. weak_cas w = True # bs"
  have i: "interfere (w\<lparr>weak_cas := ws\<rparr>) = (interfere w)\<lparr>weak_cas := ws\<rparr>" for ws
    by (simp add: interfere_def split: list.splits)
  have same: "(interfere w)\<lparr>weak_cas := weak_cas w\<rparr> = interfere w" by (cases "interfere w") (metis interfere_frame(1) world.simps(5) world.update_convs(5))
  have run: "list_head_cas_weak head n w =
      (if list_head (sh ?v) = head \<and> \<not> ?fails
       then (Inr (head, True), ?v\<lparr>sh := (sh ?v)\<lparr>list_head := n, node_cnt := node_cnt (sh ?v) + 1\<rparr>\<rparr>)
       else (Inr (list_head (sh ?v), False), ?v))"
    using same by (cases "weak_cas w") (auto simp: list_head_cas_weak_def bnd_apply spurious_def atomic_def i Let_def)
  have v: "pushing n nd (ms @ ns) ?v" using ms by (simp add: pushing_def)
  show ?thesis
  proof (cases "list_head (sh ?v) = head \<and> \<not> ?fails")
    case True
    let ?w1 = "?v\<lparr>sh := (sh ?v)\<lparr>list_head := n, node_cnt := node_cnt (sh ?v) + 1\<rparr>\<rparr>"
    have "listed (sh ?w1) (n # ms @ ns)"
      using listed_front[of "sh ?v" "ms @ ns" n nd] v True assms(2) by (simp add: pushing_def)
    then show ?thesis using pushed[of ?w1 ms] run True v by (simp add: pushing_def)
  next
    case False
    have "spurious_left ?v \<le> spurious_left w" by (cases "weak_cas w") (simp_all add: spurious_left_def)
    moreover have "spurious_left ?v < spurious_left w \<or> list_head (sh (interfere w)) \<noteq> head"
      using False by (auto simp: spurious_left_def)
    ultimately show ?thesis using overtaken[of ?v ms] run False v by (simp add: interfere_sched)
  qed
qed

lemma push_loop_contended:
  assumes "pushing n nd ns w" and "push_rank head w < k"
  shows "\<exists>w' ms p. push_loop k n head w = (Inr n, w') \<and> listed (sh w') (n # ms @ ns) \<and>
    nodes (sh w') n = Some (nd\<lparr>next_node := p\<rparr>)"
  using assms
proof (induction k arbitrary: w nd ns head)
  case (Suc k)
  obtain ms w1 where w1: "node_rmw n (\<lambda>nd. ((), nd\<lparr>next_node := head\<rparr>)) w = (Inr (), w1)"
      "pushing n (nd\<lparr>next_node := head\<rparr>) (ms @ ns) w1" "sched w1 = tl (sched w)" "weak_cas w1 = weak_cas w"
      "list_head (sh w1) = list_head (sh (interfere w))"
    by (rule set_next_step[OF Suc.prems(1)])
  have nd: "next_node (nd\<lparr>next_node := head\<rparr>) = head" by simp
  show ?case
  proof (cases rule: head_cas_step[OF w1(2) nd, case_names pushed overtaken])
    case (pushed ms' w2)
    then show ?thesis using w1(1) by (intro exI[of _ w2] exI[of _ "ms' @ ms"] exI[of _ head]) (simp add: bnd_apply)
  next
    case (overtaken ms' w2)
    have left: "spurious_left w1 = spurious_left w" using w1(4) by (simp add: spurious_left_def)
    have "push_rank (list_head (sh w2)) w2 < push_rank head w"
    proof (cases "spurious_left w2 < spurious_left w1")
      case True
      then show ?thesis using overtaken(3,4) w1(3) left by (simp add: push_rank_def)
    next
      case False
      then have head: "list_head (sh (interfere w1)) \<noteq> head" using overtaken(5) by blast
      show ?thesis
      proof (cases "sched w")
        case Nil
        then have "interfere w1 = w1" "interfere w = w" using w1(3) by (simp_all add: interfere_quiet)
        then have "head \<noteq> list_head (sh w)" using head w1(5) by simp
        then show ?thesis using overtaken(3,4) w1(3) left by (simp add: push_rank_def)
      next
        case (Cons g gs)
        then show ?thesis using overtaken(3,4) w1(3) left by (simp add: push_rank_def)
      qed
    qed
    then have "push_rank (list_head (sh w2)) w2 < k" using Suc.prems(2) by simp
    from Suc.IH[OF overtaken(2) this] obtain w' ms'' p where "push_loop k n (list_head (sh w2)) w2 = (Inr n, w')"
        "listed (sh w') (n # ms'' @ ms' @ ms @ ns)" "nodes (sh w') n = Some (nd\<lparr>next_node := head, next_node := p\<rparr>)"
      by auto
    then show ?thesis using w1(1) overtaken(1)
      by (intro exI[of _ w'] exI[of _ "ms'' @ ms' @ ms"] exI[of _ p]) (simp add: bnd_apply)
  qed
qed simp

end
