(* ===== verification/Cache.thy ===== *)
theory Cache
  imports ArcSwapAny
begin

text \<open>
  The caching handle of \<^verbatim>\<open>src/cache.rs\<close>: a copy of the pointer last seen, compared with the
  storage before every access and replaced by a full load when it differs.
\<close>

record 't Cache =
  arc_swap_at :: usize
  cached :: 't

definition cache_new :: "('t, 'v, 'p) Strategy \<Rightarrow> usize \<Rightarrow> ('v, 't Cache) prog" where
  "cache_new S a = bnd (load_full S a) (\<lambda>x. ret \<lparr>arc_swap_at = a, cached = x\<rparr>)"

text \<open>The derived \<open>Clone\<close> copies the reference to the storage and clones the cached pointer.\<close>

definition cache_clone :: "('t, 'v) RefCnt \<Rightarrow> 't Cache \<Rightarrow> ('v, 't Cache) prog" where
  "cache_clone T c = bnd (clone_val T (cached c)) (\<lambda>x. ret (c\<lparr>cached := x\<rparr>))"

definition cache_from :: "('t, 'v, 'p) Strategy \<Rightarrow> usize \<Rightarrow> ('v, 't Cache) prog" where
  "cache_from S a = cache_new S a"

definition cache_arc_swap :: "'t Cache \<Rightarrow> usize" where
  "cache_arc_swap c = arc_swap_at c"

definition load_no_revalidate :: "'t Cache \<Rightarrow> 't" where
  "load_no_revalidate c = cached c"

text \<open>Assigning the fresh value drops the one it replaces.\<close>

definition revalidate :: "('t, 'v) RefCnt \<Rightarrow> ('t, 'v, 'p) Strategy \<Rightarrow> 't Cache \<Rightarrow> ('v, 't Cache) prog" where
  "revalidate T S c =
     (let cached_ptr = as_ptr T (cached c) in
      bnd (storage_load (arc_swap_at c)) (\<lambda>shared_ptr.
      if cached_ptr \<noteq> shared_ptr then
        bnd (load_full S (arc_swap_at c)) (\<lambda>fresh.
        bnd (drop_val T (cached c)) (\<lambda>_.
        ret (c\<lparr>cached := fresh\<rparr>)))
      else ret c))"

text \<open>\<open>load\<close> takes the cache by \<open>&mut\<close>: it returns the value and the cache it leaves behind.\<close>

definition cache_load :: "('t, 'v) RefCnt \<Rightarrow> ('t, 'v, 'p) Strategy \<Rightarrow> 't Cache \<Rightarrow> ('v, 't \<times> 't Cache) prog" where
  "cache_load T S c = bnd (revalidate T S c) (\<lambda>c'. ret (load_no_revalidate c', c'))"

text \<open>Dereferencing an \<open>Arc\<close> reads the value it keeps alive.\<close>

definition arc_deref :: "arc \<Rightarrow> ('v, 'v) prog" where
  "arc_deref x =
     atomic (\<lambda>s. if strong_rc (heap s) (arc_into_raw x) = 0 then Inl UseAfterFree
       else (case value_at (heap s) (arc_into_raw x) of None \<Rightarrow> Inl UseAfterFree | Some v \<Rightarrow> Inr (v, s)))"

text \<open>\<open>Access\<close> for \<open>Cache\<close>, with the pointer's \<open>Deref\<close> as an argument.\<close>

definition cache_access_load ::
  "('t, 'v) RefCnt \<Rightarrow> ('t, 'v, 'p) Strategy \<Rightarrow> ('t \<Rightarrow> ('v, 'x) prog) \<Rightarrow> 't Cache \<Rightarrow> ('v, 'x \<times> 't Cache) prog" where
  "cache_access_load T S deref c =
     bnd (cache_load T S c) (\<lambda>(x, c'). bnd (deref x) (\<lambda>v. ret (v, c')))"

record ('t, 'v, 'u) MapCache =
  map_inner :: "'t Cache"
  map_projection :: "'t \<Rightarrow> ('v, 'u) prog"

definition cache_map :: "'t Cache \<Rightarrow> ('t \<Rightarrow> ('v, 'u) prog) \<Rightarrow> ('t, 'v, 'u) MapCache" where
  "cache_map c f = \<lparr>map_inner = c, map_projection = f\<rparr>"

definition map_cache_load ::
  "('t, 'v) RefCnt \<Rightarrow> ('t, 'v, 'p) Strategy \<Rightarrow> ('t, 'v, 'u) MapCache \<Rightarrow> ('v, 'u \<times> ('t, 'v, 'u) MapCache) prog" where
  "map_cache_load T S m =
     bnd (cache_load T S (map_inner m)) (\<lambda>(x, c').
     bnd (map_projection m x) (\<lambda>u.
     ret (u, m\<lparr>map_inner := c'\<rparr>)))"

section \<open>Coherence\<close>

lemma arc_deref_solo:
  "solo w \<Longrightarrow> 0 < strong_rc (heap (sh w)) (arc_into_raw x) \<Longrightarrow> value_at (heap (sh w)) (arc_into_raw x) = Some v \<Longrightarrow>
   arc_deref x w = (Inr v, w)"
  by (simp add: arc_deref_def atomic_solo)

context strategy
begin

lemma cache_new_ok:
  assumes "holds a p w" and "0 < gens_left w"
  obtains w' where "cache_new S a w = (Inr \<lparr>arc_swap_at = a, cached = from_ptr T p\<rparr>, w')"
    and "progress 1 w w'" and "ok w'" and "view cnt (sh w') = bump p 1 (view cnt (sh w))"
proof -
  obtain w' where "load_full S a w = (Inr (from_ptr T p), w')" "progress 1 w w'" "ok w'"
      "view cnt (sh w') = bump p 1 (view cnt (sh w))"
    using load_full_ok[OF assms] .
  then show ?thesis using that[of w'] by (simp add: cache_new_def bnd_apply)
qed

text \<open>An up-to-date cache costs nothing: the memory is not touched.\<close>

lemma cache_load_hit:
  assumes "holds a p w" and "c = \<lparr>arc_swap_at = a, cached = from_ptr T p\<rparr>"
  shows "cache_load T S c w = (Inr (from_ptr T p, c), w)"
proof -
  have "p \<noteq> 0 \<or> nullable" "solo w" "storage (sh w) a = Some p"
    using assms(1) live_not_null ok_settled by (auto simp: holds_ptr_def settled_def)
  then show ?thesis
    by (simp add: cache_load_def revalidate_def bnd_apply Let_def assms(2) storage_load_solo as_ptr_eq into_from
        load_no_revalidate_def)
qed

text \<open>An outdated cache takes a reference to the current pointer and gives up its old one.\<close>

lemma cache_load_miss:
  assumes "holds a p w" and "0 < gens_left w" and "c = \<lparr>arc_swap_at = a, cached = from_ptr T r\<rparr>"
    and "r \<noteq> p" and "live (heap (sh w)) r"
  obtains w' where "cache_load T S c w = (Inr (from_ptr T p, c\<lparr>cached := from_ptr T p\<rparr>), w')"
    and "progress 1 w w'" and "ok w'" and "view cnt (sh w') = unref r (bump p 1 (view cnt (sh w)))"
proof -
  obtain w1 where w1: "load_full S a w = (Inr (from_ptr T p), w1)" "progress 1 w w1" "ok w1"
      "view cnt (sh w1) = bump p 1 (view cnt (sh w))"
    using load_full_ok[OF assms(1,2)] .
  have l: "live (heap (sh w1)) r" using assms(5) w1(4) unfolding live_view by (auto simp: bump_def)
  have s1: "settled w1" using w1(3) by (rule ok_settled)
  let ?w' = "w1\<lparr>sh := (sh w1)\<lparr>heap := down r (heap (sh w1))\<rparr>\<rparr>"
  have "progress (1 + 0) w ?w'" by (rule progress_trans[OF w1(2) progress_heap[OF s1]])
  moreover have "drop_val T (from_ptr T r) w1 = (Inr (), ?w')"
    using drop_val_from_ptr_solo[OF _ l] s1 by (simp add: settled_def)
  moreover have "solo w" "storage (sh w) a = Some p" "as_ptr T (from_ptr T r) = r"
    using assms(1) ok_settled live_not_null[OF assms(5)]
    by (auto simp: holds_ptr_def settled_def as_ptr_eq into_from)
  ultimately show ?thesis
    using that[of ?w'] assms(3,4) w1 ok_heap[OF w1(3)] view_down[OF l]
    by (simp add: cache_load_def revalidate_def bnd_apply Let_def storage_load_solo load_no_revalidate_def)
qed

end

end
