(* ===== verification/Access.thy ===== *)
theory Access
  imports Cache
begin

text \<open>
  Generic access to a value, \<^verbatim>\<open>src/access.rs\<close>. The trait \<open>Access\<close> is a record of its \<open>load\<close> and
  of the \<open>Deref\<close> and the drop of the guard it returns; each \<open>impl\<close> of the source is such a record. The
  locale \<open>access\<close> states what an access promises: loading, dereferencing and dropping the guard yields the
  current content, leaves it in place and leaves no trace.
\<close>

record ('v, 'g, 'x) Access =
  acc_load :: "('v, 'g) prog"
  acc_deref :: "'g \<Rightarrow> ('v, 'x) prog"
  acc_drop :: "'g \<Rightarrow> ('v, unit) prog"

text \<open>\<open>Access\<close> through anything that dereferences to an access.\<close>

definition deref_access :: "('v, 'g, 'x) Access \<Rightarrow> ('v, 'g, 'x) Access" where
  "deref_access A = \<lparr>acc_load = acc_load A, acc_deref = acc_deref A, acc_drop = acc_drop A\<rparr>"

definition any_access :: "('t, 'v, 'p) Strategy \<Rightarrow> usize \<Rightarrow> ('v, 'p Guard, 't) Access" where
  "any_access S a = \<lparr>acc_load = any_load S a, acc_deref = (\<lambda>g. ret (guard_deref S g)), acc_drop = guard_drop S\<rparr>"

datatype 'p DirectDeref = DirectDeref "'p Guard"

fun direct_guard :: "'p DirectDeref \<Rightarrow> 'p Guard" where
  "direct_guard (DirectDeref g) = g"

text \<open>Straight to the value behind an \<open>Arc\<close> or an \<open>Rc\<close>.\<close>

definition arc_access :: "(arc, 'v, 'p) Strategy \<Rightarrow> usize \<Rightarrow> ('v, 'p DirectDeref, 'v) Access" where
  "arc_access S a =
     \<lparr>acc_load = bnd (any_load S a) (\<lambda>g. ret (DirectDeref g)),
      acc_deref = (\<lambda>d. arc_deref (guard_deref S (direct_guard d))),
      acc_drop = (\<lambda>d. guard_drop S (direct_guard d))\<rparr>"

definition rc_deref :: "rc \<Rightarrow> ('v, 'v) prog" where
  "rc_deref x =
     atomic (\<lambda>s. if strong_rc (heap s) (rc_into_raw x) = 0 then Inl UseAfterFree
       else (case value_at (heap s) (rc_into_raw x) of None \<Rightarrow> Inl UseAfterFree | Some v \<Rightarrow> Inr (v, s)))"

definition rc_access :: "(rc, 'v, 'p) Strategy \<Rightarrow> usize \<Rightarrow> ('v, 'p DirectDeref, 'v) Access" where
  "rc_access S a =
     \<lparr>acc_load = bnd (any_load S a) (\<lambda>g. ret (DirectDeref g)),
      acc_deref = (\<lambda>d. rc_deref (guard_deref S (direct_guard d))),
      acc_drop = (\<lambda>d. guard_drop S (direct_guard d))\<rparr>"

text \<open>Type erasure: the boxed guard only remembers how to dereference and how to drop what is in the box.\<close>

datatype ('v, 'x) DynGuard = DynGuard "('v, 'x) prog" "('v, unit) prog"

fun dyn_deref :: "('v, 'x) DynGuard \<Rightarrow> ('v, 'x) prog" where
  "dyn_deref (DynGuard d c) = d"

fun dyn_drop :: "('v, 'x) DynGuard \<Rightarrow> ('v, unit) prog" where
  "dyn_drop (DynGuard d c) = c"

definition dyn_load :: "('v, 'g, 'x) Access \<Rightarrow> ('v, ('v, 'x) DynGuard) prog" where
  "dyn_load A = bnd (acc_load A) (\<lambda>g. ret (DynGuard (acc_deref A g) (acc_drop A g)))"

definition dyn_access :: "('v, 'g, 'x) Access \<Rightarrow> ('v, ('v, 'x) DynGuard, 'x) Access" where
  "dyn_access A = \<lparr>acc_load = dyn_load A, acc_deref = dyn_deref, acc_drop = dyn_drop\<rparr>"

datatype ('v, 'g, 'x) AccessConvert = AccessConvert "('v, 'g, 'x) Access"

fun convert_access :: "('v, 'g, 'x) AccessConvert \<Rightarrow> ('v, ('v, 'x) DynGuard, 'x) Access" where
  "convert_access (AccessConvert A) = \<lparr>acc_load = dyn_load A, acc_deref = dyn_deref, acc_drop = dyn_drop\<rparr>"

text \<open>A projection may follow pointers, so it is a program.\<close>

record ('v, 'g, 'x, 'y) MapGuard =
  mg_guard :: 'g
  mg_projection :: "'x \<Rightarrow> ('v, 'y) prog"

record ('v, 'g, 'x, 'y) Map =
  map_access :: "('v, 'g, 'x) Access"
  projection :: "'x \<Rightarrow> ('v, 'y) prog"

definition map_new :: "('v, 'g, 'x) Access \<Rightarrow> ('x \<Rightarrow> ('v, 'y) prog) \<Rightarrow> ('v, 'g, 'x, 'y) Map" where
  "map_new A f = \<lparr>map_access = A, projection = f\<rparr>"

definition map_guard_deref :: "('v, 'g, 'x) Access \<Rightarrow> ('v, 'g, 'x, 'y) MapGuard \<Rightarrow> ('v, 'y) prog" where
  "map_guard_deref A mg = bnd (acc_deref A (mg_guard mg)) (mg_projection mg)"

definition projected :: "('v, 'g, 'x, 'y) Map \<Rightarrow> ('v, ('v, 'g, 'x, 'y) MapGuard, 'y) Access" where
  "projected m =
     \<lparr>acc_load = bnd (acc_load (map_access m)) (\<lambda>g. ret \<lparr>mg_guard = g, mg_projection = projection m\<rparr>),
      acc_deref = map_guard_deref (map_access m),
      acc_drop = (\<lambda>mg. acc_drop (map_access m) (mg_guard mg))\<rparr>"

text \<open>\<open>ArcSwapAny::map\<close>.\<close>

definition any_map :: "(arc, 'v, 'p) Strategy \<Rightarrow> usize \<Rightarrow> ('v \<Rightarrow> ('v, 'y) prog) \<Rightarrow> ('v, 'p DirectDeref, 'v, 'y) Map" where
  "any_map S a f = map_new (arc_access S a) f"

datatype 'x ConstantDeref = ConstantDeref 'x

fun constant_value :: "'x ConstantDeref \<Rightarrow> 'x" where
  "constant_value (ConstantDeref x) = x"

datatype 'x Constant = Constant 'x

text \<open>The first argument is \<open>T::clone\<close>, which belongs to the client.\<close>

fun constant_access :: "('x \<Rightarrow> ('v, 'x) prog) \<Rightarrow> 'x Constant \<Rightarrow> ('v, 'x ConstantDeref, 'x) Access" where
  "constant_access clone_of (Constant x) =
     \<lparr>acc_load = bnd (clone_of x) (\<lambda>y. ret (ConstantDeref y)), acc_deref = (\<lambda>d. ret (constant_value d)), acc_drop = (\<lambda>_. ret ())\<rparr>"

section \<open>The contract\<close>

text \<open>Load, look and drop the guard: what a client does with an access.\<close>

definition observe :: "('v, 'g, 'x) Access \<Rightarrow> ('v, 'x) prog" where
  "observe A = bnd (acc_load A) (\<lambda>g. bnd (acc_deref A g) (\<lambda>x. bnd (acc_drop A g) (\<lambda>_. ret x)))"

locale access =
  fixes A :: "('v, 'g, 'x) Access"
    and ready :: "'v world \<Rightarrow> bool"
    and content :: "'v world \<Rightarrow> 'x"
    and trace :: "'v world \<Rightarrow> 'b"
  assumes observe_content: "ready w \<Longrightarrow>
    \<exists>w'. observe A w = (Inr (content w), w') \<and> content w' = content w \<and> trace w' = trace w"

lemma observe_projected:
  "observe (projected (map_new A (\<lambda>x. ret (f x)))) = bnd (observe A) (\<lambda>x. ret (f x))"
  by (simp add: observe_def projected_def map_new_def map_guard_deref_def bnd_assoc del: ret_exec)

lemma observe_dyn: "observe (dyn_access A) = observe A"
  by (simp add: observe_def dyn_access_def dyn_load_def bnd_assoc del: ret_exec)

lemma observe_convert: "observe (convert_access (AccessConvert A)) = observe A"
  by (simp add: observe_def dyn_load_def bnd_assoc del: ret_exec)

text \<open>Adapters inherit the contract: a projection shows the projected content, a type-erased access the
  same content.\<close>

context access
begin

lemma projected_access: "access (projected (map_new A (\<lambda>x. ret (f x)))) ready (\<lambda>w. f (content w)) trace"
proof
  fix w assume "ready w"
  then obtain w' where "observe A w = (Inr (content w), w')" "content w' = content w" "trace w' = trace w"
    using observe_content by blast
  then show "\<exists>w'. observe (projected (map_new A (\<lambda>x. ret (f x)))) w = (Inr (f (content w)), w') \<and>
      f (content w') = f (content w) \<and> trace w' = trace w"
    by (simp add: observe_projected bnd_apply)
qed

lemma erased_access: "access (dyn_access A) ready content trace"
  by unfold_locales (simp add: observe_dyn observe_content)

end

section \<open>The accesses of the crate\<close>

definition ready_at :: "usize \<Rightarrow> 'v world \<Rightarrow> bool" where
  "ready_at a w \<longleftrightarrow> settled w \<and> 0 < gens_left w \<and> (\<exists>p. holds_ptr False strong_rc a p w)"

definition content_at :: "usize \<Rightarrow> 'v world \<Rightarrow> 'v" where
  "content_at a w = the (value_at (heap (sh w)) (the (storage (sh w) a)))"

lemma strong_value: "0 < strong_rc h p \<Longrightarrow> \<exists>v. value_at h p = Some v"
  by (auto simp: strong_rc_def value_at_def split: if_splits option.splits)

lemma arc_from_ptr: "from_ptr arc_RefCnt p = Arc p"
  by (simp add: arc_RefCnt_def arc_from_raw_def)

interpretation arc_view: access "arc_access (hybrid_Strategy arc_RefCnt cfg) a" "ready_at a" "content_at a"
  "\<lambda>w. view strong_rc (sh w)" for cfg a
proof
  fix w :: "'a world" assume "ready_at a w"
  then obtain p where h: "settled w \<and> holds_ptr False strong_rc a p w" and g: "0 < gens_left w"
    by (auto simp: ready_at_def)
  obtain g w1 w' where r: "any_load (hybrid_Strategy arc_RefCnt cfg) a w = (Inr g, w1)"
      "settled w1 \<and> holds_ptr False strong_rc a p w1" "guard_deref (hybrid_Strategy (arc_RefCnt :: (arc, 'a) RefCnt) cfg) g = Arc p"
      "vals (view strong_rc (sh w1)) = vals (view strong_rc (sh w))"
      "guard_drop (hybrid_Strategy arc_RefCnt cfg) g w1 = (Inr (), w')"
    and w': "settled w' \<and> holds_ptr False strong_rc a p w'" "view strong_rc (sh w') = view strong_rc (sh w)"
    using arc_hybrid.load_drop_ok[OF h g, of cfg] unfolding arc_from_ptr by blast
  have pos: "0 < strong_rc (heap (sh w)) p" "0 < strong_rc (heap (sh w1)) p" "0 < strong_rc (heap (sh w')) p"
    using h r(2) w'(1) by (auto simp: holds_ptr_def live_ptr_def)
  have val: "value_at (heap (sh w1)) p = value_at (heap (sh w)) p" "value_at (heap (sh w')) p = value_at (heap (sh w)) p"
    using fun_cong[OF r(4), of p] arg_cong[OF w'(2), of "\<lambda>B. vals B p"] pos by (simp_all add: view_value)
  obtain x where x: "value_at (heap (sh w)) p = Some x" using strong_value[OF pos(1)] by blast
  have "arc_deref (Arc p) w1 = (Inr x, w1)"
    using pos val x r(2) by (intro arc_deref_solo) (simp_all add: settled_def)
  moreover have "content_at a w = x" "content_at a w' = x"
    using h w'(1) x val by (simp_all add: content_at_def holds_ptr_def)
  ultimately show "\<exists>w'. observe (arc_access (hybrid_Strategy arc_RefCnt cfg) a) w = (Inr (content_at a w), w') \<and>
      content_at a w' = content_at a w \<and> view strong_rc (sh w') = view strong_rc (sh w)"
    using r(1,3,5) w'(2) by (intro exI[of _ w']) (simp add: observe_def arc_access_def bnd_apply)
qed

interpretation arc_map_view: access "projected (any_map (hybrid_Strategy arc_RefCnt cfg) a (\<lambda>v. ret (f v)))" "ready_at a"
  "\<lambda>w. f (content_at a w)" "\<lambda>w. view strong_rc (sh w)" for cfg a f
  unfolding any_map_def by (rule arc_view.projected_access)

text \<open>The content itself stays, not only its projection.\<close>

lemma observe_map:
  assumes "ready_at a w"
  shows "\<exists>w'. observe (projected (any_map (hybrid_Strategy arc_RefCnt cfg) a (\<lambda>v. ret (f v)))) w = (Inr (f (content_at a w)), w') \<and>
    content_at a w' = content_at a w \<and> view strong_rc (sh w') = view strong_rc (sh w)"
  using arc_view.observe_content[OF assms, of cfg] unfolding any_map_def observe_projected by (auto simp: bnd_apply)

interpretation constant_view: access "constant_access (\<lambda>x. ret (cl x)) (Constant x)" "\<lambda>w. True" "\<lambda>w. cl x" "\<lambda>w. w" for cl x
  by unfold_locales (simp add: observe_def bnd_apply)

end
