(* ===== verification/Serde.thy ===== *)
theory Serde
  imports ArcSwapAny
begin

text \<open>
  Serialization of a storage, \<^verbatim>\<open>src/serde.rs\<close>: the value is loaded and handed to the serializer;
  a deserialized value goes into a new storage. Serializer and deserializer belong to the \<open>serde\<close>
  crate and to the value's type, so they are arguments; \<open>Inl\<close> is their error.
\<close>

definition serialize :: "('t, 'v, 'p) Strategy \<Rightarrow> ('t \<Rightarrow> ('v, 'e + 'o) prog) \<Rightarrow> usize \<Rightarrow> ('v, 'e + 'o) prog" where
  "serialize S ser a =
     bnd (any_load S a) (\<lambda>g.
     bnd (ser (guard_deref S g)) (\<lambda>r.
     bnd (guard_drop S g) (\<lambda>_.
     ret r)))"

definition deserialize :: "('t, 'v) RefCnt \<Rightarrow> ('v, 'e + 't) prog \<Rightarrow> usize \<Rightarrow> ('v, 'e + usize) prog" where
  "deserialize T de a =
     bnd de (\<lambda>r. case r of Inl e \<Rightarrow> ret (Inl e) | Inr x \<Rightarrow> bnd (any_from T a x) (\<lambda>b. ret (Inr b)))"

section \<open>Serializing leaves the books alone\<close>

context strategy
begin

lemma serialize_ok:
  assumes "holds a p w" and "0 < gens_left w"
    and "\<And>w1. vals (view cnt (sh w1)) = vals (view cnt (sh w)) \<Longrightarrow> ser (from_ptr T p) w1 = (Inr r, w1)"
  obtains w' where "serialize S ser a w = (Inr r, w')" and "progress 1 w w'" and "holds a p w'"
    and "view cnt (sh w') = view cnt (sh w)"
proof -
  obtain g w1 w' where g: "any_load S a w = (Inr g, w1)" "guard_deref S g = from_ptr T p"
      "vals (view cnt (sh w1)) = vals (view cnt (sh w))" "guard_drop S g w1 = (Inr (), w')"
    and w': "progress 1 w w'" "holds a p w'" "view cnt (sh w') = view cnt (sh w)"
    using load_drop_ok[OF assms(1,2)] .
  have "serialize S ser a w = (Inr r, w')"
    using g assms(3)[OF g(3)] by (simp add: serialize_def bnd_apply)
  then show ?thesis using that w' by blast
qed

end

end
