(* ===== verification/Shutdown.thy ===== *)
theory Shutdown
  imports System
begin

text \<open>
  The end of a program: it drops every handle and every storage it still has, in any order. The calls all
  return, and the heap is empty afterwards, so nothing leaks. Besides the balance of \<open>System\<close> this rests on an
  invariant of the heap, that an allocation is gone as soon as its counters are zero, which is kept by every function
  the calls are made of.
\<close>

section \<open>Tight heaps\<close>

text \<open>Every allocation is owned: the strong counter is positive. No call creates weak pointers.\<close>

definition tight :: "'v heap \<Rightarrow> bool" where
  "tight h \<longleftrightarrow> (\<forall>p c. h p = Some c \<longrightarrow> p \<noteq> 0 \<and> 0 < strong c \<and> weak c = 0)"

lemma tight_new: "tight h \<Longrightarrow> p \<noteq> 0 \<Longrightarrow> tight (h(p \<mapsto> \<lparr>strong = 1, weak = 0, payload = v\<rparr>))"
  by (simp add: tight_def)

lemma tight_up: "tight h \<Longrightarrow> tight (strong_up p h)"
  by (auto simp: tight_def strong_up_def split: option.splits)

lemma tight_down: "tight h \<Longrightarrow> tight (strong_down p h)"
  by (auto simp: tight_def strong_down_def put_cell_def split: option.splits)

lemma tight_empty: "tight h \<Longrightarrow> (\<And>p. strong_rc h p = 0) \<Longrightarrow> h = Map.empty"
proof (rule ext)
  fix p assume a: "tight h" "\<And>p. strong_rc h p = 0"
  show "h p = None"
  proof (cases "h p")
    case (Some c)
    then have "p \<noteq> 0" "0 < strong c" using a(1) unfolding tight_def by blast+
    then show ?thesis using a(2)[of p] Some by (simp add: strong_rc_def)
  qed
qed

text \<open>A program that keeps the heap tight.\<close>

named_theorems tidies

definition tidy :: "('v, 'a) prog \<Rightarrow> bool" where
  "tidy m \<longleftrightarrow> (\<forall>w x w'. solo w \<longrightarrow> tight (heap (sh w)) \<longrightarrow> m w = (Inr x, w') \<longrightarrow> solo w' \<and> tight (heap (sh w')))"

lemma tidyD: "tidy m \<Longrightarrow> solo w \<Longrightarrow> tight (heap (sh w)) \<Longrightarrow> m w = (Inr x, w') \<Longrightarrow> solo w' \<and> tight (heap (sh w'))"
  unfolding tidy_def by blast

lemma tidy_bnd [tidies]:
  assumes "tidy m" and "\<And>x. tidy (f x)"
  shows "tidy (bnd m f)"
  unfolding tidy_def
proof (intro allI impI)
  fix w x w' assume s: "solo w" "tight (heap (sh w))" and r: "bnd m f w = (Inr x, w')"
  obtain y v where y: "m w = (Inr y, v)" "f y v = (Inr x, w')"
    using r by (auto simp: bnd_apply split: prod.splits sum.splits)
  then show "solo w' \<and> tight (heap (sh w'))" using tidyD[OF assms(1) s y(1)] tidyD[OF assms(2) _ _ y(2)] by blast
qed

lemma tidy_cases [tidies]:
  "(b \<Longrightarrow> tidy m) \<Longrightarrow> (\<not> b \<Longrightarrow> tidy m') \<Longrightarrow> tidy (if b then m else m')"
  "(\<And>a b. tidy (g a b)) \<Longrightarrow> tidy (case p of (a, b) \<Rightarrow> g a b)"
  "tidy n \<Longrightarrow> (\<And>y. tidy (s y)) \<Longrightarrow> tidy (case z of None \<Rightarrow> n | Some y \<Rightarrow> s y)"
  "(\<And>l. tidy (e l)) \<Longrightarrow> (\<And>r. tidy (k r)) \<Longrightarrow> tidy (case q of Inl l \<Rightarrow> e l | Inr r \<Rightarrow> k r)"
  by (auto split: prod.splits option.splits sum.splits)

lemma tidy_atomic: "(\<And>s x s'. tight (heap s) \<Longrightarrow> f s = Inr (x, s') \<Longrightarrow> tight (heap s')) \<Longrightarrow> tidy (atomic f)"
  unfolding tidy_def by (auto simp: atomic_solo split: prod.splits sum.splits)

lemma tidy_basic [tidies]:
  "tidy (ret x)" "tidy (raise f)" "tidy get_loc" "tidy (modify_loc g)" "tidy get_fuel" "tidy (assert_that b)"
  "tidy (debug_assert b)" "tidy (expect y)" "tidy spurious"
  by (auto simp: tidy_def loc_exec assert_that_def debug_assert_def expect_def spurious_def split: option.splits list.splits if_splits)

section \<open>Accesses\<close>

lemma tidy_node [tidies]: "tidy (node_read n h)" "tidy (node_rmw n f)"
  unfolding node_read_def node_rmw_def by (rule tidy_atomic; auto split: option.splits prod.splits)+

lemma tidy_slot_rmw [tidies]: "tidy (slot_rmw d f)"
proof (cases d)
  case (FastDebt n i)
  then show ?thesis by (auto intro!: tidy_atomic split: option.splits prod.splits if_splits)
next
  case (HelpingDebt n)
  then show ?thesis by (simp add: tidies)
qed

lemma tidy_storage_rmw [tidies]: "tidy (storage_rmw a f)"
  unfolding storage_rmw_def by (rule tidy_atomic) (auto split: option.splits prod.splits)

lemma tidy_storage [tidies]: "tidy (place_storage a p)" "tidy (remove_storage a)"
  unfolding place_storage_def remove_storage_def by (rule tidy_atomic; auto split: option.splits)+

lemma tidy_envelope [tidies]: "tidy (envelope_load e)" "tidy (envelope_store e p)"
  unfolding envelope_load_def envelope_store_def by (rule tidy_atomic; auto split: option.splits)+

lemma tidy_list [tidies]: "tidy (atomic (\<lambda>s. Inr (h s, s)))" "tidy alloc_node" "tidy (list_head_cas_weak x n)"
  unfolding alloc_node_def list_head_cas_weak_def
  by (auto intro!: tidy_atomic tidies simp: Let_def split: list.splits if_splits)

lemmas access_defs = slot_load_def slot_swap_def slot_cas_def pay_def storage_load_def storage_swap_def storage_cas_def
  storage_cas_weak_def control_load_def control_swap_def control_cas_def active_addr_load_def active_addr_store_def
  space_offer_load_def space_offer_store_def in_use_load_def in_use_swap_def in_use_cas_def reserve_writer_def
  release_writer_def

lemma tidy_access [tidies]:
  "tidy (slot_load d)" "tidy (slot_swap d p)" "tidy (pay d p)" "tidy (storage_load a)" "tidy (storage_swap a p)"
  "tidy (storage_cas_weak a p q)" "tidy (control_load n)" "tidy (control_swap n x)" "tidy (control_cas n x y)"
  "tidy (active_addr_load n)" "tidy (active_addr_store n a)" "tidy (space_offer_load n)" "tidy (space_offer_store n e)"
  "tidy (in_use_load n)" "tidy (in_use_swap n x)" "tidy (in_use_cas n x y)" "tidy (reserve_writer n)" "tidy (release_writer n)"
  unfolding access_defs by (intro tidies)+

section \<open>The list of nodes\<close>

lemma tidy_for_each: "(\<And>i. tidy (f i)) \<Longrightarrow> tidy (for_each is f)"
  by (induction "is") (simp_all add: tidies del: ret_exec)

lemma tidy_traverse_from: "(\<And>n. tidy (f n)) \<Longrightarrow> tidy (traverse_from k cur f)"
  by (induction k arbitrary: cur) (auto simp del: ret_exec intro!: tidies)

lemma tidy_traverse: "(\<And>n. tidy (f n)) \<Longrightarrow> tidy (traverse f)"
  unfolding traverse_def by (intro tidies tidy_traverse_from)

lemma tidy_push_loop [tidies]: "tidy (push_loop k n x)"
  by (induction k arbitrary: x) (auto simp del: ret_exec intro!: tidies)

lemma tidy_claim [tidies]: "tidy (start_cooldown n)" "tidy (check_cooldown n)" "tidy (try_claim n)"
  unfolding start_cooldown_def check_cooldown_def try_claim_def by (intro tidies)+

lemma tidy_node_get [tidies]: "tidy node_get" "tidy local_drop" "tidy local_node"
  unfolding node_get_def local_drop_def local_node_def by (intro tidies tidy_traverse)+

lemma tidy_with_local:
  assumes "tidy f"
  shows "tidy (with_local f)"
proof -
  have w: "\<And>l. tidy (bnd node_get (\<lambda>n. bnd (modify_loc (\<lambda>_. local_default\<lparr>node := Some n\<rparr>)) (\<lambda>_.
      bnd f (\<lambda>x. bnd local_drop (\<lambda>_. bnd (modify_loc (\<lambda>_. l)) (\<lambda>_. ret x))))))"
    "\<And>b. tidy (bnd (if b then bnd node_get (\<lambda>n. modify_loc (\<lambda>l. l\<lparr>node := Some n\<rparr>)) else ret ()) (\<lambda>_. f))"
    by (intro tidies assms)+
  show ?thesis
    unfolding tidy_def
  proof (intro allI impI)
    fix u x u' assume s: "solo u" "tight (heap (sh u))" and r: "with_local f u = (Inr x, u')"
    show "solo u' \<and> tight (heap (sh u'))"
      using tidyD[OF w(1)[of "loc u"] s, of x u'] tidyD[OF w(2)[of "node (loc u) = None"] s, of x u'] r
      by (cases "tls_alive u") (simp_all add: with_local_def)
  qed
qed

lemma tidy_debts [tidies]: "tidy (fast_get_debt n p)" "tidy (helping_get_debt n a)" "tidy (helping_confirm n c p)"
proof -
  have "tidy (fast_scan n p off is)" for off "is" by (induction "is") (auto simp: Let_def simp del: ret_exec intro!: tidies)
  then show "tidy (fast_get_debt n p)" unfolding fast_get_debt_def by (intro tidies)
qed (auto simp: helping_get_debt_def helping_confirm_def Let_def simp del: ret_exec intro!: tidies)

lemma tidy_local [tidies]: "tidy (new_fast p)" "tidy (new_helping a)" "tidy (confirm_helping c p)"
  unfolding new_fast_def new_helping_def confirm_helping_def by (intro tidies)+

section \<open>Operations of a pointer type\<close>

locale disposing = shared_cnt T cnt up down valid nullable
  for T :: "('t, 'v) RefCnt" and cnt up down valid nullable +
  assumes clone_tight: "clone T x h = Inr h' \<Longrightarrow> tight h \<Longrightarrow> tight h'"
    and drop_tight: "drop_value T x h = Inr h' \<Longrightarrow> tight h \<Longrightarrow> tight h'"
    and cnt_tight: "tight h \<Longrightarrow> (\<And>p. cnt h p = 0) \<Longrightarrow> h = Map.empty"
begin

lemma tidy_counts [tidies]: "tidy (inc_value T x)" "tidy (dec_ptr T p)" "tidy (drop_val T x)" "tidy (clone_val T x)"
  unfolding inc_value_def dec_ptr_def drop_val_def clone_val_def inc_def dec_def
  by (rule tidy_atomic; auto dest: clone_tight drop_tight split: sum.splits)+

lemma tidy_hp [tidies]: "tidy (hp_into_inner T g)" "tidy (hp_drop T g)" "tidy (attempt T a)" "tidy (fallback T a)"
proof -
  show i: "tidy (hp_into_inner T g)" for g unfolding hp_into_inner_def by (intro tidies)
  show "tidy (hp_drop T g)" "tidy (attempt T a)" unfolding hp_drop_def attempt_def by (intro tidies)+
  show "tidy (fallback T a)" unfolding fallback_def by (intro tidies i)
qed

lemma tidy_load [tidies]: "tidy (hybrid_load T cfg a)"
  unfolding hybrid_load_def by (intro tidy_with_local tidies)

lemma tidy_help:
  assumes "tidy r"
  shows "tidy (local_help T who a r)"
proof -
  have "tidy (help_loop k T self who a r c)" for k self c
    by (induction k arbitrary: c) (auto simp: Let_def simp del: ret_exec intro!: tidies assms)
  then show ?thesis unfolding local_help_def helping_help_def by (intro tidies)
qed

lemma tidy_wait [tidies]: "tidy (hybrid_wait_for_readers T cfg p a)"
proof -
  have "tidy (pay_slots T x p ds)" for x ds unfolding pay_slots_def by (intro tidies tidy_for_each)
  then have "tidy (pay_node T x p a (bnd (hybrid_load T cfg a) (hp_into_inner T)) n)" for x n
    unfolding pay_node_def by (intro tidies tidy_help)
  then show ?thesis
    unfolding hybrid_wait_for_readers_def pay_all_def Let_def by (intro tidy_with_local tidies tidy_traverse)
qed

lemma tidy_cas [tidies]: "tidy (hybrid_compare_and_swap T cfg a c x)"
proof -
  have "tidy (drop_raw T c)" by (cases c) (simp_all add: tidies del: ret_exec)
  then have "tidy (hybrid_cas_loop k T cfg a c x)" for k
    by (induction k) (auto simp: Let_def simp del: ret_exec intro!: tidies)
  then show ?thesis unfolding hybrid_compare_and_swap_def by (intro tidies)
qed

lemma tidy_swap [tidies]: "tidy (any_swap T (hybrid_Strategy T cfg) a x)"
  by (auto simp: any_swap_def hybrid_Strategy_def Let_def simp del: ret_exec intro!: tidies)

lemma tidy_perform:
  assumes "\<And>v. c \<noteq> Alloc v"
  shows "tidy (perform T cfg c H)"
  using assms
  by (cases c)
    (auto simp: guard_drop_def guard_into_inner_def any_new_def any_from_def with_strategy_def any_load_def any_store_def
      any_compare_and_swap_def any_into_inner_def any_drop_def hybrid_Strategy_def Let_def simp del: ret_exec intro!: tidies tidy_swap[unfolded hybrid_Strategy_def])

lemma perform_tight:
  assumes "tight (heap (mem Z))" and "may_call c Z" and "perform T cfg c H (in_thread t k ws Z) = (Inr H', w')"
  shows "tight (heap (sh w'))"
proof (cases "\<exists>v. c = Alloc v")
  case False
  then have "tidy (perform T cfg c H)" by (intro tidy_perform) blast
  from tidyD[OF this _ _ assms(3)] show ?thesis using assms(1) by simp
next
  case True
  then obtain v where c: "c = Alloc v" by blast
  then obtain p ps where p: "arc_supply (mem Z) = p # ps" "p \<noteq> 0" using assms(2) by (auto split: list.splits)
  show ?thesis
    using assms(3) tight_new[OF assms(1) p(2), of v] by (auto simp: c bnd_apply arc_new_def atomic_solo p(1))
qed

lemma reachable_tight: "reachable T cfg Z \<Longrightarrow> tight (heap (mem Z))"
proof (induction rule: reachable.induct)
  case (start boxes arcs)
  then show ?case by (simp add: boot_def tight_def)
next
  case (call Z c t k ws H w')
  then show ?case using perform_tight[OF call.IH call.hyps(2,4)] by simp
qed

end

section \<open>Giving everything up\<close>

text \<open>Thread \<open>t\<close> makes the given calls, one after the other, undisturbed.\<close>

fun run_calls :: "('t, 'v) RefCnt \<Rightarrow> Config \<Rightarrow> nat \<Rightarrow> 'v call list \<Rightarrow> 'v sys \<Rightarrow> fault + 'v sys" where
  "run_calls T cfg t [] Z = Inr Z"
| "run_calls T cfg t (c # cs) Z =
     (case perform T cfg c (hnd Z) (in_thread t 1 [] Z) of
        (Inl f, w) \<Rightarrow> Inl f
      | (Inr H, w) \<Rightarrow> run_calls T cfg t cs \<lparr>mem = sh w, thr = (thr Z)(t := loc w), hnd = H\<rparr>)"

text \<open>The calls drop each handle and each storage of the state, in some order.\<close>

definition gives_up_all :: "'v call list \<Rightarrow> 'v sys \<Rightarrow> bool" where
  "gives_up_all cs Z \<longleftrightarrow> finite (dom (storage (mem Z))) \<and>
     mset cs = image_mset DropHandle (hnd Z) + image_mset DropStorage (mset_set (dom (storage (mem Z))))"

text \<open>The thread has a node, and its generation counter is not exhausted.\<close>

definition can_work :: "nat \<Rightarrow> 'v sys \<Rightarrow> bool" where
  "can_work t Z \<longleftrightarrow> node (thr Z t) \<noteq> None \<and> 0 < gens_left (in_thread t 1 [] Z)"

lemma can_work_resources: "can_work t Z \<Longrightarrow> resources t 1 [] Z"
  by (auto simp: can_work_def resources_def spurious_left_def in_thread_def)

lemma can_work_progress:
  assumes "can_work t Z" and "progress 0 (in_thread t 1 [] Z) w'"
  shows "can_work t \<lparr>mem = sh w', thr = (thr Z)(t := loc w'), hnd = H\<rparr>"
  using assms by (simp add: can_work_def progress_def gens_left_def)

lemma gives_up_cases:
  assumes "gives_up_all (c # cs) Z"
  obtains (handle) h where "c = DropHandle h" and "h \<in># hnd Z"
      and "\<And>M th. storage M = storage (mem Z) \<Longrightarrow> gives_up_all cs \<lparr>mem = M, thr = th, hnd = hnd Z - {#h#}\<rparr>"
  | (storage) a p where "c = DropStorage a" and "storage (mem Z) a = Some p"
      and "\<And>M th. storage M = (storage (mem Z))(a := None) \<Longrightarrow> gives_up_all cs \<lparr>mem = M, thr = th, hnd = hnd Z\<rparr>"
proof -
  let ?D = "dom (storage (mem Z))"
  let ?A = "image_mset DropHandle (hnd Z)" and ?B = "image_mset DropStorage (mset_set ?D)"
  have fin: "finite ?D" and m: "add_mset c (mset cs) = ?A + ?B" using assms by (simp_all add: gives_up_all_def)
  have "c \<in># ?A + ?B" unfolding m[symmetric] by simp
  then consider h where "c = DropHandle h" "h \<in># hnd Z" | a where "c = DropStorage a" "a \<in> ?D" using fin by auto
  then show ?thesis
  proof cases
    case (1 h)
    have "hnd Z = add_mset h (hnd Z - {#h#})" using 1(2) by simp
    then have "?A = add_mset c (image_mset DropHandle (hnd Z - {#h#}))" unfolding 1(1) by (metis image_mset_add_mset)
    then have "mset cs = image_mset DropHandle (hnd Z - {#h#}) + ?B" using m by simp
    then show ?thesis using handle[OF 1] fin by (simp add: gives_up_all_def)
  next
    case (2 a)
    have "mset_set ?D = add_mset a (mset_set (?D - {a}))" using fin 2(2) by (simp add: mset_set.remove)
    then have "mset cs = ?A + image_mset DropStorage (mset_set (?D - {a}))" using m 2(1) by simp
    then show ?thesis using storage[OF 2(1)] 2(2) fin by (auto simp: gives_up_all_def)
  qed
qed

context disposing
begin

text \<open>Nothing is left once there are no owners.\<close>

lemma nothing_left:
  assumes "reachable T cfg Z" and "hnd Z = {#}" and "storage (mem Z) = Map.empty"
  shows "heap (mem Z) = Map.empty \<and> owed_of (mem Z) = {}"
proof -
  have b: "balanced (view cnt (mem Z)) {#}" using reachable_ok[OF assms(1)] assms(2) by (simp add: sys_ok_def)
  have "cnt (heap (mem Z)) p = 0" for p
    using balanced_total[OF b, of p] assms(3) cnt_null[of "heap (mem Z)"]
    by (cases "p = 0") (auto simp: total_def stored_def held_def)
  then have "heap (mem Z) = Map.empty" by (rule cnt_tight[OF reachable_tight[OF assms(1)]])
  moreover have "x \<notin> owed_of (mem Z)" for x using balanced_debt(1)[OF b, of "fst x" "snd x"] by (cases x) auto
  ultimately show ?thesis by blast
qed

lemma shutdown:
  assumes "reachable T cfg Z" and "can_work t Z" and "gives_up_all cs Z"
  shows "\<exists>Z'. run_calls T cfg t cs Z = Inr Z' \<and> reachable T cfg Z' \<and> hnd Z' = {#} \<and> storage (mem Z') = Map.empty"
  using assms
proof (induction cs arbitrary: Z)
  case Nil
  then show ?case by (auto simp: gives_up_all_def mset_set_empty_iff)
next
  case (Cons c cs)
  let ?w = "in_thread t 1 [] Z"
  note ok = reachable_ok[OF Cons.prems(1)] and res = can_work_resources[OF Cons.prems(2)]
  obtain H w' where w': "perform T cfg c (hnd Z) ?w = (Inr H, w')" "progress 0 ?w w'" "may_call c Z"
      "gives_up_all cs \<lparr>mem = sh w', thr = (thr Z)(t := loc w'), hnd = H\<rparr>"
  proof (cases rule: gives_up_cases[OF Cons.prems(3), case_names handle storage])
    case (handle h)
    obtain p x where h: "h = (p, x)" by (cases h)
    obtain w' where "perform T cfg (DropHandle (p, x)) (hnd Z) ?w = (Inr (hnd Z - {#(p, x)#}), w')" "progress 0 ?w w'"
        and v: "view cnt (sh w') = released p x (view cnt (mem Z))"
      using drop_run[OF ok res, of p x cfg] handle(2) h by auto
    moreover have "storage (sh w') = storage (mem Z)" using arg_cong[OF v, of cells] by simp
    ultimately show ?thesis using that handle h by simp
  next
    case (storage a p)
    obtain w' where "perform T cfg (DropStorage a) (hnd Z) ?w = (Inr (hnd Z), w')" "progress 0 ?w w'"
        and v: "view cnt (sh w') = take_out a (unref p (paid_off p (view cnt (mem Z))))"
      using drop_storage_run[OF ok res storage(2)] .
    moreover have "storage (sh w') = (storage (mem Z))(a := None)"
      using arg_cong[OF v, of cells] by (simp add: take_out_def)
    ultimately show ?thesis using that storage by simp
  qed
  let ?Z = "\<lparr>mem = sh w', thr = (thr Z)(t := loc w'), hnd = H\<rparr>"
  have "reachable T cfg ?Z" by (rule reachable.call[OF Cons.prems(1) w'(3) res w'(1)])
  then show ?case using Cons.IH[OF _ can_work_progress[OF Cons.prems(2) w'(2)] w'(4)] w'(1) by simp
qed

end

section \<open>The pointer types\<close>

lemma option_tight:
  assumes "\<And>x h h'. clone T x h = Inr h' \<Longrightarrow> tight h \<Longrightarrow> tight h'" "\<And>x h h'. drop_value T x h = Inr h' \<Longrightarrow> tight h \<Longrightarrow> tight h'"
  shows "clone (option_RefCnt T) y h = Inr h' \<Longrightarrow> tight h \<Longrightarrow> tight h'"
    and "drop_value (option_RefCnt T) y h = Inr h' \<Longrightarrow> tight h \<Longrightarrow> tight h'"
  using assms by (auto simp: option_RefCnt_def option_clone_def option_drop_def split: option.splits)

interpretation option_arc_heap: disposing "option_RefCnt arc_RefCnt" strong_rc "unless_null strong_up"
  "unless_null strong_down" "option_valid arc_valid" True
  by unfold_locales
    (auto intro: tight_empty elim!: option_tight[rotated 2]
      simp: arc_RefCnt_def arc_clone_def arc_drop_def tight_up tight_down split: if_splits)

interpretation option_rc_heap: disposing "option_RefCnt rc_RefCnt" strong_rc "unless_null strong_up"
  "unless_null strong_down" "option_valid rc_valid" True
  by unfold_locales
    (auto intro: tight_empty elim!: option_tight[rotated 2]
      simp: rc_RefCnt_def rc_clone_def rc_drop_def tight_up tight_down split: if_splits)

end
