(* ===== verification/Demo.thy ===== *)
theory Demo
  imports Registers Interference Cache Access Serde Shutdown
begin

unbundle bit_operations_syntax

text \<open>
  Concrete states on which the theorems of the development are exercised: a freshly started process
  with some memory to allocate from, and a memory in which an \<open>ArcSwapOption\<close> at address 256
  holds the value 42 (a second value, 43, waits outside with one reference).
\<close>

abbreviation OA :: "(arc option, 'v) RefCnt" where
  "OA \<equiv> option_RefCnt arc_RefCnt"

definition opt_arc :: "usize \<Rightarrow> arc option" where
  "opt_arc p = (if p = 0 then None else Some (Arc p))"

lemma OA_from_ptr [simp]: "from_ptr OA p = opt_arc p"
  by (simp add: option_RefCnt_def option_from_ptr_def opt_arc_def arc_RefCnt_def arc_from_raw_def)

lemma OA_into_ptr [simp]: "into_ptr OA (opt_arc p) = p"
  by (simp add: option_RefCnt_def option_into_ptr_def opt_arc_def arc_RefCnt_def)

lemma OA_as_ptr [simp]: "as_ptr OA (opt_arc p) = p"
  by (simp add: option_RefCnt_def option_as_ptr_def opt_arc_def arc_RefCnt_def arc_as_ptr_def)

lemma OA_valid [simp]: "option_valid arc_valid (opt_arc p)"
  by (simp add: option_valid_def opt_arc_def arc_valid_def)

definition demo_start :: "nat sys" where
  "demo_start = boot [(4096, 8192)] [16, 32]"

definition demo_mem :: "nat shared" where
  "demo_mem = (boot_mem [(4096, 8192)] [48, 64])\<lparr>
     heap := [16 \<mapsto> \<lparr>strong = 1, weak = 0, payload = 42\<rparr>, 32 \<mapsto> \<lparr>strong = 1, weak = 0, payload = 43\<rparr>],
     storage := [256 \<mapsto> 16]\<rparr>"

definition demo :: "nat world" where
  "demo = \<lparr>sh = demo_mem, loc = local_default, tls_alive = True, sched = [], weak_cas = [], fuel = 4\<rparr>"

lemma demo_fields [simp]:
  "sh demo = demo_mem" "loc demo = local_default" "weak_cas demo = []" "fuel demo = 4" "sched demo = []"
  by (simp_all add: demo_def)

lemma demo_mem_fields [simp]:
  "storage demo_mem = [256 \<mapsto> 16]" "nodes demo_mem = Map.empty"
  "heap demo_mem = [16 \<mapsto> \<lparr>strong = 1, weak = 0, payload = 42\<rparr>, 32 \<mapsto> \<lparr>strong = 1, weak = 0, payload = 43\<rparr>]"
  by (simp_all add: demo_mem_def)

lemma demo_box: "box_available demo_mem"
  by (simp add: box_available_def demo_mem_def boot_mem_def aligned4_def TAG_MASK_def)

lemma demo_chained: "chained demo_mem []"
  by (simp add: chained_def demo_mem_def boot_mem_def)

lemma demo_quiet: "quiet demo_mem"
  by (simp add: quiet_def)

lemma demo_settled: "settled demo"
  using demo_box demo_chained demo_quiet
  by (auto simp: settled_def demo_def solo_def local_ok_def local_default_def spurious_left_def)

lemma demo_gens: "0 < gens_left demo" "spurious_left demo = 0"
  by (simp_all add: gens_left_def local_default_def spurious_left_def)

lemma demo_live: "live_ptr True strong_rc (heap (sh demo)) 16" "live_ptr True strong_rc (heap (sh demo)) 32"
    "live_ptr False strong_rc (heap (sh demo)) 16"
  by (simp_all add: live_ptr_def strong_rc_def)

lemma demo_not_NONE: "(16 :: usize) \<noteq> NONE" "(32 :: usize) \<noteq> NONE"
  by (simp_all add: NONE_def)

lemma demo_holds: "holds_ptr True strong_rc 256 16 demo" "holds_ptr False strong_rc 256 16 demo"
  using demo_live demo_not_NONE by (simp_all add: holds_ptr_def)

lemmas demo_facts = demo_settled demo_gens demo_live demo_not_NONE demo_holds

section \<open>Reachable states\<close>

lemma demo_start_reachable: "reachable T cfg demo_start"
  unfolding demo_start_def by (rule reachable.start)

lemma demo_start_resources: "resources t 1 [] demo_start"
  by (simp add: resources_def in_thread_def demo_start_def boot_def spurious_left_def gens_left_def
      local_default_def box_available_def aligned4_def TAG_MASK_def)

lemma demo_start_alloc: "may_call (Alloc 42) demo_start"
  by (simp add: demo_start_def boot_def NONE_def)

text \<open>The process after its first \<open>Arc::new(42)\<close>.\<close>

definition demo_one :: "nat sys" where
  "demo_one = \<lparr>mem = (boot_mem [(4096, 8192)] [32])\<lparr>heap := [16 \<mapsto> \<lparr>strong = 1, weak = 0, payload = 42\<rparr>]\<rparr>,
     thr = (\<lambda>_. local_default), hnd = {#(16, None)#}\<rparr>"

lemma demo_one_reachable: "reachable T cfg demo_one"
proof -
  let ?w = "in_thread 0 1 [] demo_start"
  let ?w' = "?w\<lparr>sh := (boot_mem [(4096, 8192)] [32])\<lparr>heap := [16 \<mapsto> \<lparr>strong = 1, weak = 0, payload = 42\<rparr>]\<rparr>\<rparr>"
  have "perform T cfg (Alloc 42) (hnd demo_start) ?w = (Inr {#(16, None)#}, ?w')"
    by (simp add: bnd_apply arc_new_def atomic_solo demo_start_def boot_def boot_mem_def)
  then have "reachable T cfg \<lparr>mem = sh ?w', thr = (thr demo_start)(0 := loc ?w'), hnd = {#(16, None)#}\<rparr>"
    by (rule reachable.call[OF demo_start_reachable demo_start_alloc demo_start_resources])
  then show ?thesis by (simp add: demo_one_def demo_start_def boot_def fun_upd_idem)
qed

text \<open>Then the value goes into a storage at address 256, and a thread loads it.\<close>

definition demo_two :: "nat sys" where
  "demo_two = \<lparr>mem = (mem demo_one)\<lparr>storage := [256 \<mapsto> 16]\<rparr>, thr = (\<lambda>_. local_default), hnd = {#}\<rparr>"

lemma demo_two_reachable: "reachable T cfg demo_two" if "into_ptr T (from_ptr T 16) = 16"
proof -
  let ?w = "in_thread 0 1 [] demo_one"
  let ?w' = "?w\<lparr>sh := (mem demo_one)\<lparr>storage := [256 \<mapsto> 16]\<rparr>\<rparr>"
  have res: "resources 0 1 [] demo_one"
    by (simp add: resources_def in_thread_def demo_one_def spurious_left_def gens_left_def
        local_default_def box_available_def aligned4_def TAG_MASK_def)
  have may: "may_call (Place 256 (16, None)) demo_one" by (simp add: demo_one_def)
  have "perform T cfg (Place 256 (16, None)) (hnd demo_one) ?w = (Inr {#}, ?w')"
    using that by (simp add: bnd_apply any_new_def any_from_def with_strategy_def place_storage_def atomic_solo demo_one_def)
  then have "reachable T cfg \<lparr>mem = sh ?w', thr = (thr demo_one)(0 := loc ?w'), hnd = {#}\<rparr>"
    by (rule reachable.call[OF demo_one_reachable may res])
  then show ?thesis by (simp add: demo_one_def demo_two_def fun_upd_idem)
qed

definition demo_load :: "(fault + handles) \<times> nat world" where
  "demo_load = perform OA DefaultConfig (Load 256) (hnd demo_two) (in_thread 0 1 [] demo_two)"

definition demo_three :: "nat sys" where
  "demo_three = (case demo_load of (Inl e, w) \<Rightarrow> demo_two
     | (Inr H, w) \<Rightarrow> \<lparr>mem = sh w, thr = (thr demo_two)(0 := loc w), hnd = H\<rparr>)"

lemma demo_three_node: "node (thr demo_three 0) = Some 4096"
  by code_simp

lemma demo_three_reachable: "reachable OA DefaultConfig demo_three"
proof -
  have two: "reachable OA DefaultConfig demo_two" by (rule demo_two_reachable) simp
  have res: "resources 0 1 [] demo_two"
    by (simp add: resources_def in_thread_def demo_two_def demo_one_def spurious_left_def gens_left_def
        local_default_def box_available_def aligned4_def TAG_MASK_def)
  have may: "may_call (Load 256) demo_two" by (simp add: demo_two_def demo_one_def)
  obtain H w where r: "demo_load = (Inr H, w)"
    using option_arc.perform_ok[OF option_arc.reachable_ok[OF two] may res, of DefaultConfig]
    by (auto simp: call_ok_def demo_load_def)
  then have "reachable OA DefaultConfig \<lparr>mem = sh w, thr = (thr demo_two)(0 := loc w), hnd = H\<rparr>"
    unfolding demo_load_def by (rule reachable.call[OF two may res])
  then show ?thesis by (simp add: demo_three_def r)
qed

lemma demo_three_handle: "hnd demo_three = {#(16, Some (FastDebt 4096 0))#}"
  by code_simp

lemma demo_three_storage: "storage (mem demo_three) = [256 \<mapsto> 16]"
proof -
  let ?w = "in_thread 0 1 [] demo_two"
  have two: "reachable OA DefaultConfig demo_two" by (rule demo_two_reachable) simp
  have res: "resources 0 1 [] demo_two"
    by (simp add: resources_def in_thread_def demo_two_def demo_one_def spurious_left_def gens_left_def
        local_default_def box_available_def aligned4_def TAG_MASK_def)
  have st: "storage (mem demo_two) 256 = Some 16" by (simp add: demo_two_def)
  have g: "0 < gens_left ?w" using res by (simp add: resources_def)
  show ?thesis
  proof (rule option_arc.load_fact[OF option_arc.sys_holds[OF option_arc.reachable_ok[OF two] res st] g, where cfg = DefaultConfig])
    fix gd w' assume r: "any_load (hybrid_Strategy OA DefaultConfig) 256 ?w = (Inr gd, w')"
      "view strong_rc (sh w') = acquired 16 (hp_debt (inner gd)) (view strong_rc (sh ?w))"
    have "storage (sh w') = storage (mem demo_two)" using arg_cong[OF r(2), of cells] by simp
    moreover obtain H where H: "demo_load = (Inr H, w')" using r(1) by (simp add: demo_load_def bnd_apply)
    have "mem demo_three = sh w'" by (simp add: demo_three_def H)
    ultimately show ?thesis by (simp add: demo_two_def)
  qed
qed

text \<open>To end the program, drop the storage and then the guard that outlives it.\<close>

definition demo_farewell :: "nat call list" where
  "demo_farewell = [DropStorage 256, DropHandle (16, Some (FastDebt 4096 0))]"

lemma demo_three_ends: "can_work 0 demo_three" "gives_up_all demo_farewell demo_three"
proof -
  show "can_work 0 demo_three"
  proof -
    have "generation (thr demo_three 0) = 0" by code_simp
    then show ?thesis using demo_three_node by (simp add: can_work_def gens_left_def)
  qed
  show "gives_up_all demo_farewell demo_three"
    by (simp add: gives_up_all_def demo_farewell_def demo_three_storage demo_three_handle add_mset_commute)
qed

section \<open>States with nodes\<close>

lemma demo_many_gens: "1 < gens_left demo"
  by (simp add: gens_left_def local_default_def)

text \<open>A thread that holds the only node; then the same with a second node whose owner announced a load
  from the storage at 256 and waits.\<close>

definition demo_held :: "nat world" where
  "demo_held = demo\<lparr>sh := demo_mem\<lparr>nodes := [4096 \<mapsto> fresh_node 8192 0], envelopes := [8192 \<mapsto> 0],
     list_head := 4096, node_cnt := 1\<rparr>, loc := local_default\<lparr>node := Some 4096\<rparr>\<rparr>"

definition demo_reader :: Node where
  "demo_reader = (fresh_node 12288 0)\<lparr>helping := (helping (fresh_node 12288 0))\<lparr>control := 6, active_addr := 256\<rparr>\<rparr>"

definition demo_pair :: "nat world" where
  "demo_pair = demo\<lparr>sh := demo_mem\<lparr>nodes := [4096 \<mapsto> fresh_node 8192 5120, 5120 \<mapsto> demo_reader],
     envelopes := [8192 \<mapsto> 0, 12288 \<mapsto> 0], list_head := 4096, node_cnt := 2\<rparr>, loc := local_default\<lparr>node := Some 4096\<rparr>\<rparr>"

lemma demo_held_settled: "settled demo_held"
proof -
  have "chained (sh demo_held) [4096]"
    by (simp add: chained_def demo_held_def demo_mem_def boot_mem_def next_of_def)
  then show ?thesis
    by (auto simp: settled_def demo_held_def demo_def solo_def quiet_def quiet_node_def local_ok_def
        local_default_def spurious_left_def aligned4_def TAG_MASK_def)
qed

lemma demo_held_fields [simp]:
  "node (loc demo_held) = Some 4096" "nodes (sh demo_held) 4096 = Some (fresh_node 8192 0)"
  "heap (sh demo_held) = heap demo_mem" "solo demo_held" "generation (loc demo_held) = 0"
  "storage (sh demo_held) = [256 \<mapsto> 16]" "offset (loc demo_held) = 0" "fuel demo_held = 4"
  by (simp_all add: demo_held_def solo_def local_default_def)

lemma demo_pair_fields [simp]:
  "node (loc demo_pair) = Some 4096" "nodes (sh demo_pair) 4096 = Some (fresh_node 8192 5120)"
  "nodes (sh demo_pair) 5120 = Some demo_reader" "solo demo_pair" "fuel demo_pair = 4"
  "heap (sh demo_pair) = heap demo_mem" "envelopes (sh demo_pair) 8192 = Some 0"
  by (simp_all add: demo_pair_def solo_def)

lemma demo_reader_fields [simp]:
  "control (helping demo_reader) = 6" "active_addr (helping demo_reader) = 256"
  "slot (helping demo_reader) = NONE" "space_offer (helping demo_reader) = 12288"
  by (simp_all add: demo_reader_def)

text \<open>The fast slot of a thread owes the value in the storage.\<close>

definition demo_indebted :: "nat world" where
  "demo_indebted = demo_held\<lparr>sh := slot_set (FastDebt 4096 0) 16 (sh demo_held)\<rparr>"

lemma demo_indebted_settled: "settled demo_indebted"
proof -
  let ?nd = "node_set_slot (FastDebt 4096 0) 16 (fresh_node 8192 0)"
  have n: "nodes (sh demo_indebted) = [4096 \<mapsto> ?nd]" by (simp add: demo_indebted_def slot_set_def demo_held_def)
  have "quiet (sh demo_indebted)"
    using n by (auto simp: quiet_def quiet_node_def demo_indebted_def demo_held_def aligned4_def TAG_MASK_def split: if_splits)
  moreover have "local_ok (sh demo_indebted) (loc demo_indebted)"
    using n demo_held_settled by (simp add: settled_def local_ok_def demo_indebted_def)
  ultimately show ?thesis using demo_held_settled by (simp add: settled_def demo_indebted_def spurious_left_def)
qed

lemma demo_indebted_fields [simp]:
  "slot_get (sh demo_indebted) (FastDebt 4096 0) = Some 16" "heap (sh demo_indebted) = heap demo_mem"
proof -
  have "slot_get (sh demo_held) (FastDebt 4096 0) = Some NONE" by (simp add: fast_default_def DEBT_SLOT_CNT_def)
  then show "slot_get (sh demo_indebted) (FastDebt 4096 0) = Some 16"
    unfolding demo_indebted_def by (simp del: slot_get.simps)
qed (simp add: demo_indebted_def)

text \<open>A thread has made the node 5120 and wants to put it in front of 4096; two others are faster, and an
  exchange fails spuriously.\<close>

definition demo_pushing :: "nat world" where
  "demo_pushing = demo_held\<lparr>sched := [joined 6144 12288, id, joined 7168 16384], weak_cas := [False, True],
     sh := (sh demo_held)\<lparr>nodes := (nodes (sh demo_held))(5120 \<mapsto> fresh_node 20480 0)\<rparr>\<rparr>"

lemma demo_pushing_facts:
  "list_all (prepends 5120) (sched demo_pushing)" "listed (sh demo_pushing) [4096]"
  "nodes (sh demo_pushing) 5120 = Some (fresh_node 20480 0)" "length (sched demo_pushing) + spurious_left demo_pushing = 4"
  by (simp_all add: demo_pushing_def demo_held_def listed_def next_of_def prepends_joined prepends_id spurious_left_def)

lemma demo_unlocked: "unlocked demo"
  using demo_settled by (simp add: unlocked_def demo_mem_def boot_mem_def)

definition demo_helped :: "nat world" where
  "demo_helped = demo_pair\<lparr>loc := local_default\<lparr>node := Some 5120\<rparr>, sh := (sh demo_pair)\<lparr>
     nodes := (nodes (sh demo_pair))(5120 \<mapsto> demo_reader\<lparr>helping := (helping demo_reader)\<lparr>control := 8192 OR REPLACEMENT_TAG\<rparr>\<rparr>),
     envelopes := (envelopes (sh demo_pair))(8192 \<mapsto> 32)\<rparr>\<rparr>"

text \<open>A heap with a strong and a weak pointer, and a node that cools down while another thread uses it.\<close>

definition demo_heap :: "nat heap" where
  "demo_heap = [16 \<mapsto> \<lparr>strong = 1, weak = 0, payload = 42\<rparr>, 32 \<mapsto> \<lparr>strong = 0, weak = 2, payload = 43\<rparr>]"

definition demo_counted :: "nat heap" where
  "demo_counted = [16 \<mapsto> \<lparr>strong = 1, weak = 1, payload = 42\<rparr>]"

definition demo_cooling :: "nat world" where
  "demo_cooling = demo_held\<lparr>sched := [id, id, meanwhile (reused 4096)], sh := (sh demo_held)\<lparr>nodes :=
     [4096 \<mapsto> (fresh_node 8192 0)\<lparr>in_use := NODE_COOLDOWN\<rparr>]\<rparr>\<rparr>"

section \<open>A pool of two threads\<close>

text \<open>
  The threads hold the nodes 4096 and 5120; the storage at 256 starts out empty. In \<open>pool_idle\<close> the first
  thread has put a value in and returned. In \<open>pool_busy\<close> it has only got as far as the first accesses of its
  walk, while the second one has its debt on the value in place and is about to confirm it.
\<close>

definition pool_start :: "nat pool" where
  "pool_start = pool_boot [(4096, 8192), (5120, 12288)] [256]"

definition pool_idle :: "nat pool" where
  "pool_idle = run_moves OA ([New 4096 16 42, Call 4096 (SwapAt 256 16)] @ replicate 34 (Run 4096 9 []) @ [Return 4096]) pool_start"

definition pool_busy :: "nat pool" where
  "pool_busy = run_moves OA ([New 4096 16 42, Call 4096 (SwapAt 256 16), Run 4096 9 [], Call 5120 (LoadAt 256)] @
     replicate 4 (Run 5120 9 []) @ replicate 3 (Run 4096 9 [])) pool_start"

lemma pool_interleaved: "interleaved OA pool_start" "interleaved OA pool_idle" "interleaved OA pool_busy"
proof -
  have "boxes_ok [(4096, 8192), (5120, 12288)]" by (simp add: boxes_ok_def aligned4_def TAG_MASK_def)
  then show "interleaved OA pool_start" unfolding pool_start_def by (rule interleaved.start)
  then show "interleaved OA pool_idle" "interleaved OA pool_busy"
    unfolding pool_idle_def pool_busy_def by (rule interleaved_run)+
qed

lemma pool_busy_facts: "storage (pmem pool_busy) 256 = Some 16" "slot_get (pmem pool_busy) (FastDebt 5120 0) = Some 16"
  "may_run 5120 pool_busy" "nodes (pmem pool_busy) 5120 \<noteq> None"
  by code_simp+

lemma pool_idle_facts: "pcs pool_idle 4096 = Idle" "pcs pool_idle 5120 = Idle" "storage (pmem pool_idle) 256 = Some 16"
  by code_simp+

lemma pool_idle_nodes: "nodes (pmem pool_idle) n \<noteq> None \<Longrightarrow> n = 4096 \<or> n = 5120"
proof -
  let ?bs = "[(4096, 8192), (5120, 12288)] :: (usize \<times> usize) list"
  have b: "boxes_ok ?bs" by (simp add: boxes_ok_def aligned4_def TAG_MASK_def)
  have "pool_ok strong_rc (map fst ?bs) pool_start"
    by (rule pool_boot_ok[OF b _ pool_start_def]) (simp add: strong_rc_def)
  then have "pool_ok strong_rc (map fst ?bs) pool_idle"
    unfolding pool_idle_def by (rule option_arc.run_ok)
  then show "nodes (pmem pool_idle) n \<noteq> None \<Longrightarrow> n = 4096 \<or> n = 5120" using pool_nodes by fastforce
qed

text \<open>The second thread loads while the first one stores the value.\<close>

definition pool_asked :: "nat pool" where
  "pool_asked = run_moves OA [New 4096 16 42, Call 4096 (SwapAt 256 16)] pool_start"

definition pool_loaded :: "nat pool" where
  "pool_loaded = run_moves OA (Run 4096 9 [] # replicate 5 (Run 5120 9 [])) (pool_asked\<lparr>pcs := (pcs pool_asked)(5120 := Loading 256 LdPtr)\<rparr>)"

lemma pool_loaded_result: "pcs pool_loaded 5120 = Done {#(16, Some (FastDebt 5120 0))#}"
  by code_simp

lemma window_of:
  assumes "interleaved OA P" and "nodes (pmem P) n \<noteq> None" "pcs P n = Idle" "may_request r P" "target r = Some a"
    and "busy_on OA n ms (P\<lparr>pcs := (pcs P)(n := first_pc r), phnd := phnd P - consumed r\<rparr>)"
  shows "\<exists>S E. call_window OA n r S E (run_moves OA ms (P\<lparr>pcs := (pcs P)(n := first_pc r), phnd := phnd P - consumed r\<rparr>))"
  by (rule window_run[OF call_window.called[OF assms(1-5)] assms(5,6)])

lemma pool_loaded_window: "\<exists>S E. call_window OA 5120 (LoadAt 256) S E pool_loaded"
proof -
  have "interleaved OA pool_asked" unfolding pool_asked_def by (rule interleaved_run[OF pool_interleaved(1)])
  moreover have "nodes (pmem pool_asked) 5120 \<noteq> None" "pcs pool_asked 5120 = Idle" "storage (pmem pool_asked) 256 \<noteq> None" by code_simp+
  moreover have "busy_on OA 5120 (Run 4096 9 [] # replicate 5 (Run 5120 9 [])) (pool_asked\<lparr>pcs := (pcs pool_asked)(5120 := Loading 256 LdPtr)\<rparr>)" by code_simp
  ultimately show ?thesis
    using window_of[of pool_asked 5120 "LoadAt 256" 256] by (simp add: may_request_def pool_loaded_def del: busy_on.simps)
qed

lemma pool_asked_step: "pstep OA pool_asked (make_move OA (Run 4096 9 []) pool_asked)"
proof -
  have "pcs (make_move OA (Run 4096 9 []) pool_asked) 4096 = Paying 256 0 PInc" "pcs pool_asked 4096 = Swapping 256 16" by code_simp+
  then show ?thesis using move_step[of OA "Run 4096 9 []" pool_asked] by fastforce
qed

text \<open>A thread puts the value 42 into a new storage and replaces it by another one, provided that it is still there.\<close>

definition pool_ready :: "nat pool" where
  "pool_ready = run_moves OA [New 4096 16 42, NewStorage 4096 256 16, New 4096 32 43] (pool_boot [(4096, 8192)] [])"

definition pool_replaced :: "nat pool" where
  "pool_replaced = run_moves OA (replicate 26 (Run 4096 9 []))
     (pool_ready\<lparr>pcs := (pcs pool_ready)(4096 := CasLoad 5 256 16 32 LdPtr), phnd := phnd pool_ready - {#(32, None)#}\<rparr>)"

lemma pool_replaced_result: "pcs pool_replaced 4096 = Done {#(16, Some (FastDebt 4096 0))#}"
  by code_simp

lemma pool_replaced_window: "\<exists>S E. call_window OA 4096 (CasAt 5 256 16 32) S E pool_replaced"
proof -
  have "boxes_ok [(4096, 8192)]" by (simp add: boxes_ok_def aligned4_def TAG_MASK_def)
  then have "interleaved OA pool_ready" unfolding pool_ready_def by (intro interleaved_run interleaved.start)
  moreover have "nodes (pmem pool_ready) 4096 \<noteq> None" "pcs pool_ready 4096 = Idle" "may_request (CasAt 5 256 16 32) pool_ready" by code_simp+
  moreover have "busy_on OA 4096 (replicate 26 (Run 4096 9 []))
      (pool_ready\<lparr>pcs := (pcs pool_ready)(4096 := CasLoad 5 256 16 32 LdPtr), phnd := phnd pool_ready - {#(32, None)#}\<rparr>)" by code_simp
  ultimately show ?thesis
    using window_of[of pool_ready 4096 "CasAt 5 256 16 32" 256] by (simp add: pool_replaced_def del: busy_on.simps)
qed

text \<open>A load of the empty storage, undisturbed.\<close>

definition pool_asked_too :: "nat pool" where
  "pool_asked_too = run_moves OA [Call 5120 (LoadAt 256)] pool_start"

lemma pool_asked_too: "interleaved OA pool_asked_too" "pcs pool_asked_too 5120 = Loading 256 LdPtr" "may_run 5120 pool_asked_too"
  "may_run 5120 (run_moves OA (replicate 26 (Run 5120 9 [])) pool_asked_too)"
proof -
  show "interleaved OA pool_asked_too" unfolding pool_asked_too_def by (rule interleaved_run[OF pool_interleaved(1)])
  show "pcs pool_asked_too 5120 = Loading 256 LdPtr" "may_run 5120 pool_asked_too"
    "may_run 5120 (run_moves OA (replicate 26 (Run 5120 9 [])) pool_asked_too)" by code_simp+
qed

end
