(* ===== verification/Tests.thy ===== *)
theory Tests
  imports Cache Access System
begin

text \<open>
  Unit tests of the crate as programs of the model: those that run in one thread and do not rely on
  unwinding. A test is translated with everything it creates: temporaries are dropped at the end of their
  statement, local variables at the end of the scope in reverse order of their declaration. \<open>passes t\<close>
  runs \<open>t\<close> in a freshly started process: no assertion fails, nothing else goes wrong, and in the end every
  allocation and every storage is gone and no slot owes anything. The lemmas at the end are evaluated
  step by step in the logic; they check that the definitions of the model do what the authors of the crate expect
  of the code. Numbers of rounds are arguments.
\<close>

section \<open>What the tests use\<close>

text \<open>\<open>Arc::strong_count\<close>, \<open>Arc::weak_count\<close>, \<open>Rc::pin\<close>, \<open>Arc::downgrade\<close> and \<open>Weak::upgrade\<close> of the standard library.\<close>

definition strong_count :: "arc \<Rightarrow> ('v, nat) prog" where
  "strong_count x =
     atomic (\<lambda>s. if strong_rc (heap s) (arc_into_raw x) = 0 then Inl UseAfterFree
       else Inr (strong_rc (heap s) (arc_into_raw x), s))"

definition weak_count :: "arc \<Rightarrow> ('v, nat) prog" where
  "weak_count x =
     atomic (\<lambda>s. if strong_rc (heap s) (arc_into_raw x) = 0 then Inl UseAfterFree
       else Inr (weak_rc (heap s) (arc_into_raw x), s))"

definition rc_new :: "'v \<Rightarrow> ('v, rc) prog" where
  "rc_new v = bnd (arc_new v) (\<lambda>x. ret (Rc (arc_into_raw x)))"

definition downgrade :: "arc \<Rightarrow> ('v, weak_ptr) prog" where
  "downgrade x =
     atomic (\<lambda>s. if strong_rc (heap s) (arc_into_raw x) = 0 then Inl UseAfterFree
       else Inr (WeakTo (arc_into_raw x), s\<lparr>heap := weak_up (arc_into_raw x) (heap s)\<rparr>))"

definition upgrade :: "weak_ptr \<Rightarrow> ('v, arc option) prog" where
  "upgrade x = (case x of WeakNew \<Rightarrow> ret None
     | WeakTo p \<Rightarrow> atomic (\<lambda>s. if weak_rc (heap s) p = 0 then Inl UseAfterFree
         else if strong_rc (heap s) p = 0 then Inr (None, s)
         else Inr (Some (Arc p), s\<lparr>heap := strong_up p (heap s)\<rparr>)))"

text \<open>Formatting a number.\<close>

fun decimal :: "nat \<Rightarrow> string" where
  "decimal n = (if n < 10 then [char_of (48 + n)] else decimal (n div 10) @ [char_of (48 + n mod 10)])"

definition fmt_arc :: "arc \<Rightarrow> (nat, string) prog" where
  "fmt_arc x = bnd (arc_deref x) (\<lambda>v. ret (decimal v))"

abbreviation TA :: "(arc, 'v) RefCnt" where
  "TA \<equiv> arc_RefCnt"

abbreviation TO :: "(arc option, 'v) RefCnt" where
  "TO \<equiv> option_RefCnt arc_RefCnt"

abbreviation TW :: "(weak_ptr, 'v) RefCnt" where
  "TW \<equiv> weak_RefCnt"

text \<open>\<open>As<T>\<close>, \<open>Aso<T>\<close>, \<open>ArcSwapWeak<T>\<close> with the strategy under test.\<close>

abbreviation As :: "Config \<Rightarrow> (arc, 'v, arc HybridProtection) Strategy" where
  "As cfg \<equiv> hybrid_Strategy TA cfg"

abbreviation Aso :: "Config \<Rightarrow> (arc option, 'v, arc option HybridProtection) Strategy" where
  "Aso cfg \<equiv> hybrid_Strategy TO cfg"

abbreviation Asw :: "Config \<Rightarrow> (weak_ptr, 'v, weak_ptr HybridProtection) Strategy" where
  "Asw cfg \<equiv> hybrid_Strategy TW cfg"

text \<open>Assertions on a count, on the value of an \<open>Arc\<close>, on what a load shows.\<close>

definition assert_strong :: "nat \<Rightarrow> arc \<Rightarrow> ('v, unit) prog" where
  "assert_strong k x = bnd (strong_count x) (\<lambda>n. assert_that (k = n))"

definition assert_weak :: "nat \<Rightarrow> arc \<Rightarrow> ('v, unit) prog" where
  "assert_weak k x = bnd (weak_count x) (\<lambda>n. assert_that (k = n))"

definition assert_value :: "'v \<Rightarrow> arc \<Rightarrow> ('v, unit) prog" where
  "assert_value v x = bnd (arc_deref x) (\<lambda>u. assert_that (v = u))"

definition assert_load :: "(arc, 'v, arc HybridProtection) Strategy \<Rightarrow> usize \<Rightarrow> 'v \<Rightarrow> ('v, unit) prog" where
  "assert_load S a v =
     bnd (any_load S a) (\<lambda>g. bnd (assert_value v (guard_deref S g)) (\<lambda>_. guard_drop S g))"

definition assert_load_none :: "(arc option, 'v, arc option HybridProtection) Strategy \<Rightarrow> usize \<Rightarrow> ('v, unit) prog" where
  "assert_load_none S a =
     bnd (any_load S a) (\<lambda>g. bnd (assert_that (guard_deref S g = None)) (\<lambda>_. guard_drop S g))"

fun load_many :: "('t, 'v, 'p) Strategy \<Rightarrow> usize \<Rightarrow> nat \<Rightarrow> ('v, 'p Guard list) prog" where
  "load_many S a 0 = ret []"
| "load_many S a (Suc n) = bnd (any_load S a) (\<lambda>g. bnd (load_many S a n) (\<lambda>gs. ret (g # gs)))"

section \<open>Tests of the storage, \<^verbatim>\<open>src/lib.rs\<close>\<close>

definition swap_load :: "Config \<Rightarrow> usize \<Rightarrow> nat \<Rightarrow> (nat, unit) prog" where
  "swap_load cfg a rounds = (let S = As cfg in
     for_each [0..<rounds] (\<lambda>_.
     bnd (arc_new 42) (\<lambda>arc.
     bnd (clone_val TA arc) (\<lambda>c.
     bnd (any_from TA a c) (\<lambda>arc_swap.
     bnd (assert_load S arc_swap 42) (\<lambda>_.
     bnd (assert_load S arc_swap 42) (\<lambda>_.
     bnd (arc_new 0) (\<lambda>new_arc.
     bnd (clone_val TA new_arc) (\<lambda>c.
     bnd (any_swap TA S arc_swap c) (\<lambda>old.
     bnd (assert_value 42 old) (\<lambda>_.
     bnd (drop_val TA old) (\<lambda>_.
     bnd (assert_load S arc_swap 0) (\<lambda>_.
     bnd (load_full S arc_swap) (\<lambda>loaded.
     bnd (assert_strong 3 loaded) (\<lambda>_.
     bnd (assert_weak 0 loaded) (\<lambda>_.
     bnd (assert_strong 1 arc) (\<lambda>_.
     bnd (assert_weak 0 arc) (\<lambda>_.
     bnd (drop_val TA loaded) (\<lambda>_.
     bnd (drop_val TA new_arc) (\<lambda>_.
     bnd (any_drop TA S arc_swap) (\<lambda>_.
     drop_val TA arc)))))))))))))))))))))"

definition load_null :: "Config \<Rightarrow> usize \<Rightarrow> (nat, unit) prog" where
  "load_null cfg a = (let S = Aso cfg in
     bnd (any_default TO a (ret None)) (\<lambda>shared.
     bnd (any_load S shared) (\<lambda>guard.
     bnd (assert_that (guard_deref S guard = None)) (\<lambda>_.
     bnd (arc_new 42) (\<lambda>n.
     bnd (any_store TO S shared (Some n)) (\<lambda>_.
     bnd (any_load S shared) (\<lambda>g.
     bnd (expect (guard_deref S g)) (\<lambda>x.
     bnd (assert_value 42 x) (\<lambda>_.
     bnd (guard_drop S g) (\<lambda>_.
     bnd (guard_drop S guard) (\<lambda>_.
     any_drop TO S shared)))))))))))"

definition from_into :: "Config \<Rightarrow> usize \<Rightarrow> (nat, unit) prog" where
  "from_into cfg addr = (let S = As cfg in
     bnd (arc_new 42) (\<lambda>a.
     bnd (any_new TA addr a) (\<lambda>shared.
     bnd (any_load S shared) (\<lambda>guard.
     bnd (any_into_inner TA S shared) (\<lambda>a.
     bnd (assert_value 42 a) (\<lambda>_.
     bnd (assert_strong 2 a) (\<lambda>_.
     bnd (guard_drop S guard) (\<lambda>_.
     bnd (assert_strong 1 a) (\<lambda>_.
     drop_val TA a)))))))))"

definition load_option :: "Config \<Rightarrow> usize \<Rightarrow> (nat, unit) prog" where
  "load_option cfg a = (let S = Aso cfg in
     bnd (option_from_pointee a (Some 42)) (\<lambda>shared.
     bnd (any_load S shared) (\<lambda>g.
     bnd (guard_into_inner S g) (\<lambda>opt.
     bnd (expect opt) (\<lambda>x.
     bnd (assert_value 42 x) (\<lambda>_.
     bnd (drop_val TA x) (\<lambda>_.
     bnd (any_store TO S shared None) (\<lambda>_.
     bnd (assert_load_none S shared) (\<lambda>_.
     any_drop TO S shared)))))))))"

definition debug_impl :: "Config \<Rightarrow> usize \<Rightarrow> (nat, unit) prog" where
  "debug_impl cfg a = (let S = As cfg in
     bnd (from_pointee a 42) (\<lambda>shared.
     bnd (any_debug_fmt S fmt_arc shared) (\<lambda>out.
     bnd (assert_that (''ArcSwapAny(42)'' = out)) (\<lambda>_.
     bnd (any_load S shared) (\<lambda>g.
     bnd (guard_fmt S fmt_arc g) (\<lambda>out.
     bnd (assert_that (''42'' = out)) (\<lambda>_.
     bnd (guard_drop S g) (\<lambda>_.
     any_drop TA S shared))))))))"

definition display_impl :: "Config \<Rightarrow> usize \<Rightarrow> (nat, unit) prog" where
  "display_impl cfg a = (let S = As cfg in
     bnd (from_pointee a 42) (\<lambda>shared.
     bnd (any_display_fmt S fmt_arc shared) (\<lambda>out.
     bnd (assert_that (''42'' = out)) (\<lambda>_.
     bnd (any_load S shared) (\<lambda>g.
     bnd (guard_fmt S fmt_arc g) (\<lambda>out.
     bnd (assert_that (''42'' = out)) (\<lambda>_.
     bnd (guard_drop S g) (\<lambda>_.
     any_drop TA S shared))))))))"

text \<open>The source counts to 10. The inner \<open>rcu\<close> returns the pointer it replaced, which is dropped at once.\<close>

definition recursive :: "nat \<Rightarrow> usize \<Rightarrow> (nat, unit) prog" where
  "recursive limit a = (let S = As DefaultConfig in
     bnd (arc_new 0) (\<lambda>n.
     bnd (any_from TA a n) (\<lambda>shared.
     bnd (rcu TA S shared (\<lambda>i.
       bnd (arc_deref i) (\<lambda>v.
       bnd (if v < limit
            then bnd (rcu TA S shared (\<lambda>i. bnd (arc_deref i) (\<lambda>v. arc_new (v + 1)))) (drop_val TA)
            else ret ()) (\<lambda>_.
       bnd (arc_deref i) arc_new)))) (\<lambda>old.
     bnd (drop_val TA old) (\<lambda>_.
     bnd (assert_load S shared limit) (\<lambda>_.
     bnd (load_full S shared) (\<lambda>full.
     bnd (assert_strong 2 full) (\<lambda>_.
     bnd (drop_val TA full) (\<lambda>_.
     any_drop TA S shared)))))))))"

text \<open>The last assertion compares an \<open>Arc\<close> with an \<open>Option<Arc>\<close>, by their raw pointers.\<close>

definition nulls :: "usize \<Rightarrow> (nat, unit) prog" where
  "nulls addr = (let S = Aso DefaultConfig in
     bnd (arc_new 0) (\<lambda>n.
     bnd (any_from TO addr (Some n)) (\<lambda>shared.
     bnd (any_swap TO S shared None) (\<lambda>orig.
     bnd (expect orig) (\<lambda>x.
     bnd (assert_strong 1 x) (\<lambda>_.
     bnd (drop_val TA x) (\<lambda>_.
     bnd (any_load S shared) (\<lambda>null.
     bnd (assert_that (guard_deref S null = None)) (\<lambda>_.
     bnd (arc_new 42) (\<lambda>a.
     bnd (clone_val TA a) (\<lambda>c.
     bnd (any_compare_and_swap S shared (RawConst 0) (Some c)) (\<lambda>orig.
     bnd (assert_that (guard_deref S orig = None)) (\<lambda>_.
     bnd (assert_strong 2 a) (\<lambda>_.
     bnd (any_compare_and_swap S shared (RawOfRef None) None) (\<lambda>g.
     bnd (guard_into_inner S g) (\<lambda>orig2.
     bnd (assert_strong 3 a) (\<lambda>_.
     bnd (assert_that (as_raw (TA :: (arc, nat) RefCnt) (RawOfRef a) = as_raw (TO :: (arc option, nat) RefCnt) (RawOfRef orig2))) (\<lambda>_.
     bnd (drop_val TO orig2) (\<lambda>_.
     bnd (guard_drop S orig) (\<lambda>_.
     bnd (drop_val TA a) (\<lambda>_.
     bnd (guard_drop S null) (\<lambda>_.
     any_drop TO S shared))))))))))))))))))))))"

definition cas_ref_cnt :: "nat \<Rightarrow> usize \<Rightarrow> (nat, unit) prog" where
  "cas_ref_cnt iterations a = (let S = As DefaultConfig;
     fillup = (\<lambda>shared i. if i mod 2 = 0 then load_many S shared iterations else ret []) in
     bnd (arc_new 0) (\<lambda>n.
     bnd (any_from TA a n) (\<lambda>shared.
     bnd (for_each [0..<iterations] (\<lambda>i.
       bnd (load_full S shared) (\<lambda>orig.
       bnd (assert_value i orig) (\<lambda>_.
       bnd (if i mod 2 = 1 then assert_strong 2 orig else ret ()) (\<lambda>_.
       bnd (arc_new (i + 1)) (\<lambda>n1.
       bnd (fillup shared i) (\<lambda>guards.
       bnd (clone_val TA n1) (\<lambda>c.
       bnd (any_compare_and_swap S shared (RawOfRef orig) c) (\<lambda>prev.
       bnd (assert_that (ptr_eq (TA :: (arc, nat) RefCnt) (RawOfRef orig) (RawOfGuardRef prev))) (\<lambda>_.
       bnd (for_each guards (guard_drop S)) (\<lambda>_.
       bnd (assert_strong 2 orig) (\<lambda>_.
       bnd (assert_strong 2 n1) (\<lambda>_.
       bnd (assert_load S shared (i + 1)) (\<lambda>_.
       bnd (arc_new i) (\<lambda>n2.
       bnd (guard_drop S prev) (\<lambda>_.
       bnd (fillup shared i) (\<lambda>guards.
       bnd (clone_val TA n2) (\<lambda>c.
       bnd (any_compare_and_swap S shared (RawOfRef orig) c) (\<lambda>g.
       bnd (guard_into_inner S g) (\<lambda>prev.
       bnd (for_each guards (guard_drop S)) (\<lambda>_.
       bnd (assert_that (ptr_eq (TA :: (arc, nat) RefCnt) (RawOfRef n1) (RawOfRef prev))) (\<lambda>_.
       bnd (assert_strong 1 orig) (\<lambda>_.
       bnd (assert_strong 3 n1) (\<lambda>_.
       bnd (assert_strong 1 n2) (\<lambda>_.
       bnd (assert_load S shared (i + 1)) (\<lambda>_.
       bnd (drop_val TA prev) (\<lambda>_.
       bnd (drop_val TA n2) (\<lambda>_.
       bnd (drop_val TA n1) (\<lambda>_.
       drop_val TA orig))))))))))))))))))))))))))))) (\<lambda>_.
     bnd (load_full S shared) (\<lambda>a.
     bnd (assert_strong 2 a) (\<lambda>_.
     bnd (any_drop TA S shared) (\<lambda>_.
     bnd (assert_strong 1 a) (\<lambda>_.
     drop_val TA a))))))))"

definition load_cnt :: "usize \<Rightarrow> (nat, unit) prog" where
  "load_cnt addr = (let S = As DefaultConfig in
     bnd (arc_new 0) (\<lambda>a.
     bnd (clone_val TA a) (\<lambda>c.
     bnd (any_from TA addr c) (\<lambda>shared.
     bnd (assert_strong 2 a) (\<lambda>_.
     bnd (any_load S shared) (\<lambda>guard.
     bnd (assert_value 0 (guard_deref S guard)) (\<lambda>_.
     bnd (assert_strong 2 a) (\<lambda>_.
     bnd (any_load S shared) (\<lambda>guard_2.
     bnd (arc_new 1) (\<lambda>n.
     bnd (any_store TA S shared n) (\<lambda>_.
     bnd (assert_strong 3 a) (\<lambda>_.
     bnd (guard_drop S guard_2) (\<lambda>_.
     bnd (assert_strong 2 a) (\<lambda>_.
     bnd (clone_val TA (guard_deref S guard)) (\<lambda>b.
     bnd (assert_strong 3 a) (\<lambda>_.
     bnd (guard_drop S guard) (\<lambda>_.
     bnd (assert_strong 2 a) (\<lambda>_.
     bnd (any_load S shared) (\<lambda>guard.
     bnd (assert_value 1 (guard_deref S guard)) (\<lambda>_.
     bnd (any_drop TA S shared) (\<lambda>_.
     bnd (assert_value 1 (guard_deref S guard)) (\<lambda>_.
     bnd (clone_val TA (guard_deref S guard)) (\<lambda>ptr.
     bnd (assert_strong 2 ptr) (\<lambda>_.
     bnd (guard_drop S guard) (\<lambda>_.
     bnd (assert_strong 1 ptr) (\<lambda>_.
     bnd (drop_val TA ptr) (\<lambda>_.
     bnd (drop_val TA b) (\<lambda>_.
     drop_val TA a))))))))))))))))))))))))))))"

text \<open>\<open>swap_remove(0)\<close> moves the last element to the front; the element it returns is dropped.\<close>

definition lease_overflow :: "nat \<Rightarrow> usize \<Rightarrow> (nat, unit) prog" where
  "lease_overflow guard_count addr = (let S = As DefaultConfig in
     bnd (arc_new 0) (\<lambda>a.
     bnd (clone_val TA a) (\<lambda>c.
     bnd (any_from TA addr c) (\<lambda>shared.
     bnd (assert_strong 2 a) (\<lambda>_.
     bnd (load_many S shared guard_count) (\<lambda>guards.
     bnd (strong_count a) (\<lambda>count.
     bnd (assert_that (count > 2)) (\<lambda>_.
     bnd (any_load S shared) (\<lambda>guard.
     bnd (assert_strong (count + 1) a) (\<lambda>_.
     bnd (guard_drop S guard) (\<lambda>_.
     bnd (assert_strong count a) (\<lambda>_.
     bnd (guard_drop S (hd guards)) (\<lambda>_.
     bnd (assert_strong count a) (\<lambda>_.
     bnd (any_load S shared) (\<lambda>guard.
     bnd (assert_strong count a) (\<lambda>_.
     bnd (guard_drop S guard) (\<lambda>_.
     bnd (for_each (last guards # butlast (tl guards)) (guard_drop S)) (\<lambda>_.
     bnd (any_drop TA S shared) (\<lambda>_.
     drop_val TA a)))))))))))))))))))"

section \<open>Tests of the other modules\<close>

text \<open>\<^verbatim>\<open>src/weak.rs\<close>\<close>

definition there_and_back :: "Config \<Rightarrow> usize \<Rightarrow> (string, unit) prog" where
  "there_and_back cfg a = (let S = Asw cfg in
     bnd (arc_new ''Hello'') (\<lambda>data.
     bnd (downgrade data) (\<lambda>w.
     bnd (any_new TW a w) (\<lambda>shared.
     bnd (assert_strong 1 data) (\<lambda>_.
     bnd (assert_weak 1 data) (\<lambda>_.
     bnd (any_load S shared) (\<lambda>weak.
     bnd (upgrade (guard_deref S weak)) (\<lambda>u. bnd (expect u) (\<lambda>x.
     bnd (assert_value ''Hello'' x) (\<lambda>_.
     bnd (drop_val TA x) (\<lambda>_.
     bnd (upgrade (guard_deref S weak)) (\<lambda>u. bnd (expect u) (\<lambda>x.
     bnd (assert_that (arc_into_raw data = arc_into_raw x)) (\<lambda>_.
     bnd (drop_val TA x) (\<lambda>_.
     bnd (guard_drop S weak) (\<lambda>_.
     bnd (any_drop TW S shared) (\<lambda>_.
     drop_val TA data)))))))))))))))))"

definition reset :: "Config \<Rightarrow> usize \<Rightarrow> (string, unit) prog" where
  "reset cfg a = (let S = Asw cfg in
     bnd (arc_new ''Hello'') (\<lambda>data.
     bnd (downgrade data) (\<lambda>w.
     bnd (any_new TW a w) (\<lambda>shared.
     bnd (assert_strong 1 data) (\<lambda>_.
     bnd (assert_weak 1 data) (\<lambda>_.
     bnd (any_store TW S shared WeakNew) (\<lambda>_.
     bnd (assert_strong 1 data) (\<lambda>_.
     bnd (assert_weak 0 data) (\<lambda>_.
     bnd (any_load S shared) (\<lambda>weak.
     bnd (upgrade (guard_deref S weak)) (\<lambda>u.
     bnd (assert_that (u = None)) (\<lambda>_.
     bnd (guard_drop S weak) (\<lambda>_.
     bnd (any_drop TW S shared) (\<lambda>_.
     drop_val TA data))))))))))))))"

definition destroy :: "Config \<Rightarrow> usize \<Rightarrow> (string, unit) prog" where
  "destroy cfg a = (let S = Asw cfg in
     bnd (arc_new ''Hello'') (\<lambda>data.
     bnd (downgrade data) (\<lambda>w.
     bnd (any_new TW a w) (\<lambda>shared.
     bnd (drop_val TA data) (\<lambda>_.
     bnd (any_load S shared) (\<lambda>weak.
     bnd (upgrade (guard_deref S weak)) (\<lambda>u.
     bnd (assert_that (u = None)) (\<lambda>_.
     bnd (guard_drop S weak) (\<lambda>_.
     any_drop TW S shared)))))))))"

text \<open>\<^verbatim>\<open>src/ref_cnt.rs\<close>: the same test for three types.\<close>

definition ref_cnt_arc :: "(32 word, unit) prog" where
  "ref_cnt_arc =
     bnd (arc_new 114514) (\<lambda>arc.
     let T = arc_RefCnt :: (arc, 32 word) RefCnt; ptr = as_ptr T arc in
     bnd (assert_that (ptr = into_ptr T arc)) (\<lambda>_.
     let arc = from_ptr T ptr in
     bnd (assert_value 114514 arc) (\<lambda>_.
     bnd (assert_that (ptr = as_ptr T arc)) (\<lambda>_.
     bnd (assert_that (ptr = into_ptr T arc)) (\<lambda>_.
     drop_val T (from_ptr T ptr))))))"

definition ref_cnt_pin_arc :: "(32 word, unit) prog" where
  "ref_cnt_pin_arc =
     bnd (bnd (arc_new 114514) (\<lambda>x. ret (Pin x))) (\<lambda>pinned.
     let T = pin_arc_RefCnt :: (arc pin, 32 word) RefCnt; ptr = as_ptr T pinned in
     bnd (assert_that (ptr = into_ptr T pinned)) (\<lambda>_.
     let pinned = from_ptr T ptr in
     bnd (assert_value 114514 (pin_into_inner pinned)) (\<lambda>_.
     bnd (assert_that (ptr = as_ptr T pinned)) (\<lambda>_.
     bnd (assert_that (ptr = into_ptr T pinned)) (\<lambda>_.
     drop_val T (from_ptr T ptr))))))"

definition ref_cnt_pin_rc :: "(32 word, unit) prog" where
  "ref_cnt_pin_rc =
     bnd (bnd (rc_new 114514) (\<lambda>x. ret (Pin x))) (\<lambda>pinned.
     let T = pin_rc_RefCnt :: (rc pin, 32 word) RefCnt; ptr = as_ptr T pinned in
     bnd (assert_that (ptr = into_ptr T pinned)) (\<lambda>_.
     let pinned = from_ptr T ptr in
     bnd (bnd (rc_deref (pin_into_inner pinned)) (\<lambda>v. assert_that (v = 114514))) (\<lambda>_.
     bnd (assert_that (ptr = as_ptr T pinned)) (\<lambda>_.
     bnd (assert_that (ptr = into_ptr T pinned)) (\<lambda>_.
     drop_val T (from_ptr T ptr))))))"

text \<open>\<^verbatim>\<open>src/debt/list.rs\<close>: a node just acquired is empty. \<open>all\<close> stops at the first slot that is not.\<close>

fun all_none :: "Debt list \<Rightarrow> ('v, bool) prog" where
  "all_none [] = ret True"
| "all_none (d # ds) = bnd (slot_load d) (\<lambda>v. if v = NONE then all_none ds else ret False)"

definition is_empty :: "usize \<Rightarrow> ('v, bool) prog" where
  "is_empty n = all_none (fast_slots n @ [helping_slot n])"

definition get_thread :: "('v, usize) prog" where
  "get_thread = with_local (bnd get_loc (\<lambda>l. expect (node l)))"

definition new_empty :: "('v, unit) prog" where
  "new_empty = bnd get_thread (\<lambda>n. bnd (is_empty n) assert_that)"

text \<open>\<^verbatim>\<open>src/cache.rs\<close>. Dropping a cache drops the pointer it keeps.\<close>

definition cached_value :: "usize \<Rightarrow> (nat, unit) prog" where
  "cached_value addr = (let S = As DefaultConfig in
     bnd (from_pointee addr 42) (\<lambda>a.
     bnd (cache_new S a) (\<lambda>c1.
     bnd (cache_new S a) (\<lambda>c2.
     bnd (cache_load TA S c1) (\<lambda>(x, c1). bnd (assert_value 42 x) (\<lambda>_.
     bnd (cache_load TA S c2) (\<lambda>(x, c2). bnd (assert_value 42 x) (\<lambda>_.
     bnd (arc_new 43) (\<lambda>n.
     bnd (any_store TA S a n) (\<lambda>_.
     bnd (assert_value 42 (load_no_revalidate c1)) (\<lambda>_.
     bnd (cache_load TA S c1) (\<lambda>(x, c1). bnd (assert_value 43 x) (\<lambda>_.
     bnd (drop_val TA (cached c2)) (\<lambda>_.
     bnd (drop_val TA (cached c1)) (\<lambda>_.
     any_drop TA S a)))))))))))))))"

definition cache_option :: "usize \<Rightarrow> (nat, unit) prog" where
  "cache_option addr = (let S = Aso DefaultConfig in
     bnd (option_from_pointee addr (Some 42)) (\<lambda>a.
     bnd (cache_new S a) (\<lambda>c.
     bnd (cache_load TO S c) (\<lambda>(x, c). bnd (expect x) (\<lambda>y. bnd (assert_value 42 y) (\<lambda>_.
     bnd (any_store TO S a None) (\<lambda>_.
     bnd (cache_load TO S c) (\<lambda>(x, c). bnd (assert_that (x = None)) (\<lambda>_.
     bnd (drop_val TO (cached c)) (\<lambda>_.
     any_drop TO S a))))))))))"

record Inner =
  answer :: nat

record Outer =
  inner_of :: Inner

definition map_cache :: "usize \<Rightarrow> (Outer, unit) prog" where
  "map_cache addr = (let S = As DefaultConfig in
     bnd (from_pointee addr \<lparr>inner_of = \<lparr>answer = 42\<rparr>\<rparr>) (\<lambda>a.
     bnd (cache_new S a) (\<lambda>cache.
     bnd (cache_clone TA cache) (\<lambda>c.
     let inner = cache_map c (\<lambda>outer. bnd (arc_deref outer) (\<lambda>x. ret (inner_of x))) in
     bnd (cache_clone TA cache) (\<lambda>c.
     let answer' = cache_map c (\<lambda>outer. bnd (arc_deref outer) (\<lambda>x. ret (answer (inner_of x)))) in
     bnd (cache_load TA S cache) (\<lambda>(x, cache). bnd (arc_deref x) (\<lambda>x. bnd (assert_that (42 = answer (inner_of x))) (\<lambda>_.
     bnd (map_cache_load TA S inner) (\<lambda>(x, inner). bnd (assert_that (42 = answer x)) (\<lambda>_.
     bnd (map_cache_load TA S answer') (\<lambda>(x, answer'). bnd (assert_that (42 = x)) (\<lambda>_.
     bnd (arc_new \<lparr>inner_of = \<lparr>answer = 24\<rparr>\<rparr>) (\<lambda>n.
     bnd (any_store TA S a n) (\<lambda>_.
     bnd (cache_load TA S cache) (\<lambda>(x, cache). bnd (arc_deref x) (\<lambda>x. bnd (assert_that (24 = answer (inner_of x))) (\<lambda>_.
     bnd (map_cache_load TA S inner) (\<lambda>(x, inner). bnd (assert_that (24 = answer x)) (\<lambda>_.
     bnd (map_cache_load TA S answer') (\<lambda>(x, answer'). bnd (assert_that (24 = x)) (\<lambda>_.
     bnd (drop_val TA (cached (map_inner answer'))) (\<lambda>_.
     bnd (drop_val TA (cached (map_inner inner))) (\<lambda>_.
     bnd (drop_val TA (cached cache)) (\<lambda>_.
     any_drop TA S a))))))))))))))))))))))))"

text \<open>\<^verbatim>\<open>src/access.rs\<close>. A \<open>Cfg\<close> is its \<open>value\<close>.\<close>

definition check_static_dispatch_direct :: "('v, 'g, nat) Access \<Rightarrow> ('v, unit) prog" where
  "check_static_dispatch_direct a =
     bnd (acc_load a) (\<lambda>g. bnd (acc_deref a g) (\<lambda>v. bnd (assert_that (42 = v)) (\<lambda>_. acc_drop a g)))"

definition check_static_dispatch :: "(nat, 'g, arc) Access \<Rightarrow> (nat, unit) prog" where
  "check_static_dispatch a =
     bnd (acc_load a) (\<lambda>g. bnd (acc_deref a g) (\<lambda>x. bnd (assert_value 42 x) (\<lambda>_. acc_drop a g)))"

definition check_dyn_dispatch_direct :: "('v, 'g, nat) Access \<Rightarrow> ('v, unit) prog" where
  "check_dyn_dispatch_direct a =
     bnd (dyn_load a) (\<lambda>g. bnd (dyn_deref g) (\<lambda>v. bnd (assert_that (42 = v)) (\<lambda>_. dyn_drop g)))"

definition check_dyn_dispatch :: "(nat, 'g, arc) Access \<Rightarrow> (nat, unit) prog" where
  "check_dyn_dispatch a =
     bnd (dyn_load a) (\<lambda>g. bnd (dyn_deref g) (\<lambda>x. bnd (assert_value 42 x) (\<lambda>_. dyn_drop g)))"

definition static_dispatch :: "usize \<Rightarrow> (nat, unit) prog" where
  "static_dispatch addr = (let S = As DefaultConfig in
     bnd (from_pointee addr 42) (\<lambda>a.
     bnd (check_static_dispatch_direct (deref_access (arc_access S a))) (\<lambda>_.
     bnd (check_static_dispatch (deref_access (any_access S a))) (\<lambda>_.
     bnd (check_static_dispatch (any_access S a)) (\<lambda>_.
     any_drop TA S a)))))"

definition dyn_dispatch :: "usize \<Rightarrow> (nat, unit) prog" where
  "dyn_dispatch addr = (let S = As DefaultConfig in
     bnd (from_pointee addr 42) (\<lambda>a.
     bnd (check_dyn_dispatch_direct (arc_access S a)) (\<lambda>_.
     bnd (check_dyn_dispatch (any_access S a)) (\<lambda>_.
     any_drop TA S a))))"

definition check_transition :: "('v, 'g, nat) Access \<Rightarrow> ('v, unit) prog" where
  "check_transition a = check_dyn_dispatch_direct a"

definition transition :: "usize \<Rightarrow> (nat, unit) prog" where
  "transition addr = (let S = As DefaultConfig in
     bnd (from_pointee addr 42) (\<lambda>a.
     bnd (check_transition (deref_access (arc_access S a))) (\<lambda>_.
     bnd (check_transition (arc_access S a)) (\<lambda>_.
     any_drop TA S a))))"

record Cfg =
  cfg_value :: nat

definition map_test :: "usize \<Rightarrow> (Cfg, unit) prog" where
  "map_test addr = (let S = As DefaultConfig in
     bnd (from_pointee addr \<lparr>cfg_value = 42\<rparr>) (\<lambda>a.
     let map = any_map S a (\<lambda>a. ret (cfg_value a)) in
     bnd (check_static_dispatch_direct (deref_access (projected map))) (\<lambda>_.
     bnd (check_dyn_dispatch_direct (projected map)) (\<lambda>_.
     any_drop TA S a))))"

definition map_option_some :: "usize \<Rightarrow> (Cfg, unit) prog" where
  "map_option_some addr = (let S = Aso DefaultConfig in
     bnd (option_from_pointee addr (Some \<lparr>cfg_value = 42\<rparr>)) (\<lambda>a.
     let map = map_new (any_access S a)
       (\<lambda>a. bnd (expect a) (\<lambda>c. bnd (arc_deref c) (\<lambda>c. ret (cfg_value c)))) in
     bnd (check_static_dispatch_direct (deref_access (projected map))) (\<lambda>_.
     bnd (check_dyn_dispatch_direct (projected map)) (\<lambda>_.
     any_drop TO S a))))"

definition map_option_none :: "usize \<Rightarrow> (Cfg, unit) prog" where
  "map_option_none addr = (let S = Aso DefaultConfig in
     bnd (option_empty addr) (\<lambda>a.
     let map = map_new (any_access S a)
       (\<lambda>a. case a of None \<Rightarrow> ret 42 | Some c \<Rightarrow> bnd (arc_deref c) (\<lambda>c. ret (cfg_value c))) in
     bnd (check_static_dispatch_direct (deref_access (projected map))) (\<lambda>_.
     bnd (check_dyn_dispatch_direct (projected map)) (\<lambda>_.
     any_drop TO S a))))"

definition constant_test :: "('v, unit) prog" where
  "constant_test = (let c = Constant 42 in
     bnd (check_static_dispatch_direct (constant_access ret c)) (\<lambda>_.
     bnd (check_dyn_dispatch_direct (constant_access ret c)) (\<lambda>_.
     check_static_dispatch_direct (constant_access ret c))))"

definition map_reload :: "usize \<Rightarrow> (Cfg, unit) prog" where
  "map_reload addr = (let S = As DefaultConfig in
     bnd (from_pointee addr \<lparr>cfg_value = 0\<rparr>) (\<lambda>a.
     let map = projected (any_map S a (\<lambda>cfg. ret (cfg_value cfg))) in
     bnd (acc_load map) (\<lambda>g. bnd (acc_deref map g) (\<lambda>v. bnd (assert_that (0 = v)) (\<lambda>_. bnd (acc_drop map g) (\<lambda>_.
     bnd (arc_new \<lparr>cfg_value = 42\<rparr>) (\<lambda>n.
     bnd (any_store TA S a n) (\<lambda>_.
     bnd (acc_load map) (\<lambda>g. bnd (acc_deref map g) (\<lambda>v. bnd (assert_that (42 = v)) (\<lambda>_. bnd (acc_drop map g) (\<lambda>_.
     any_drop TA S a))))))))))))"

section \<open>The tests pass\<close>

definition test_world :: "'v world" where
  "test_world = \<lparr>sh = boot_mem [(4096, 8192)] (map (\<lambda>i. of_nat (16 * (i + 1))) [0..<12]),
     loc = local_default, tls_alive = True, sched = [], weak_cas = [], fuel = 4\<rparr>"

text \<open>Nothing is left behind: no allocation, no storage at 256, no debt.\<close>

definition left_clean :: "'v shared \<Rightarrow> bool" where
  "left_clean s \<longleftrightarrow> storage s 256 = None \<and>
     list_all (\<lambda>i. case heap s (of_nat (16 * (i + 1))) of None \<Rightarrow> True | Some _ \<Rightarrow> False) [0..<12] \<and>
     (case nodes s 4096 of None \<Rightarrow> True | Some nd \<Rightarrow>
        list_all (\<lambda>v. v = NONE) (fast nd) \<and> slot (helping nd) = NONE \<and> control (helping nd) = IDLE)"

definition passes :: "('v, unit) prog \<Rightarrow> bool" where
  "passes t \<longleftrightarrow> (case t test_world of (Inl _, w) \<Rightarrow> False | (Inr _, w) \<Rightarrow> left_clean (sh w))"

lemma swap_load_passes: "passes (swap_load DefaultConfig 256 1)" "passes (swap_load NoFastSlots 256 1)"
  by code_simp+

lemma load_null_passes: "passes (load_null DefaultConfig 256)" "passes (load_null NoFastSlots 256)"
  by code_simp+

lemma from_into_passes: "passes (from_into DefaultConfig 256)" "passes (from_into NoFastSlots 256)"
  by code_simp+

lemma load_option_passes: "passes (load_option DefaultConfig 256)" "passes (load_option NoFastSlots 256)"
  by code_simp+

lemma debug_impl_passes: "passes (debug_impl DefaultConfig 256)" "passes (debug_impl NoFastSlots 256)"
  by code_simp+

lemma display_impl_passes: "passes (display_impl DefaultConfig 256)" "passes (display_impl NoFastSlots 256)"
  by code_simp+

lemma recursive_passes: "passes (recursive 1 256)"
  by code_simp

lemma nulls_passes: "passes (nulls 256)"
  by code_simp

lemma cas_ref_cnt_passes: "passes (cas_ref_cnt 2 256)"
  by code_simp

lemma load_cnt_passes: "passes (load_cnt 256)"
  by code_simp

lemma lease_overflow_passes: "passes (lease_overflow 9 256)"
  by code_simp

lemma there_and_back_passes: "passes (there_and_back DefaultConfig 256)" "passes (there_and_back NoFastSlots 256)"
  by code_simp+

lemma reset_passes: "passes (reset DefaultConfig 256)" "passes (reset NoFastSlots 256)"
  by code_simp+

lemma destroy_passes: "passes (destroy DefaultConfig 256)" "passes (destroy NoFastSlots 256)"
  by code_simp+

lemma ref_cnt_arc_passes: "passes (ref_cnt_arc)"
  by code_simp

lemma ref_cnt_pin_arc_passes: "passes (ref_cnt_pin_arc)"
  by code_simp

lemma ref_cnt_pin_rc_passes: "passes (ref_cnt_pin_rc)"
  by code_simp

lemma new_empty_passes: "passes (new_empty)"
  by code_simp

lemma cached_value_passes: "passes (cached_value 256)"
  by code_simp

lemma cache_option_passes: "passes (cache_option 256)"
  by code_simp

lemma map_cache_passes: "passes (map_cache 256)"
  by code_simp

lemma static_dispatch_passes: "passes (static_dispatch 256)"
  by code_simp

lemma dyn_dispatch_passes: "passes (dyn_dispatch 256)"
  by code_simp

lemma transition_passes: "passes (transition 256)"
  by code_simp

lemma map_test_passes: "passes (map_test 256)"
  by code_simp

lemma map_option_passes: "passes (map_option_some 256)" "passes (map_option_none 256)"
  by code_simp+

lemma constant_passes: "passes constant_test"
  by code_simp

lemma map_reload_passes: "passes (map_reload 256)"
  by code_simp

end
