(* ===== verification/Spec2Isabelle.thy ===== *)
theory Spec2Isabelle
  imports Demo Tests
begin

text \<open>
  A verification of \<^verbatim>\<open>arc-swap\<close>, a Rust crate whose \<open>ArcSwapAny<T, S>\<close> is an atomic cell for a
  reference counted pointer: readers get the pointer without touching its count, by recording a debt
  in a slot of their own; a writer that takes a pointer out of a cell walks over the slots of all
  threads and pays the debts on it with real references.

  \<^bold>\<open>Parts and theories.\<close>

  \<^item> \<open>Prelude\<close>: computations with faults (\<open>comp\<close>), \<open>usize\<close> as a 64-bit word.
  \<^item> \<open>RefCnt\<close> (\<^verbatim>\<open>src/ref_cnt.rs\<close>, \<^verbatim>\<open>src/weak.rs\<close>): the heap of counted allocations, the trait \<open>RefCnt\<close> as
    a record, all its implementations, its contract as the locale \<open>ref_cnt\<close>.
  \<^item> \<open>Machine\<close>: the structs of \<^verbatim>\<open>src/debt/\<close> as records, the shared memory, the world of one thread and its
    atomic accesses. Before each access the next element of \<open>sched\<close>, the interference of the other
    threads, acts on the memory; an empty \<open>sched\<close> is a thread that is not disturbed.
  \<^item> \<open>Debt\<close>, \<open>PayAll\<close> (\<^verbatim>\<open>src/debt/mod.rs\<close>), \<open>FastSlots\<close> (\<^verbatim>\<open>src/debt/fast.rs\<close>), \<open>HelpingSlots\<close>
    (\<^verbatim>\<open>src/debt/helping.rs\<close>), \<open>NodeList\<close> (\<^verbatim>\<open>src/debt/list.rs\<close>): the slots, the list of nodes, paying.
  \<^item> \<open>Protection\<close>, \<open>Hybrid\<close> (\<^verbatim>\<open>src/strategy/hybrid.rs\<close>, \<^verbatim>\<open>src/as_raw.rs\<close>), \<open>Strategy\<close>
    (\<^verbatim>\<open>src/strategy/mod.rs\<close>), \<open>RwLockStrategy\<close> (\<^verbatim>\<open>src/strategy/rw_lock.rs\<close>): the two strategies and the
    contract between a strategy and the cell, the locale \<open>strategy\<close>.
  \<^item> \<open>Books\<close>: the abstract view of the memory (counts, values, debts, cells) on which the contracts are
    equations.
  \<^item> \<open>ArcSwapAny\<close> (\<^verbatim>\<open>src/lib.rs\<close>), \<open>Cache\<close> (\<^verbatim>\<open>src/cache.rs\<close>), \<open>Access\<close> (\<^verbatim>\<open>src/access.rs\<close>), \<open>Serde\<close>
    (\<^verbatim>\<open>src/serde.rs\<close>): the public operations.
  \<^item> \<open>Ownership\<close>, \<open>System\<close>: programs made of many complete calls by many threads (load, store, swap, compare
    and swap, clone and drop of guards, creation and drop of cells, creation and exit of threads), the balance
    of references, reachable states. \<open>Shutdown\<close>: the end of such a program, and the invariant of the heap that
    makes it empty then.
  \<^item> \<open>Steps\<close>, \<open>Pool\<close>: the operations of the hybrid strategy cut at every atomic access. The program counters
    \<open>lpc\<close>, \<open>hpc\<close>, \<open>ppc\<close>, \<open>ipc\<close>, \<open>pc\<close> stand between two accesses of \<open>attempt\<close>, \<open>fallback\<close> and
    \<open>confirm\<close>, of \<open>Slots::help\<close>, of \<open>Debt::pay_all\<close>, of \<open>into_inner\<close> and of a whole operation;
    \<open>load_atom\<close>, \<open>help_atom\<close>, \<open>pay_atom\<close>, \<open>into_atom\<close>, \<open>thread_atom\<close> perform one access. The lemmas
    \<open>load_rest_step\<close>, \<dots>, \<open>thread_rest_step\<close> say that accesses in a row are the functions of \<open>Hybrid\<close>.
  \<^item> \<open>Account\<close>, \<open>Protocol\<close>: the claims on references of operations under way, and the invariant that ties
    the memory to the positions of all threads: what a slot, a control word, an envelope may hold while its
    owner and the writers are where they are.
  \<^item> \<open>LoadSafety\<close>, \<open>HelpSafety\<close>, \<open>Helper\<close>, \<open>WriterSafety\<close>, \<open>PoolSafety\<close>: every access of a load, of the
    helping transaction, of a writer's walk, of any operation keeps that invariant and does not fault.
  \<^item> \<open>Interleaving\<close>: the pool of threads as the transition system \<open>pstep\<close>, its reachable states
    \<open>interleaved\<close>, and explicit schedules of moves to run it. \<open>Progress\<close>: the rank that every access of a
    load decreases.
  \<^item> \<open>LoadWindow\<close>: what a load knows of the values its storage has shown, a helper's load on behalf of a reader
    included. \<open>CallWindow\<close>: loads, swaps and compare-and-swaps from call to return; each takes effect at one
    moment in between. \<open>Registers\<close>: every step of the pool as a step of atomic registers, the storages.
  \<^item> \<open>Interference\<close>: single operations overtaken by other threads at the places the code is prepared for: a
    confirmation, a claim, the push of a node.
  \<^item> \<open>Tests\<close>: tests of the crate as programs of the model, run by the kernel.
  \<^item> \<open>Demo\<close>: concrete states, those of the interleaved pool reached by explicit schedules.

  \<^bold>\<open>What is shown.\<close> Below, in this order: programs made of many complete calls never fault, account for
  every reference and leave nothing behind; the same account for threads interleaved at every access, with the results
  of loads, swaps and compare-and-swaps, the storages as atomic registers and the wait-freedom of loads; then the single
  operations, their contracts, branches, round trips and bounds, and the push of a node under contention.

  \<^bold>\<open>Bounds and fuel.\<close> \<open>usize\<close> is 64 bits wide and wraps. The source has four loops without a bound of their
  own: the retries of compare-and-swap, of \<open>rcu\<close> and of \<open>help\<close> and the push of a new node. Each has fuel
  here, and running out of it is the fault \<open>OutOfFuel\<close>, distinct from every other. A call that nobody disturbs needs
  one round, plus one for every spurious failure of a weak exchange (the list \<open>weak_cas\<close>), and the theorems on
  complete calls show that more fuel than failures is enough. A walk along the list is bounded by the number of nodes
  pushed before it read the head (\<open>node_cnt\<close>), which always suffices. In the interleaved pool the fuel is chosen anew by each access of the
  helping loop and by each request of a compare-and-swap, so no finite run of the program is left
  out; there the theorems say that \<open>OutOfFuel\<close> is the only way to stop. A thread of the pool stops in front of the
  access that announces a load if that would make its generation counter wrap (\<open>may_run\<close>); all its other accesses
  run. The wrap, after \<open>2 ^ 62\<close> announcements, is treated apart: the code then panics, as the theorem on
  \<open>fallback\<close> below and the first finding show. The counter \<open>FbWrap\<close>, where a load gives its node up, is part of
  the machine but is not reached by the pool; its accesses are taken in one step. In complete calls the same is
  the condition \<open>gens_left\<close> of \<open>resources\<close>.

  \<^bold>\<open>Not modelled.\<close> Memory orderings: every access is sequentially consistent, so the orderings the source
  argues for in its comments are not checked. Within the interleaved pool a thread keeps the
  node it has and new cells may appear; a thread getting or giving up its node, a cell being dropped or taken apart
  happen in complete calls only. Destructors of
  the values behind the pointers: releasing the last reference frees the allocation and runs no code of the client, so
  a destructor that calls back into the crate is outside the model. Overflow
  of a reference count, which aborts in \<^verbatim>\<open>std\<close>, a poisoned lock in the lock strategy (no modelled section
  panics), the feature \<^verbatim>\<open>experimental-thread-local\<close>, the text that \<^verbatim>\<open>Debug\<close> prints beyond the value it shows,
  the documentation modules, the benchmarks and the tests that race threads against each other.
\<close>

unbundle bit_operations_syntax

section \<open>Programs made of many calls\<close>

text \<open>C1. No call of the public interface ever faults. In every state a program can reach through
  complete calls (from any number of threads), a call that the language and the allocator permit
  returns: no assertion or \<open>expect\<close> fails, no freed value is touched, no slot index leaves its
  array, no retry loop exceeds its bound.\<close>

theorem calls_never_fault:
  assumes "reachable OA cfg Z" and "may_call c Z" and "resources t k ws Z"
  shows "\<exists>H w'. perform OA cfg c (hnd Z) (in_thread t k ws Z) = (Inr H, w') \<and>
    reachable OA cfg \<lparr>mem = sh w', thr = (thr Z)(t := loc w'), hnd = H\<rparr>"
proof -
  obtain H w' where r: "perform OA cfg c (hnd Z) (in_thread t k ws Z) = (Inr H, w')"
    using option_arc.perform_ok[OF option_arc.reachable_ok[OF assms(1)] assms(2,3), of cfg]
    by (auto simp: call_ok_def)
  then show ?thesis using reachable.call[OF assms r] by blast
qed

theorem calls_never_fault_witness:
  "\<exists>H w'. perform OA DefaultConfig (Alloc 42) (hnd demo_start) (in_thread 0 1 [] demo_start) = (Inr H, w') \<and>
    reachable OA DefaultConfig \<lparr>mem = sh w', thr = (thr demo_start)(0 := loc w'), hnd = H\<rparr>"
  by (rule calls_never_fault[OF demo_start_reachable demo_start_alloc demo_start_resources])

text \<open>C2. References are conserved: in every reachable state, the strong count of a pointer plus the
  number of debt slots that owe it is exactly the number of storages that contain it plus the number
  of handles (full references and guards) the program holds on it.\<close>

theorem references_are_accounted:
  assumes "reachable OA cfg Z" and "p \<noteq> 0" and "p \<noteq> NONE"
  shows "strong_rc (heap (mem Z)) p + debts (mem Z) p =
    card {a. storage (mem Z) a = Some p} + size (filter_mset (\<lambda>h. fst h = p) (hnd Z))"
proof -
  have ok: "sys_ok strong_rc Z" using assms(1) by (rule option_arc.reachable_ok)
  then obtain ns where "chained (mem Z) ns" by (auto simp: sys_ok_def)
  then have "debts (mem Z) p = card (debts_on (view strong_rc (mem Z)) p)"
    using debts_card(2)[OF chained_finite assms(3)] by (simp add: debts_on_def)
  then show ?thesis
    using balanced_total[of "view strong_rc (mem Z)" "hnd Z" p] ok assms(2)
    by (simp add: sys_ok_def total_def stored_def held_def)
qed

theorem references_are_accounted_witness:
  "strong_rc (heap (mem demo_three)) 16 + debts (mem demo_three) 16 =
    card {a. storage (mem demo_three) a = Some 16} + size (filter_mset (\<lambda>h. fst h = 16) (hnd demo_three))"
  by (rule references_are_accounted[OF demo_three_reachable]) (simp_all add: NONE_def)

text \<open>C3. Nothing in use is freed: in every reachable state, a pointer in a storage or in a handle
  (even a guard that only owes its reference) has a positive count and its value is still there.\<close>

theorem nothing_in_use_is_freed:
  assumes "reachable OA cfg Z" and "p \<noteq> 0" and "storage (mem Z) a = Some p \<or> (p, x) \<in># hnd Z"
  shows "0 < strong_rc (heap (mem Z)) p \<and> (\<exists>v. value_at (heap (mem Z)) p = Some v)"
  using option_arc.sys_live(1)[OF option_arc.reachable_ok[OF assms(1)] assms(3)] assms(2)
    strong_value[of "heap (mem Z)" p] by (simp add: live_ptr_def)

theorem nothing_in_use_is_freed_witness:
  "0 < strong_rc (heap (mem demo_three)) 16 \<and> (\<exists>v. value_at (heap (mem demo_three)) 16 = Some v)"
  by (rule nothing_in_use_is_freed[OF demo_three_reachable, of 16 0 "Some (FastDebt 4096 0)"])
    (simp_all add: demo_three_handle)

text \<open>C4. Programs do not leak: from every reachable state, dropping all handles and all storages, in whatever order,
  runs to its end without a fault, and afterwards the heap is empty and no slot owes anything. Every allocation the
  program ever made has been freed, whatever loads, stores, swaps and guards it went through.\<close>

theorem shutdown_frees_everything:
  assumes "reachable OA cfg Z" and "can_work t Z" and "gives_up_all cs Z"
  shows "\<exists>Z'. run_calls OA cfg t cs Z = Inr Z' \<and> reachable OA cfg Z' \<and>
    heap (mem Z') = Map.empty \<and> owed_of (mem Z') = {}"
  using option_arc_heap.shutdown[OF assms] option_arc_heap.nothing_left by blast

theorem shutdown_frees_everything_witness:
  "\<exists>Z'. run_calls OA DefaultConfig 0 demo_farewell demo_three = Inr Z' \<and> reachable OA DefaultConfig Z' \<and>
    heap (mem Z') = Map.empty \<and> owed_of (mem Z') = {}"
  by (rule shutdown_frees_everything[OF demo_three_reachable demo_three_ends])

text \<open>C5. A node belongs to one thread: in every reachable state, the node a thread holds is marked
  as used and no other thread holds it.\<close>

theorem nodes_are_exclusive:
  assumes "reachable OA cfg Z" and "node (thr Z t) = Some n"
  shows "n \<in> used_nodes (mem Z) \<and> {u. node (thr Z u) = Some n} = {t}"
proof -
  have ok: "sys_ok strong_rc Z" using assms(1) by (rule option_arc.reachable_ok)
  then have "local_ok (mem Z) (thr Z t)" by (simp add: sys_ok_def)
  then have "n \<in> used_nodes (mem Z)" using assms(2) by (auto simp: local_ok_def used_nodes_def)
  then show ?thesis using ok assms(2) unfolding sys_ok_def by blast
qed

theorem nodes_are_exclusive_witness:
  "4096 \<in> used_nodes (mem demo_three) \<and> {u. node (thr demo_three u) = Some 4096} = {0}"
  by (rule nodes_are_exclusive[OF demo_three_reachable demo_three_node])

section \<open>Threads interleaved at every access\<close>

text \<open>C6. Interleaved threads never fault. Whatever loads, swaps, compare-and-swaps, guard and reference drops
  the threads of a pool are in the middle of, and however their atomic accesses were interleaved, the
  next access of any thread that may run succeeds: no assertion or \<open>expect\<close> fails, no freed value is counted, no node or
  envelope is missing. The only other outcome is that a bound put on a retry loop of the source is used up.\<close>

theorem interleaved_threads_never_fault:
  assumes "interleaved OA P" and "may_run n P"
  shows "fst (thread_atom OA (pcs P n) (in_pool n k ws P)) \<in> insert (Inl OutOfFuel) (range Inr)"
proof -
  obtain ns where "pool_ok strong_rc ns P" using option_arc.interleaved_ok[OF assms(1)] by blast
  then show ?thesis by (rule option_arc.pool_fault[OF _ assms(2)])
qed

theorem interleaved_threads_never_fault_witness:
  "fst (thread_atom OA (pcs pool_busy 5120) (in_pool 5120 9 [] pool_busy)) \<in> insert (Inl OutOfFuel) (range Inr)"
  by (rule interleaved_threads_never_fault[OF pool_interleaved(3) pool_busy_facts(3)])

text \<open>C7. References are accounted for in the middle of all operations: the strong count of a pointer plus
  the debts on it is the number of storages that contain it, plus the handles of the clients on it, plus
  the claims on it that the threads have in hand (a reference taken out of a storage, a recorded debt, a
  replacement on its way to a reader).\<close>

theorem interleaved_references_are_accounted:
  assumes "interleaved OA P" and "p \<noteq> 0"
  shows "strong_rc (heap (pmem P)) p + card {d. slot_get (pmem P) d = Some p \<and> p \<noteq> NONE} =
    card {a. storage (pmem P) a = Some p} + size (filter_mset (\<lambda>h. fst h = p) (phnd P)) +
    (\<Sum>n\<in>dom (nodes (pmem P)). size (filter_mset (\<lambda>h. fst h = p) (in_hand P n)))"
proof -
  obtain ns where ok: "pool_ok strong_rc ns P" using option_arc.interleaved_ok[OF assms(1)] by blast
  have "filter_mset f (\<Sum>n\<in>N. g n) = (\<Sum>n\<in>N. filter_mset f (g n))" for f :: "handle \<Rightarrow> bool" and g and N :: "usize set"
    by (induction N rule: infinite_finite_induct) simp_all
  moreover have "size (\<Sum>n\<in>N. g n) = (\<Sum>n\<in>N. size (g n))" for g :: "usize \<Rightarrow> handles" and N :: "usize set"
    by (induction N rule: infinite_finite_induct) simp_all
  ultimately show ?thesis
    using account_total[OF pool_account[OF ok] assms(2)]
    by (simp add: total_def stored_def held_def debts_on_def pool_claims_def view_def owed_of_def del: slot_get.simps)
qed

theorem interleaved_references_are_accounted_witness:
  "strong_rc (heap (pmem pool_busy)) 16 + card {d. slot_get (pmem pool_busy) d = Some 16 \<and> 16 \<noteq> NONE} =
    card {a. storage (pmem pool_busy) a = Some 16} + size (filter_mset (\<lambda>h. fst h = 16) (phnd pool_busy)) +
    (\<Sum>n\<in>dom (nodes (pmem pool_busy)). size (filter_mset (\<lambda>h. fst h = 16) (in_hand pool_busy n)))"
  by (rule interleaved_references_are_accounted[OF pool_interleaved(3)]) simp

text \<open>C8. Nothing in use is freed, at no point of any interleaving: a pointer in a storage or in a handle of
  a client (even in a guard that only owes its reference) has a positive count and its value is there.\<close>

theorem interleaved_pointers_stay_alive:
  assumes "interleaved OA P" and "p \<noteq> 0" and "storage (pmem P) a = Some p \<or> (p, x) \<in># phnd P"
  shows "0 < strong_rc (heap (pmem P)) p \<and> (\<exists>v. value_at (heap (pmem P)) p = Some v)"
proof -
  obtain ns where ok: "pool_ok strong_rc ns P" using option_arc.interleaved_ok[OF assms(1)] by blast
  have "0 < strong_rc (heap (pmem P)) p"
    using assms(3) pool_alive_stored[OF ok assms(2)] pool_alive_handle[OF ok assms(2)] by blast
  then show ?thesis using strong_value[of "heap (pmem P)" p] by simp
qed

theorem interleaved_pointers_stay_alive_witness:
  "0 < strong_rc (heap (pmem pool_busy)) 16 \<and> (\<exists>v. value_at (heap (pmem pool_busy)) 16 = Some v)"
  by (rule interleaved_pointers_stay_alive[OF pool_interleaved(3), of 16 256]) (simp_all add: pool_busy_facts)

text \<open>C9. A load returns a current value: when \<open>S\<close> collects the values the storage has had since the load was
  called, the guard it returns is on one of them, also when a writer loaded the value for the reader, and the load
  has exchanged nothing. So every load takes effect at some moment between its call and its return.\<close>

theorem loads_return_a_current_value:
  assumes "call_window OA n (LoadAt a) S E P" and "pcs P n = Done K"
  shows "\<exists>p d. K = {#(p, d)#} \<and> p \<in> S \<and> E = []"
  using option_arc.call_window_result[OF assms] by auto

theorem loads_return_a_current_value_witness:
  "\<exists>S E. call_window OA 5120 (LoadAt 256) S E pool_loaded \<and>
    (\<exists>p d. {#(16, Some (FastDebt 5120 0))#} = {#(p, d)#} \<and> p \<in> S \<and> E = [])"
  using pool_loaded_window loads_return_a_current_value[OF _ pool_loaded_result] by blast

text \<open>C10. Updates take effect once: a swap exchanges the storage exactly once and returns what it took out; a
  compare-and-swap returns a value the storage has shown since the call and has made its one exchange, from the
  expected value to the new one, exactly when the returned value is the expected one.\<close>

theorem updates_take_effect_once:
  assumes "call_window OA n r S E P" and "pcs P n = Done K"
  shows "case r of
      SwapAt a q \<Rightarrow> \<exists>p. K = {#(p, None)#} \<and> p \<in> S \<and> E = [(p, q)]
    | CasAt k a c q \<Rightarrow> \<exists>p d. K = {#(p, d)#} \<and> p \<in> S \<and> E = (if p = c then [(c, q)] else [])
    | _ \<Rightarrow> True"
  using option_arc.call_window_result[OF assms] by (cases r) auto

theorem updates_take_effect_once_witness:
  "\<exists>S E. call_window OA 4096 (CasAt 5 256 16 32) S E pool_replaced \<and>
    (\<exists>p d. {#(16, Some (FastDebt 4096 0))#} = {#(p, d)#} \<and> p \<in> S \<and> E = (if p = 16 then [(16, 32)] else []))"
proof -
  obtain S E where w: "call_window OA 4096 (CasAt 5 256 16 32) S E pool_replaced" using pool_replaced_window by blast
  from updates_take_effect_once[OF w pool_replaced_result] w show ?thesis by auto
qed

text \<open>C11. Storages are atomic registers: of all the accesses of all threads only the exchange of a swap and the
  successful exchange of a compare-and-swap write to a storage, the latter only where it finds the expected
  value; apart from that, storages come into being with a reference the clients had.\<close>

theorem storages_are_atomic_registers:
  assumes "pstep OA P Q"
  shows "reg_step Quiet (storage (pmem P)) (storage (pmem Q)) \<or>
    (\<exists>n a p q. may_exchange (pcs P n) a p q \<and> has_exchanged (pcs Q n) \<and>
      reg_step (Exchange a p q) (storage (pmem P)) (storage (pmem Q))) \<or>
    (\<exists>a q. (q, None) \<in># phnd P \<and> phnd Q = phnd P - {#(q, None)#} \<and>
      reg_step (Fresh a q) (storage (pmem P)) (storage (pmem Q)))"
proof (cases rule: pool_registers[OF assms])
  case (3 a q)
  then show ?thesis by (simp only: OA_from_ptr OA_into_ptr) blast
qed blast+

theorem storages_are_atomic_registers_witness:
  "\<exists>n a p q. may_exchange (pcs pool_asked n) a p q \<and> has_exchanged (pcs (make_move OA (Run 4096 9 []) pool_asked) n) \<and>
    reg_step (Exchange a p q) (storage (pmem pool_asked)) (storage (pmem (make_move OA (Run 4096 9 []) pool_asked)))"
proof -
  obtain Q where Q: "Q = make_move OA (Run 4096 9 []) pool_asked" by blast
  have "storage (pmem pool_asked) 256 = Some 0" "storage (pmem Q) 256 = Some 16" "phnd pool_asked = {#}"
    unfolding Q by code_simp+
  then show ?thesis using storages_are_atomic_registers[OF pool_asked_step] unfolding Q[symmetric] by auto
qed

text \<open>C12. Loads are wait-free: in any schedule in which the loading thread gets 26 accesses of its own, whatever
  the others do in between, the load is done (as long as the thread may run, that is, it does not stand before an
  announcement that would make its generation counter wrap).\<close>

theorem loads_are_wait_free:
  assumes "interleaved OA P" and "pcs P n = Loading a LdPtr" and "may_run n P" and "Return n \<notin> set ms"
    and "18 + DEBT_SLOT_CNT \<le> length (filter (own n) ms)" and "may_run n (run_moves OA ms P)"
  shows "\<exists>p d. pcs (run_moves OA ms P) n = Done {#(p, d)#}"
proof -
  obtain ns where ok: "pool_ok strong_rc ns P" using option_arc.interleaved_ok[OF assms(1)] by blast
  have "nearly_loaded (18 + DEBT_SLOT_CNT) (pcs P n)" using assms(2) by (simp add: nearly_loaded_def)
  moreover have "n \<in> set ns" using assms(3) pool_nodes[OF ok] by (simp add: may_run_def)
  ultimately show ?thesis using option_arc.loads_end[OF ok _ _ assms(4-6)] by blast
qed

theorem loads_are_wait_free_witness:
  "\<exists>p d. pcs (run_moves OA (replicate 26 (Run 5120 9 [])) pool_asked_too) 5120 = Done {#(p, d)#}"
  by (rule loads_are_wait_free[OF pool_asked_too(1,2,3), of "replicate 26 (Run 5120 9 [])"])
    (simp_all add: pool_asked_too(4) DEBT_SLOT_CNT_def)

text \<open>C13. A pool at rest is balanced: once every thread is idle, the memory and the handles satisfy the abstract
  account of \<open>Ownership\<close>, which is the state the single calls of the sections below start from. The
  interleaved algorithm implements, between its quiet moments, the ownership discipline of complete calls.\<close>

theorem idle_pool_is_balanced:
  assumes "interleaved OA P" and "\<And>n. nodes (pmem P) n \<noteq> None \<Longrightarrow> pcs P n = Idle"
  shows "balanced (view strong_rc (pmem P)) (phnd P)"
proof -
  obtain ns where "pool_ok strong_rc ns P" using option_arc.interleaved_ok[OF assms(1)] by blast
  then show ?thesis using assms(2) by (rule pool_balanced)
qed

theorem idle_pool_is_balanced_witness: "balanced (view strong_rc (pmem pool_idle)) (phnd pool_idle)"
  by (rule idle_pool_is_balanced[OF pool_interleaved(2)]) (use pool_idle_nodes pool_idle_facts in blast)

text \<open>C14. The machine is the program: the first position of a request stands for the modelled call, and what
  remains at any position is the next access followed by what remains after it. A thread of the pool
  therefore executes exactly the programs of \<open>Hybrid\<close>, cut at every access.\<close>

theorem machine_steps_are_the_program:
  assumes "holds_node w"
  shows "thread_rest OA (first_pc r) w = program_of OA r w \<and>
    thread_rest OA pc w = bnd (thread_atom OA pc) (thread_rest OA) w"
  by (intro conjI fun_cong[OF option_arc.program_start] option_arc.thread_rest_step[OF assms])

theorem machine_steps_are_the_program_witness:
  "thread_rest OA (first_pc (LoadAt 256)) demo_held = program_of OA (LoadAt 256) demo_held \<and>
    thread_rest OA (Loading 256 LdPtr) demo_held = bnd (thread_atom OA (Loading 256 LdPtr)) (thread_rest OA) demo_held"
  by (rule machine_steps_are_the_program) (simp add: holds_node_def demo_held_def demo_def)

text \<open>C15. Control words keep their type under all interleavings: the word of a node is idle, or carries the
  tag of a generation, or is the tagged address of an aligned envelope that exists.\<close>

theorem control_words_are_well_typed:
  assumes "interleaved OA P" and "nodes (pmem P) n = Some nd"
  shows "control (helping nd) = IDLE \<or> control (helping nd) AND TAG_MASK = GEN_TAG \<or>
    (control (helping nd) AND TAG_MASK = REPLACEMENT_TAG \<and> aligned4 (control (helping nd) AND NOT TAG_MASK) \<and>
      envelopes (pmem P) (control (helping nd) AND NOT TAG_MASK) \<noteq> None)"
proof -
  obtain ns where ok: "pool_ok strong_rc ns P" using option_arc.interleaved_ok[OF assms(1)] by blast
  have "ctl (pmem P) n = control (helping nd)" using assms(2) by (simp add: ctl_def node_at_def)
  then show ?thesis using pool_ctl[OF ok, of n] assms(2) by (simp add: is_gen_def is_env_def untag_def)
qed

theorem control_words_are_well_typed_witness:
  "\<exists>nd. nodes (pmem pool_busy) 5120 = Some nd \<and>
    (control (helping nd) = IDLE \<or> control (helping nd) AND TAG_MASK = GEN_TAG \<or>
    (control (helping nd) AND TAG_MASK = REPLACEMENT_TAG \<and> aligned4 (control (helping nd) AND NOT TAG_MASK) \<and>
      envelopes (pmem pool_busy) (control (helping nd) AND NOT TAG_MASK) \<noteq> None))"
  using control_words_are_well_typed[OF pool_interleaved(3), of 5120] pool_busy_facts(4) by blast

section \<open>Operations of a storage\<close>

text \<open>C16. \<open>load\<close> gives a guard on the stored pointer and either borrows (it records one debt, in a
  slot that was free) or takes one reference; nothing else in the books changes.\<close>

theorem load_borrows_or_counts:
  assumes "settled w" and "holds_ptr True strong_rc a p w" and "0 < gens_left w"
  shows "\<exists>g w'. any_load (hybrid_Strategy OA cfg) a w = (Inr g, w') \<and> settled w' \<and>
    guard_deref (hybrid_Strategy OA cfg) g = opt_arc p \<and>
    fresh_debt (view strong_rc (sh w)) (hp_debt (inner g)) \<and>
    view strong_rc (sh w') = acquired p (hp_debt (inner g)) (view strong_rc (sh w))"
proof -
  have h: "settled w \<and> holds_ptr True strong_rc a p w" using assms by simp
  show ?thesis
    by (rule option_hybrid.any_load_ok[OF h assms(3), of cfg])
      (auto simp: guard_deref_def hybrid_Strategy_def hp_borrow_def protects_def)
qed

theorem load_borrows_or_counts_witness:
  "\<exists>g w'. any_load (hybrid_Strategy OA DefaultConfig) 256 demo = (Inr g, w') \<and> settled w' \<and>
    guard_deref (hybrid_Strategy OA DefaultConfig) g = opt_arc 16 \<and>
    fresh_debt (view strong_rc (sh demo)) (hp_debt (inner g)) \<and>
    view strong_rc (sh w') = acquired 16 (hp_debt (inner g)) (view strong_rc (sh demo))"
  by (rule load_borrows_or_counts) (rule demo_facts)+

text \<open>C17. \<open>load_full\<close> returns the stored pointer and adds exactly one reference to it, whether or not
  it went through a debt.\<close>

theorem load_full_adds_one_reference:
  assumes "settled w" and "holds_ptr True strong_rc a p w" and "0 < gens_left w"
  shows "\<exists>w'. load_full (hybrid_Strategy OA cfg) a w = (Inr (opt_arc p), w') \<and> settled w' \<and>
    view strong_rc (sh w') = bump p 1 (view strong_rc (sh w))"
proof -
  have h: "settled w \<and> holds_ptr True strong_rc a p w" using assms by simp
  show ?thesis by (rule option_hybrid.load_full_ok[OF h assms(3), of cfg]) auto
qed

theorem load_full_adds_one_reference_witness:
  "\<exists>w'. load_full (hybrid_Strategy OA NoFastSlots) 256 demo = (Inr (opt_arc 16), w') \<and> settled w' \<and>
    view strong_rc (sh w') = bump 16 1 (view strong_rc (sh demo))"
  by (rule load_full_adds_one_reference) (rule demo_facts)+

text \<open>C18. \<open>swap\<close> puts the new pointer in, returns the old one, and pays every debt on the old one:
  each slot that owed it is free afterwards and has become a counted reference.\<close>

theorem swap_pays_all_debts:
  assumes "settled w" and "holds_ptr True strong_rc a p w"
  shows "\<exists>w'. any_swap OA (hybrid_Strategy OA cfg) a (opt_arc q) w = (Inr (opt_arc p), w') \<and> settled w' \<and>
    view strong_rc (sh w') = paid_off p (put a q (view strong_rc (sh w)))"
proof -
  have h: "settled w \<and> holds_ptr True strong_rc a p w" using assms by simp
  show ?thesis by (rule option_hybrid.any_swap_ok[OF h, of cfg "opt_arc q"]) auto
qed

theorem swap_pays_all_debts_witness:
  "\<exists>w'. any_swap OA (hybrid_Strategy OA DefaultConfig) 256 (opt_arc 32) demo = (Inr (opt_arc 16), w') \<and> settled w' \<and>
    view strong_rc (sh w') = paid_off 16 (put 256 32 (view strong_rc (sh demo)))"
  by (rule swap_pays_all_debts) (rule demo_facts)+

text \<open>C19. \<open>store\<close> is a swap whose result is released; a value nobody else refers to is freed.\<close>

theorem store_releases_the_old_value:
  assumes "settled w" and "holds_ptr True strong_rc a p w"
  shows "\<exists>w'. any_store OA (hybrid_Strategy OA cfg) a (opt_arc q) w = (Inr (), w') \<and> settled w' \<and>
    storage (sh w') = (storage (sh w))(a \<mapsto> q) \<and>
    (p \<noteq> 0 \<longrightarrow> strong_rc (heap (sh w')) p = strong_rc (heap (sh w)) p + debts (sh w) p - 1 \<and> debts (sh w') p = 0)"
proof -
  have h: "settled w \<and> holds_ptr True strong_rc a p w" using assms by simp
  obtain w' where r: "any_store OA (hybrid_Strategy OA cfg) a (opt_arc q) w = (Inr (), w')" "settled w'"
      "view strong_rc (sh w') = unref p (paid_off p (put a q (view strong_rc (sh w))))"
    by (rule option_hybrid.any_store_ok[OF h, of cfg "opt_arc q"]) auto
  obtain ns ns' where ch: "chained (sh w) ns" "chained (sh w') ns'"
    using assms(1) r(2) by (auto simp: settled_def)
  have np: "p \<noteq> NONE" using assms(2) by (simp add: holds_ptr_def)
  have d: "debts (sh w) p = card (debts_on (view strong_rc (sh w)) p)"
      "debts (sh w') p = card (debts_on (view strong_rc (sh w')) p)"
    using debts_card(2)[OF chained_finite np] ch by (auto simp: debts_on_def)
  have "storage (sh w') = (storage (sh w))(a \<mapsto> q)"
    using arg_cong[OF r(3), of cells] by simp
  moreover have "strong_rc (heap (sh w')) p = strong_rc (heap (sh w)) p + debts (sh w) p - 1" if "p \<noteq> 0"
    using arg_cong[OF r(3), of "\<lambda>B. counts B p"] that d(1)
    by (simp add: unref_def paid_off_def bump_def put_def debts_on_def)
  moreover have "debts (sh w') p = 0"
    unfolding d(2) r(3) by (simp add: debts_on_def)
  ultimately show ?thesis using r(1,2) by auto
qed

theorem store_releases_the_old_value_witness:
  "\<exists>w'. any_store OA (hybrid_Strategy OA DefaultConfig) 256 (opt_arc 32) demo = (Inr (), w') \<and> settled w' \<and>
    storage (sh w') = (storage (sh demo))(256 \<mapsto> 32) \<and>
    ((16 :: usize) \<noteq> 0 \<longrightarrow> strong_rc (heap (sh w')) 16 = strong_rc (heap (sh demo)) 16 + debts (sh demo) 16 - 1 \<and>
      debts (sh w') 16 = 0)"
  by (rule store_releases_the_old_value) (rule demo_facts)+

text \<open>C20. \<open>compare_and_swap\<close>: if the guess is right it has the effect of \<open>swap\<close>, otherwise that of
  \<open>load\<close> with the rejected value released; in both cases the guard returned is on the previous
  pointer. Spurious failures of the weak exchange only cost retries.\<close>

theorem compare_and_swap_is_swap_or_load:
  fixes w :: "'v world"
  assumes "settled w" and "holds_ptr True strong_rc a p w" and "spurious_left w < gens_left w"
    and "live_ptr True strong_rc (heap (sh w)) q" and "by_reference current"
  shows "\<exists>old w'. any_compare_and_swap (hybrid_Strategy OA cfg) a current (opt_arc q) w = (Inr old, w') \<and>
    settled w' \<and> guard_deref (hybrid_Strategy OA cfg) old = opt_arc p \<and>
    (if as_raw (OA :: (arc option, 'v) RefCnt) current = p
     then view strong_rc (sh w') = paid_off p (put a q (view strong_rc (sh w)))
     else view strong_rc (sh w') = unref q (acquired p (hp_debt (inner old)) (view strong_rc (sh w))))"
proof -
  have h: "settled w \<and> holds_ptr True strong_rc a p w" using assms by simp
  have l: "live_ptr True strong_rc (heap (sh w)) (into_ptr OA (opt_arc q))" using assms(4) by simp
  obtain old w' where r: "any_compare_and_swap (hybrid_Strategy OA cfg) a current (opt_arc q) w = (Inr old, w')"
      "progress (Suc (spurious_left w)) w w'" "settled w'" "protects OA (sh w') p (inner old)"
      "if as_raw (OA :: (arc option, 'v) RefCnt) current = p
       then view strong_rc (sh w') = paid_off p (put a q (view strong_rc (sh w)))
       else fresh_debt (view strong_rc (sh w)) (hp_debt (inner old)) \<and>
            view strong_rc (sh w') = unref q (acquired p (hp_debt (inner old)) (view strong_rc (sh w)))"
    using option_hybrid.any_compare_and_swap_ok[OF h assms(3) OA_valid l assms(5), of cfg, unfolded OA_into_ptr] .
  have "guard_deref (hybrid_Strategy OA cfg) old = opt_arc p"
    using r(4) by (simp add: guard_deref_def hybrid_Strategy_def hp_borrow_def protects_def)
  then show ?thesis using r by (auto split: if_splits)
qed

theorem compare_and_swap_is_swap_or_load_witness:
  "\<exists>old w'. any_compare_and_swap (hybrid_Strategy OA DefaultConfig) 256 (RawConst 16) (opt_arc 32) demo = (Inr old, w') \<and>
    settled w' \<and> guard_deref (hybrid_Strategy OA DefaultConfig) old = opt_arc 16 \<and>
    (if as_raw (OA :: (arc option, nat) RefCnt) (RawConst 16) = 16
     then view strong_rc (sh w') = paid_off 16 (put 256 32 (view strong_rc (sh demo)))
     else view strong_rc (sh w') = unref 32 (acquired 16 (hp_debt (inner old)) (view strong_rc (sh demo))))"
  by (rule compare_and_swap_is_swap_or_load) (simp_all add: demo_facts[simplified])

text \<open>Passing an owned \<open>Guard\<close> to \<open>compare_and_swap\<close> is the same as passing a reference to it and
  dropping it afterwards, on every path through the loop.\<close>

theorem compare_and_swap_consumes_guard:
  "hybrid_compare_and_swap T cfg a (RawOfGuard g) new =
   bnd (hybrid_compare_and_swap T cfg a (RawOfGuardRef g) new) (\<lambda>old. bnd (hp_drop T (inner g)) (\<lambda>_. ret old))"
  by (rule hybrid_compare_and_swap_owned)

text \<open>C21. \<open>rcu\<close> without interference calls the closure once, on the stored value; the result of the
  closure replaces it, the previous value is returned with the reference the storage had, and the
  guard used in between is given back.\<close>

theorem rcu_replaces_once:
  fixes w :: "'v world"
  assumes "settled w" and "holds_ptr True strong_rc a p w" and "0 < gens_left w"
    and "\<forall>g w1. any_load (hybrid_Strategy OA cfg) a w = (Inr g, w1) \<longrightarrow>
      f (opt_arc p) w1 = (Inr (opt_arc (q w1)), upd w1) \<and> progress 0 w1 (upd w1) \<and>
      holds_ptr True strong_rc a p (upd w1) \<and> spurious_left (upd w1) < gens_left (upd w1) \<and>
      live_ptr True strong_rc (heap (sh (upd w1))) (q w1)"
  shows "\<exists>g w1 w'. any_load (hybrid_Strategy OA cfg) a w = (Inr g, w1) \<and>
    rcu OA (hybrid_Strategy OA cfg) a f w = (Inr (opt_arc p), w') \<and> settled w' \<and>
    storage (sh w') = (storage (sh (upd w1)))(a \<mapsto> q w1) \<and>
    (\<forall>r. r \<noteq> 0 \<longrightarrow> total (view strong_rc (sh w')) r =
      total (view strong_rc (sh (upd w1))) r - (if r = p then 1 else 0))"
proof -
  have h: "settled w \<and> holds_ptr True strong_rc a p w" using assms by simp
  have f: "\<forall>g w1. any_load (hybrid_Strategy OA cfg) a w = (Inr g, w1) \<longrightarrow>
      f (from_ptr (OA :: (arc option, 'v) RefCnt) p) w1 = (Inr (opt_arc (q w1)), upd w1) \<and> progress 0 w1 (upd w1) \<and>
      (settled (upd w1) \<and> holds_ptr True strong_rc a p (upd w1)) \<and>
      spurious_left (upd w1) < gens_left (upd w1) \<and> option_valid arc_valid (opt_arc (q w1)) \<and>
      live_ptr True strong_rc (heap (sh (upd w1))) (into_ptr (OA :: (arc option, 'v) RefCnt) (opt_arc (q w1)))"
    using assms(4) progress_settled by (simp only: OA_from_ptr OA_into_ptr OA_valid) blast
  show ?thesis
    by (rule option_hybrid.rcu_ok[where f = f and new = "\<lambda>w. opt_arc (q w)" and upd = upd, OF h assms(3) f])
      (simp only: OA_from_ptr OA_into_ptr view_fields, blast)
qed

theorem rcu_replaces_once_witness:
  "\<exists>g w1 w'. any_load (hybrid_Strategy OA DefaultConfig) 256 demo = (Inr g, w1) \<and>
    rcu OA (hybrid_Strategy OA DefaultConfig) 256 (\<lambda>x. ret (opt_arc 32)) demo = (Inr (opt_arc 16), w') \<and> settled w' \<and>
    storage (sh w') = (storage (sh w1))(256 \<mapsto> 32) \<and>
    (\<forall>r. r \<noteq> 0 \<longrightarrow> total (view strong_rc (sh w')) r = total (view strong_rc (sh w1)) r - (if r = 16 then 1 else 0))"
proof (rule rcu_replaces_once[where upd = "\<lambda>w. w" and q = "\<lambda>w. 32"])
  have h: "settled demo \<and> holds_ptr True strong_rc 256 16 demo" using demo_facts by simp
  have "spurious_left w1 < gens_left w1 \<and> holds_ptr True strong_rc 256 16 w1 \<and> settled w1 \<and>
      live_ptr True strong_rc (heap (sh w1)) 32"
    if "any_load (hybrid_Strategy OA DefaultConfig) 256 demo = (Inr g, w1)" for g w1
  proof (rule option_hybrid.any_load_ok[OF h demo_gens(1), of DefaultConfig])
    fix g' w' assume r: "any_load (hybrid_Strategy OA DefaultConfig) 256 demo = (Inr g', w')"
      "progress 1 demo w'" "settled w' \<and> holds_ptr True strong_rc 256 16 w'"
      "view strong_rc (sh w') = acquired 16 (hp_debt (inner g')) (view strong_rc (sh demo))"
    then have "w' = w1" using that by simp
    moreover have "spurious_left w' < gens_left w'"
      using r(2) demo_many_gens demo_gens(2) by (simp add: progress_def)
    moreover have "live_ptr True strong_rc (heap (sh w')) 32"
      using arc.opt.acquired_live[OF demo_live(2) r(4)] .
    ultimately show ?thesis using r(3) by simp
  qed
  then show "\<forall>g w1. any_load (hybrid_Strategy OA DefaultConfig) 256 demo = (Inr g, w1) \<longrightarrow>
      ret (opt_arc 32) w1 = (Inr (opt_arc 32), w1) \<and> progress 0 w1 w1 \<and> holds_ptr True strong_rc 256 16 w1 \<and>
      spurious_left w1 < gens_left w1 \<and> live_ptr True strong_rc (heap (sh w1)) 32"
    by (simp add: progress_refl)
qed (rule demo_facts)+

text \<open>C22. \<open>into_inner\<close> of a storage pays the debts on its pointer, returns the pointer with the
  storage's reference, and the storage is gone.\<close>

theorem into_inner_hands_the_reference_over:
  assumes "settled w" and "holds_ptr True strong_rc a p w"
  shows "\<exists>w'. any_into_inner OA (hybrid_Strategy OA cfg) a w = (Inr (opt_arc p), w') \<and> settled w' \<and>
    view strong_rc (sh w') = take_out a (paid_off p (view strong_rc (sh w)))"
proof -
  have h: "settled w \<and> holds_ptr True strong_rc a p w" using assms by simp
  show ?thesis by (rule option_hybrid.any_into_inner_ok[OF h, of cfg]) auto
qed

theorem into_inner_hands_the_reference_over_witness:
  "\<exists>w'. any_into_inner OA (hybrid_Strategy OA DefaultConfig) 256 demo = (Inr (opt_arc 16), w') \<and> settled w' \<and>
    view strong_rc (sh w') = take_out 256 (paid_off 16 (view strong_rc (sh demo)))"
  by (rule into_inner_hands_the_reference_over) (rule demo_facts)+

text \<open>C23. Dropping a storage pays the debts on its pointer (outstanding guards survive it) and gives up
  the storage's reference.\<close>

theorem drop_pays_debts_first:
  assumes "settled w" and "holds_ptr True strong_rc a p w"
  shows "\<exists>w'. any_drop OA (hybrid_Strategy OA cfg) a w = (Inr (), w') \<and> settled w' \<and>
    view strong_rc (sh w') = take_out a (unref p (paid_off p (view strong_rc (sh w))))"
proof -
  have h: "settled w \<and> holds_ptr True strong_rc a p w" using assms by simp
  show ?thesis by (rule option_hybrid.any_drop_ok[OF h, of cfg]) auto
qed

theorem drop_pays_debts_first_witness:
  "\<exists>w'. any_drop OA (hybrid_Strategy OA DefaultConfig) 256 demo = (Inr (), w') \<and> settled w' \<and>
    view strong_rc (sh w') = take_out 256 (unref 16 (paid_off 16 (view strong_rc (sh demo))))"
  by (rule drop_pays_debts_first) (rule demo_facts)+

section \<open>Guards\<close>

text \<open>C24. Turning a guard into its value cancels an unpaid debt against a new reference and keeps the
  reference of a paid one.\<close>

theorem guard_into_inner_redeems:
  assumes "settled w" and "protects OA (sh w) p (inner g)" and "live_ptr True strong_rc (heap (sh w)) p" and "p \<noteq> NONE"
  shows "\<exists>w'. guard_into_inner (hybrid_Strategy OA cfg) g w = (Inr (opt_arc p), w') \<and> settled w' \<and>
    view strong_rc (sh w') = redeemed p (hp_debt (inner g)) (view strong_rc (sh w))"
  by (rule arc.opt.hybrid_into_inner_ok[OF assms])
    (auto simp: guard_into_inner_def hybrid_Strategy_def intro: progress_settled)

theorem guard_into_inner_redeems_witness:
  "\<exists>w'. guard_into_inner (hybrid_Strategy OA DefaultConfig) \<lparr>inner = hp_new (OA :: (arc option, nat) RefCnt) 16 (Some (FastDebt 4096 0))\<rparr>
      demo_indebted = (Inr (opt_arc 16), w') \<and> settled w' \<and>
    view strong_rc (sh w') = redeemed 16 (hp_debt (inner \<lparr>inner = hp_new (OA :: (arc option, nat) RefCnt) 16 (Some (FastDebt 4096 0))\<rparr>))
      (view strong_rc (sh demo_indebted))"
  by (rule guard_into_inner_redeems[OF demo_indebted_settled])
    (simp_all add: demo_facts[simplified] hp_new_def protects_def del: slot_get.simps)

text \<open>C25. Dropping a guard cancels its debt if it is still on record, and releases one reference
  otherwise; no count is needed in the first case.\<close>

theorem guard_drop_releases:
  assumes "settled w" and "protects OA (sh w) p (inner g)" and "p \<noteq> NONE"
    and "live_ptr True strong_rc (heap (sh w)) p \<or> (\<exists>d. hp_debt (inner g) = Some d \<and> slot_get (sh w) d = Some p)"
  shows "\<exists>w'. guard_drop (hybrid_Strategy OA cfg) g w = (Inr (), w') \<and> settled w' \<and>
    view strong_rc (sh w') = released p (hp_debt (inner g)) (view strong_rc (sh w))"
proof -
  have "live_ptr True strong_rc (heap (sh w)) p \<or>
      (\<exists>d. hp_debt (inner g) = Some d \<and> (d, p) \<in> owed (view strong_rc (sh w)))"
    using assms(3,4) by auto
  then show ?thesis
    by (rule arc.opt.hybrid_drop_ok[OF assms(1-3) disjI2[OF TrueI]])
      (auto simp: guard_drop_def hybrid_Strategy_def intro: progress_settled)
qed

theorem guard_drop_releases_witness:
  "\<exists>w'. guard_drop (hybrid_Strategy OA DefaultConfig) \<lparr>inner = hp_new (OA :: (arc option, nat) RefCnt) 16 (Some (FastDebt 4096 0))\<rparr>
      demo_indebted = (Inr (), w') \<and> settled w' \<and>
    view strong_rc (sh w') = released 16 (hp_debt (inner \<lparr>inner = hp_new (OA :: (arc option, nat) RefCnt) 16 (Some (FastDebt 4096 0))\<rparr>))
      (view strong_rc (sh demo_indebted))"
  by (rule guard_drop_releases[OF demo_indebted_settled])
    (simp_all add: demo_facts[simplified] hp_new_def protects_def del: slot_get.simps)

section \<open>Strategies\<close>

text \<open>C26. The hybrid strategy and the \<open>RwLock\<close> strategy agree on \<open>load_full\<close> and on \<open>swap\<close>: from
  the same memory they return the same pointers and leave the same books, up to the debts that only
  the hybrid strategy has to pay.\<close>

theorem strategies_agree:
  assumes "unlocked w" and "holds_ptr True strong_rc a p w" and "0 < gens_left w"
  shows "\<exists>w1 w2 w3 w4.
    load_full (hybrid_Strategy OA cfg) a w = (Inr (opt_arc p), w1) \<and>
    load_full (rw_lock_Strategy OA) a w = (Inr (opt_arc p), w2) \<and>
    view strong_rc (sh w1) = view strong_rc (sh w2) \<and>
    any_swap OA (hybrid_Strategy OA cfg) a (opt_arc q) w = (Inr (opt_arc p), w3) \<and>
    any_swap OA (rw_lock_Strategy OA) a (opt_arc q) w = (Inr (opt_arc p), w4) \<and>
    view strong_rc (sh w3) = paid_off p (view strong_rc (sh w4))"
proof -
  have h: "settled w \<and> holds_ptr True strong_rc a p w" and u: "unlocked w \<and> holds_ptr True strong_rc a p w"
    using assms by (auto simp: unlocked_def)
  obtain w1 where 1: "load_full (hybrid_Strategy OA cfg) a w = (Inr (opt_arc p), w1)"
      "view strong_rc (sh w1) = bump p 1 (view strong_rc (sh w))"
    by (rule option_hybrid.load_full_ok[OF h assms(3), of cfg]) auto
  obtain w2 where 2: "load_full (rw_lock_Strategy OA) a w = (Inr (opt_arc p), w2)"
      "view strong_rc (sh w2) = bump p 1 (view strong_rc (sh w))"
    by (rule option_rw.load_full_ok[OF u assms(3)]) auto
  obtain w3 where 3: "any_swap OA (hybrid_Strategy OA cfg) a (opt_arc q) w = (Inr (opt_arc p), w3)"
      "view strong_rc (sh w3) = paid_off p (put a q (view strong_rc (sh w)))"
    by (rule option_hybrid.any_swap_ok[OF h, of cfg "opt_arc q"]) auto
  obtain w4 where 4: "any_swap OA (rw_lock_Strategy OA) a (opt_arc q) w = (Inr (opt_arc p), w4)"
      "view strong_rc (sh w4) = put a q (view strong_rc (sh w))"
    by (rule option_rw.any_swap_ok[OF u, of "opt_arc q"]) auto
  show ?thesis using 1 2 3 4 by auto
qed

theorem strategies_agree_witness:
  "\<exists>w1 w2 w3 w4.
    load_full (hybrid_Strategy OA DefaultConfig) 256 demo = (Inr (opt_arc 16), w1) \<and>
    load_full (rw_lock_Strategy OA) 256 demo = (Inr (opt_arc 16), w2) \<and>
    view strong_rc (sh w1) = view strong_rc (sh w2) \<and>
    any_swap OA (hybrid_Strategy OA DefaultConfig) 256 (opt_arc 32) demo = (Inr (opt_arc 16), w3) \<and>
    any_swap OA (rw_lock_Strategy OA) 256 (opt_arc 32) demo = (Inr (opt_arc 16), w4) \<and>
    view strong_rc (sh w3) = paid_off 16 (view strong_rc (sh w4))"
  by (rule strategies_agree) (rule demo_unlocked demo_facts)+

text \<open>C27. \<open>Debt::pay_all\<close> walks the whole list: every slot that owes the pointer is cleared, every other
  slot is left as it is, and the count grows by exactly the number of slots cleared; the reference the
  writer pre-pays is returned.\<close>

theorem pay_all_pays_each_debt_once:
  assumes "settled w" and "node (loc w) \<noteq> None" and "live_ptr True strong_rc (heap (sh w)) p"
  shows "pay_all OA p a replacement w = (Inr (), w\<lparr>sh := (clear_all p (sh w))\<lparr>heap :=
    (unless_null strong_up p ^^ debts (sh w) p) (heap (sh w))\<rparr>\<rparr>)"
proof -
  obtain ns where "chained (sh w) ns" using assms(1) by (auto simp: settled_def)
  then have "arc.opt.writer_ok p ns w" "tls_alive w"
    using assms by (auto simp: settled_def arc.opt.writer_ok_def)
  then show ?thesis by (rule arc.opt.pay_all_solo)
qed

theorem pay_all_pays_each_debt_once_witness:
  "pay_all OA 16 256 (ret (opt_arc 16)) demo_held = (Inr (), demo_held\<lparr>sh := (clear_all 16 (sh demo_held))\<lparr>heap :=
    (unless_null strong_up 16 ^^ debts (sh demo_held) 16) (heap (sh demo_held))\<rparr>\<rparr>)"
  by (rule pay_all_pays_each_debt_once) (simp_all add: demo_held_settled demo_facts[simplified])

section \<open>Debt slots\<close>

text \<open>C28. The fast slots: a claim takes the first free slot in round-robin order, starting where the
  last claim ended, and changes nothing but that slot and the starting point; it fails exactly if all
  eight slots are taken.\<close>

theorem fast_slots_round_robin:
  assumes "solo w" and "nodes (sh w) n = Some nd" and "length (fast nd) = DEBT_SLOT_CNT"
  shows "if NONE \<in> set (fast nd)
    then \<exists>i < DEBT_SLOT_CNT. let j = (i + unat (offset (loc w))) mod DEBT_SLOT_CNT in
      fast nd ! j = NONE \<and> (\<forall>k < i. fast nd ! ((k + unat (offset (loc w))) mod DEBT_SLOT_CNT) \<noteq> NONE) \<and>
      fast_get_debt n ptr w = (Inr (Some (FastDebt n j)),
        w\<lparr>sh := slot_set (FastDebt n j) ptr (sh w), loc := (loc w)\<lparr>offset := of_nat j + 1\<rparr>\<rparr>)
    else fast_get_debt n ptr w = (Inr None, w)"
proof (cases "fast_pick (fast nd) (offset (loc w))")
  case None
  then show ?thesis using fast_get_debt_solo[OF assms, of ptr] fast_pick_None[OF assms(3)] by simp
next
  case (Some j)
  have free: "NONE \<in> set (fast nd)" using Some fast_pick_None[OF assms(3), of "offset (loc w)"] by simp
  obtain i where i: "i < DEBT_SLOT_CNT" "fast nd ! (rotated (unat (offset (loc w))) ! i) = NONE"
      "j = rotated (unat (offset (loc w))) ! i"
      "\<forall>k < i. fast nd ! (rotated (unat (offset (loc w))) ! k) \<noteq> NONE"
    using Some by (auto simp: fast_pick_def find_Some_iff rotated_def)
  have nth: "rotated (unat (offset (loc w))) ! k = (k + unat (offset (loc w))) mod DEBT_SLOT_CNT" if "k < DEBT_SLOT_CNT" for k
    using that by (simp add: rotated_def)
  have "fast_get_debt n ptr w = (Inr (Some (FastDebt n j)),
        w\<lparr>sh := slot_set (FastDebt n j) ptr (sh w), loc := (loc w)\<lparr>offset := of_nat j + 1\<rparr>\<rparr>)"
    using fast_get_debt_solo[OF assms, of ptr] Some by simp
  then show ?thesis using free i nth by (simp add: Let_def) (metis order.strict_trans)
qed

theorem fast_slots_round_robin_witness:
  "if NONE \<in> set (fast (fresh_node 8192 0))
    then \<exists>i < DEBT_SLOT_CNT. let j = (i + unat (offset (loc demo_held))) mod DEBT_SLOT_CNT in
      fast (fresh_node 8192 0) ! j = NONE \<and>
      (\<forall>k < i. fast (fresh_node 8192 0) ! ((k + unat (offset (loc demo_held))) mod DEBT_SLOT_CNT) \<noteq> NONE) \<and>
      fast_get_debt 4096 16 demo_held = (Inr (Some (FastDebt 4096 j)),
        demo_held\<lparr>sh := slot_set (FastDebt 4096 j) 16 (sh demo_held), loc := (loc demo_held)\<lparr>offset := of_nat j + 1\<rparr>\<rparr>)
    else fast_get_debt 4096 16 demo_held = (Inr None, demo_held)"
  by (rule fast_slots_round_robin) (simp_all add: fast_default_def)

text \<open>C29. Helping: a writer that meets a reader half way through a load from the writer's storage leaves
  its value in an envelope; the reader's confirmation returns exactly that value, its control word is
  idle again, and the two nodes have exchanged their envelopes.\<close>

theorem helping_hands_over_the_value:
  assumes "solo w" and "nodes (sh w) self = Some ns" and "nodes (sh w) who = Some nw" and "self \<noteq> who"
    and "control (helping ns) = IDLE" and "control (helping nw) = g OR GEN_TAG" and "aligned4 g"
    and "active_addr (helping nw) = a" and "slot (helping nw) = NONE" and "0 < fuel w"
    and "replacement w = (Inr x, w\<lparr>sh := (sh w)\<lparr>heap := h\<rparr>\<rparr>)"
    and "aligned4 (space_offer (helping ns))" and "envelopes (sh w) (space_offer (helping ns)) \<noteq> None"
  shows "\<exists>w' ns' nw'.
    bnd (helping_help T self who a replacement) (\<lambda>_. helping_confirm who (g OR GEN_TAG) cand) w =
      (Inr (Inl (as_ptr T x)), w') \<and>
    nodes (sh w') self = Some ns' \<and> nodes (sh w') who = Some nw' \<and>
    space_offer (helping ns') = space_offer (helping nw) \<and> space_offer (helping nw') = space_offer (helping ns) \<and>
    control (helping nw') = IDLE \<and> slot (helping nw') = cand \<and> heap (sh w') = h"
  using help_then_confirm[where repl = replacement and T = T and cand = cand, OF assms] assms(4) by simp

theorem helping_hands_over_the_value_witness:
  "\<exists>w' ns' nw'.
    bnd (helping_help OA 4096 5120 256 (ret (opt_arc 16))) (\<lambda>_. helping_confirm 5120 (4 OR GEN_TAG) 16) demo_pair =
      (Inr (Inl (as_ptr (OA :: (arc option, nat) RefCnt) (opt_arc 16))), w') \<and>
    nodes (sh w') 4096 = Some ns' \<and> nodes (sh w') 5120 = Some nw' \<and>
    space_offer (helping ns') = space_offer (helping demo_reader) \<and>
    space_offer (helping nw') = space_offer (helping (fresh_node 8192 5120)) \<and>
    control (helping nw') = IDLE \<and> slot (helping nw') = 16 \<and> heap (sh w') = heap demo_mem"
  by (rule helping_hands_over_the_value)
    (simp_all add: aligned4_def TAG_MASK_def GEN_TAG_def demo_pair_def solo_def)

text \<open>A reader that recorded a debt on \<open>p\<close> and is then overtaken, whatever the other threads did:
  if the storage still has \<open>p\<close> the guard carries the debt; if it changed and the debt is still
  there, the debt is withdrawn and the attempt fails; if it changed and somebody paid the debt, the
  guard owns the reference paid for it.\<close>

theorem attempt_survives_interference:
  assumes "sched w = g # g' # gs" and "storage (g (sh w)) a = Some q" and "slot_get (g' (g (sh w))) d = Some v"
  shows "confirm_attempt T a p d w =
    (if q = p then (Inr (Some (hp_new T p (Some d))), w\<lparr>sh := g (sh w), sched := g' # gs\<rparr>)
     else if v = p then (Inr None, w\<lparr>sh := slot_set d NONE (g' (g (sh w))), sched := gs\<rparr>)
     else (Inr (Some (hp_new T p None)), w\<lparr>sh := g' (g (sh w)), sched := gs\<rparr>)) \<and>
    attempt T a = bnd (storage_load a) (\<lambda>ptr. bnd (new_fast ptr) (\<lambda>slot_opt.
      case slot_opt of None \<Rightarrow> ret None | Some d \<Rightarrow> confirm_attempt T a ptr d))"
  using confirm_same[OF assms(1), of a p T d] confirm_changed[OF assms(1,2) _ assms(3), of p T] assms(2)
    attempt_unfold[of T a] by auto

theorem attempt_survives_interference_witness:
  "confirm_attempt OA 256 16 (FastDebt 4096 0) (demo_held\<lparr>sched := [(\<lambda>s. s\<lparr>storage := [256 \<mapsto> 32]\<rparr>), (\<lambda>s. s)]\<rparr>) =
    (if (32 :: usize) = 16 then (Inr (Some (hp_new (OA :: (arc option, nat) RefCnt) 16 (Some (FastDebt 4096 0)))),
       (demo_held\<lparr>sched := [(\<lambda>s. s\<lparr>storage := [256 \<mapsto> 32]\<rparr>), (\<lambda>s. s)]\<rparr>)\<lparr>sh := (sh demo_held)\<lparr>storage := [256 \<mapsto> 32]\<rparr>, sched := [(\<lambda>s. s)]\<rparr>)
     else if NONE = 16 then (Inr None,
       (demo_held\<lparr>sched := [(\<lambda>s. s\<lparr>storage := [256 \<mapsto> 32]\<rparr>), (\<lambda>s. s)]\<rparr>)\<lparr>sh := slot_set (FastDebt 4096 0) NONE ((sh demo_held)\<lparr>storage := [256 \<mapsto> 32]\<rparr>), sched := []\<rparr>)
     else (Inr (Some (hp_new (OA :: (arc option, nat) RefCnt) 16 None)),
       (demo_held\<lparr>sched := [(\<lambda>s. s\<lparr>storage := [256 \<mapsto> 32]\<rparr>), (\<lambda>s. s)]\<rparr>)\<lparr>sh := (sh demo_held)\<lparr>storage := [256 \<mapsto> 32]\<rparr>, sched := []\<rparr>))"
  using attempt_survives_interference[of "demo_held\<lparr>sched := [(\<lambda>s. s\<lparr>storage := [256 \<mapsto> 32]\<rparr>), (\<lambda>s. s)]\<rparr>"
      "\<lambda>s. s\<lparr>storage := [256 \<mapsto> 32]\<rparr>" "\<lambda>s. s" "[]" 256 32 "FastDebt 4096 0" NONE OA 16]
  by (simp add: fast_default_def DEBT_SLOT_CNT_def)

text \<open>A reader that was helped cancels the debt it wrote for its own candidate and returns the
  replacement with the reference that came with it; its slot and control word are free again and the
  envelope it received becomes its next offer.\<close>

theorem helped_reader_takes_the_replacement:
  fixes w :: "'v world"
  assumes "solo w" and "node (loc w) = Some n" and "nodes (sh w) n = Some nd" and "in_use nd = NODE_USED"
    and "slot (helping nd) = NONE" and "control (helping nd) = e OR REPLACEMENT_TAG" and "aligned4 e"
    and "envelopes (sh w) e = Some r" and "aligned4 g"
  shows "finish_fallback OA (g OR GEN_TAG) p w = (Inr (hp_from_inner (opt_arc r)),
     w\<lparr>sh := (sh w)\<lparr>nodes := (nodes (sh w))(n \<mapsto>
         nd\<lparr>helping := (helping nd)\<lparr>control := IDLE, space_offer := e\<rparr>\<rparr>)\<rparr>\<rparr>) \<and>
    fallback (OA :: (arc option, 'v) RefCnt) a = bnd (new_helping a) (\<lambda>gen. bnd (storage_load a) (finish_fallback OA gen))"
  using arc.opt.fallback_helped[OF assms, of p] fallback_unfold[of OA a] by (simp add: hp_new_def hp_from_inner_def)

theorem helped_reader_takes_the_replacement_witness:
  "fst (finish_fallback OA (4 OR GEN_TAG) 16 demo_helped) = Inr (hp_from_inner (opt_arc 32))"
proof -
  let ?nd = "demo_reader\<lparr>helping := (helping demo_reader)\<lparr>control := 8192 OR REPLACEMENT_TAG\<rparr>\<rparr>"
  have "solo demo_helped" "node (loc demo_helped) = Some 5120" "nodes (sh demo_helped) 5120 = Some ?nd"
      "in_use ?nd = NODE_USED" "slot (helping ?nd) = NONE" "envelopes (sh demo_helped) 8192 = Some 32"
    by (simp_all add: demo_helped_def local_default_def demo_reader_def)
  moreover have "control (helping ?nd) = 8192 OR REPLACEMENT_TAG" "aligned4 8192" "aligned4 4"
    by (simp_all add: aligned4_def TAG_MASK_def)
  ultimately show ?thesis
    using helped_reader_takes_the_replacement[of demo_helped 5120 ?nd 8192 32 4 16 256] by simp
qed

text \<open>C30. Announcements do not repeat: in up to \<open>2 ^ 62\<close> transactions in a row, from any value of the counter and across
  its wrap, the control words a thread announces are all different, each carries the tag of a generation, the flag
  that the counter wrapped comes with exactly the announcement of generation zero, and each transaction recognises
  its own word. A helper that still has an older word can therefore not mistake it for the current one.\<close>

theorem announcements_do_not_repeat:
  assumes "solo w" and "nodes (sh w) n = Some nd" and "control (helping nd) = IDLE" and "slot (helping nd) = NONE"
    and "aligned4 (generation (loc w))" and "k \<le> 2 ^ 62"
  shows "\<exists>rs w'. transactions k n a p w = (Inr rs, w') \<and> length rs = k \<and> distinct (map fst rs) \<and>
    list_all (\<lambda>(c, wrapped, confirmed). c AND TAG_MASK = GEN_TAG \<and> (wrapped \<longleftrightarrow> c = GEN_TAG) \<and> confirmed) rs \<and>
    generation (loc w') = generation (loc w) + of_nat (4 * k)"
proof -
  let ?g = "generation (loc w) + 4"
  let ?rs = "map (\<lambda>i. announcement (?g + of_nat (4 * i))) [0..<k]"
  obtain w' where w': "transactions k n a p w = (Inr ?rs, w')" "generation (loc w') = generation (loc w) + of_nat (4 * k)"
    using transactions_solo[OF assms(1-5)] by blast
  have al: "aligned4 (?g + of_nat (4 * i))" for i by (rule aligned4_add[OF aligned4_add4[OF assms(5)]])
  have "distinct (map fst ?rs)" by (rule announcements_distinct[OF aligned4_add4[OF assms(5)] assms(6)])
  moreover have "list_all (\<lambda>(c, wrapped, confirmed). c AND TAG_MASK = GEN_TAG \<and> (wrapped \<longleftrightarrow> c = GEN_TAG) \<and> confirmed) ?rs"
    using announcement_tagged[OF al] by (auto simp: list_all_iff simp del: of_nat_mult)
  ultimately show ?thesis using w' by (intro exI[of _ ?rs] exI[of _ w']) simp
qed

theorem announcements_do_not_repeat_witness:
  "\<exists>rs w'. transactions 1000 4096 256 16 demo_held = (Inr rs, w') \<and> length rs = 1000 \<and> distinct (map fst rs) \<and>
    list_all (\<lambda>(c, wrapped, confirmed). c AND TAG_MASK = GEN_TAG \<and> (wrapped \<longleftrightarrow> c = GEN_TAG) \<and> confirmed) rs \<and>
    generation (loc w') = generation (loc demo_held) + of_nat (4 * 1000)"
  by (rule announcements_do_not_repeat[where nd = "fresh_node 8192 0"])
    (simp_all add: fresh_node_def node_default_def helping_default_def helping_init_def)

section \<open>Nodes\<close>

text \<open>C31. \<open>Node::get\<close> returns a node no thread holds and marks it used; the chain is either unchanged or
  has that node in front; no debt, count or storage changes.\<close>

theorem node_get_claims_a_free_node:
  assumes "solo w" and "chained (sh w) ns" and "box_available (sh w)" and "quiet (sh w)" and "spurious_left w < fuel w"
  shows "\<exists>n w'. node_get w = (Inr n, w') \<and> n \<notin> used_nodes (sh w) \<and>
    insert n (used_nodes (sh w)) \<subseteq> used_nodes (sh w') \<and>
    (chained (sh w') ns \<or> chained (sh w') (n # ns)) \<and>
    heap (sh w') = heap (sh w) \<and> storage (sh w') = storage (sh w) \<and> owed_of (sh w') = owed_of (sh w)"
proof -
  let ?n = "fst (get_spec ns (sh w))" and ?s = "snd (get_spec ns (sh w))"
  obtain ws where get: "node_get w = (Inr ?n, w\<lparr>sh := ?s, weak_cas := ws\<rparr>)"
    using node_get_solo[OF assms(1-3,5)] by blast
  have ok: "chained ?s ns \<or> chained ?s (?n # ns)" "\<exists>nd. nodes ?s ?n = Some nd \<and> in_use nd = NODE_USED"
      "heap ?s = heap (sh w)" "storage ?s = storage (sh w)"
    using get_spec_ok[OF assms(2-4)] by auto
  have "insert ?n (used_nodes (sh w)) \<subseteq> used_nodes ?s"
    using ok(2) get_spec_used(2)[OF assms(2,3)] by (auto simp: used_nodes_def)
  then show ?thesis
    using get ok get_spec_used(1)[OF assms(2,3)] owed_of_get_spec[OF assms(2,3)] by auto
qed

theorem node_get_claims_a_free_node_witness:
  "\<exists>n w'. node_get demo = (Inr n, w') \<and> n \<notin> used_nodes (sh demo) \<and>
    insert n (used_nodes (sh demo)) \<subseteq> used_nodes (sh w') \<and>
    (chained (sh w') [] \<or> chained (sh w') [n]) \<and>
    heap (sh w') = heap (sh demo) \<and> storage (sh w') = storage (sh demo) \<and> owed_of (sh w') = owed_of (sh demo)"
  by (rule node_get_claims_a_free_node) (simp_all add: solo_def demo_box demo_chained demo_quiet demo_gens)

text \<open>C32. Pushing a node survives contention: while other threads put nodes of their own in front of the list, before
  any access of this thread, and the processor injects spurious failures, the loop ends after at most one round for each
  of these plus two, from whatever head it had read. The node then is at the front exactly once, the nodes pushed
  meanwhile and the old list follow, and apart from its link the node is as it was.\<close>

theorem push_survives_contention:
  assumes "list_all (prepends n) (sched w)" and "listed (sh w) ns" and "n \<notin> set ns" and "n \<noteq> 0"
    and "nodes (sh w) n = Some nd" and "length (sched w) + spurious_left w + 1 < k"
  shows "\<exists>w' ms p. push_loop k n head w = (Inr n, w') \<and> listed (sh w') (n # ms @ ns) \<and>
    nodes (sh w') n = Some (nd\<lparr>next_node := p\<rparr>)"
  by (rule push_loop_contended) (use assms in \<open>simp_all add: pushing_def push_rank_def\<close>)

theorem push_survives_contention_witness:
  "\<exists>w' ms p. push_loop 6 5120 4096 demo_pushing = (Inr 5120, w') \<and> listed (sh w') (5120 # ms @ [4096]) \<and>
    nodes (sh w') 5120 = Some ((fresh_node 20480 0)\<lparr>next_node := p\<rparr>)"
  by (rule push_survives_contention) (simp_all add: demo_pushing_facts)

text \<open>C33. A node whose thread gave it up is handed to the next thread only when no writer is on it.\<close>

theorem cooldown_waits_for_writers:
  assumes "solo w" and "nodes (sh w) n = Some nd" and "in_use nd = NODE_USED"
  shows "bnd (start_cooldown n) (\<lambda>_. try_claim n) w =
    (if active_writers nd = 0 then (Inr (Some n), w)
     else (Inr None, w\<lparr>sh := (sh w)\<lparr>nodes := (nodes (sh w))(n \<mapsto> nd\<lparr>in_use := NODE_COOLDOWN\<rparr>)\<rparr>\<rparr>))"
proof -
  let ?nd = "nd\<lparr>in_use := NODE_COOLDOWN\<rparr>"
  let ?w = "w\<lparr>sh := (sh w)\<lparr>nodes := (nodes (sh w))(n \<mapsto> ?nd)\<rparr>\<rparr>"
  have "nd\<lparr>in_use := NODE_USED\<rparr> = nd" using assms(3) by (cases nd) simp
  then have restored: "(nodes (sh w))(n \<mapsto> nd\<lparr>in_use := NODE_USED\<rparr>) = nodes (sh w)"
    using assms(2) by (simp add: fun_upd_idem)
  have "try_claim n ?w = (if claimable ?nd
      then (Inr (Some n), ?w\<lparr>sh := (sh ?w)\<lparr>nodes := (nodes (sh ?w))(n \<mapsto> ?nd\<lparr>in_use := NODE_USED\<rparr>)\<rparr>\<rparr>) else (Inr None, ?w))"
    using assms(1) by (intro try_claim_solo) simp_all
  then show ?thesis
    using start_cooldown_solo[OF assms] restored by (simp add: bnd_apply claimable_def del: fun_upd_apply)
qed

theorem cooldown_waits_for_writers_witness:
  "bnd (start_cooldown 4096) (\<lambda>_. try_claim 4096) demo_held =
    (if active_writers (fresh_node 8192 0) = 0 then (Inr (Some 4096), demo_held)
     else (Inr None, demo_held\<lparr>sh := (sh demo_held)\<lparr>nodes := (nodes (sh demo_held))(4096 \<mapsto>
       (fresh_node 8192 0)\<lparr>in_use := NODE_COOLDOWN\<rparr>)\<rparr>\<rparr>))"
  by (rule cooldown_waits_for_writers) simp_all

text \<open>C34. A claim can overtake a writer: when the thread that found the node cooled down is delayed
  before its compare-exchange, while the node is claimed, visited by a writer and given up again, the
  exchange still succeeds and the thread owns a node with a writer on it.\<close>

theorem claim_can_overtake_a_writer:
  assumes "sched w = [id, id, meanwhile (reused n)]" and "nodes (sh w) n = Some nd"
    and "in_use nd = NODE_COOLDOWN" and "active_writers nd = 0"
  shows "fst (try_claim n w) = Inr (Some n) \<and>
    map_option active_writers (nodes (sh (snd (try_claim n w))) n) = Some 1"
  using claim_overtakes_writer[OF assms] by simp

theorem claim_can_overtake_a_writer_witness:
  "fst (try_claim 4096 demo_cooling) = Inr (Some 4096) \<and>
    map_option active_writers (nodes (sh (snd (try_claim 4096 demo_cooling))) 4096) = Some 1"
  by (rule claim_can_overtake_a_writer[where nd = "(fresh_node 8192 0)\<lparr>in_use := NODE_COOLDOWN\<rparr>"])
    (simp_all add: demo_cooling_def fresh_node_def node_default_def)

text \<open>C35. When the generation counter of a thread wraps around, a load that has to use the helping slot
  panics: announcing the load gives the node up, and the confirmation expects it to be there.\<close>

theorem wrapped_generation_panics:
  assumes "solo w" and "node (loc w) = Some n" and "nodes (sh w) n = Some nd" and "in_use nd = NODE_USED"
    and "control (helping nd) = IDLE" and "generation (loc w) + 4 = 0" and "storage (sh w) a = Some p"
  shows "fst (fallback T a w) = Inl ExpectNone"
  using assms by (rule fallback_wrapped)

theorem wrapped_generation_panics_witness:
  "fst (fallback OA 256 (demo_held\<lparr>loc := (loc demo_held)\<lparr>generation := - 4\<rparr>\<rparr>)) = Inl ExpectNone"
  by (rule wrapped_generation_panics[where n = 4096 and nd = "fresh_node 8192 0" and p = 16]) (simp_all add: fresh_node_def node_default_def helping_default_def helping_init_def)

section \<open>Handles built on top\<close>

text \<open>C36. A cache whose copy is still current answers from its copy and changes nothing at all: no
  count, no debt, no other memory.\<close>

theorem cache_hit_is_free:
  assumes "settled w" and "holds_ptr True strong_rc a p w"
  shows "cache_load OA (hybrid_Strategy OA cfg) \<lparr>arc_swap_at = a, cached = opt_arc p\<rparr> w =
    (Inr (opt_arc p, \<lparr>arc_swap_at = a, cached = opt_arc p\<rparr>), w)"
  using option_hybrid.cache_load_hit[of w a p _ cfg] assms by simp

theorem cache_hit_is_free_witness:
  "cache_load OA (hybrid_Strategy OA DefaultConfig) \<lparr>arc_swap_at = 256, cached = opt_arc 16\<rparr> demo =
    (Inr (opt_arc 16, \<lparr>arc_swap_at = 256, cached = opt_arc 16\<rparr>), demo)"
  by (rule cache_hit_is_free) (simp_all add: demo_facts)

text \<open>C37. A cache whose copy is outdated returns the current pointer and keeps it; it gains one reference
  to it and gives up the one to its old copy.\<close>

theorem cache_miss_exchanges_references:
  assumes "settled w" and "holds_ptr True strong_rc a p w" and "0 < gens_left w"
    and "r \<noteq> p" and "live_ptr True strong_rc (heap (sh w)) r"
  shows "\<exists>w'. cache_load OA (hybrid_Strategy OA cfg) \<lparr>arc_swap_at = a, cached = opt_arc r\<rparr> w =
      (Inr (opt_arc p, \<lparr>arc_swap_at = a, cached = opt_arc p\<rparr>), w') \<and>
    view strong_rc (sh w') = unref r (bump p 1 (view strong_rc (sh w)))"
proof -
  obtain w' where "cache_load OA (hybrid_Strategy OA cfg) \<lparr>arc_swap_at = a, cached = opt_arc r\<rparr> w =
      (Inr (opt_arc p, \<lparr>arc_swap_at = a, cached = opt_arc p\<rparr>), w')"
    "view strong_rc (sh w') = unref r (bump p 1 (view strong_rc (sh w)))"
    by (rule option_hybrid.cache_load_miss[OF conjI[OF assms(1,2)] assms(3) refl assms(4,5), where cfg = cfg]) simp
  then show ?thesis by blast
qed

theorem cache_miss_exchanges_references_witness:
  "\<exists>w'. cache_load OA (hybrid_Strategy OA DefaultConfig) \<lparr>arc_swap_at = 256, cached = opt_arc 32\<rparr> demo =
      (Inr (opt_arc 16, \<lparr>arc_swap_at = 256, cached = opt_arc 16\<rparr>), w') \<and>
    view strong_rc (sh w') = unref 32 (bump 16 1 (view strong_rc (sh demo)))"
  by (rule cache_miss_exchanges_references) (use demo_facts in simp_all)

text \<open>C38. Access through \<open>map\<close>: loading, dereferencing and dropping the guard shows the projection of the
  value the storage holds at that moment, and the drop gives back what the load took: all counts, debts, values and
  storages are as before, so also the content.\<close>

theorem mapped_access_shows_the_projection:
  assumes "ready_at a w"
  shows "\<exists>w'. observe (projected (any_map (hybrid_Strategy arc_RefCnt cfg) a (\<lambda>v. ret (f v)))) w =
      (Inr (f (content_at a w)), w') \<and> content_at a w' = content_at a w \<and>
      view strong_rc (sh w') = view strong_rc (sh w)"
  using observe_map[OF assms] .

theorem mapped_access_shows_the_projection_witness:
  "\<exists>w'. observe (projected (any_map (hybrid_Strategy arc_RefCnt DefaultConfig) 256 (\<lambda>v. ret (v + 1)))) demo =
    (Inr (content_at 256 demo + 1), w') \<and> content_at 256 w' = content_at 256 demo \<and>
    view strong_rc (sh w') = view strong_rc (sh demo)"
  by (rule mapped_access_shows_the_projection) (use demo_facts in \<open>auto simp: ready_at_def\<close>)

text \<open>Type erasure is transparent: an access behind \<open>dyn DynAccess\<close> or \<open>AccessConvert\<close>, and a projection
  of it, shows what the access itself shows.\<close>

theorem erased_access_is_transparent:
  "observe (dyn_access A) = observe A \<and> observe (convert_access (AccessConvert A)) = observe A \<and>
   observe (projected (map_new (dyn_access A) (\<lambda>x. ret (f x)))) = observe (projected (map_new A (\<lambda>x. ret (f x))))"
  by (simp only: observe_dyn observe_convert observe_projected simp_thms)

text \<open>C39. Serializing a storage hands the serializer the value it holds and leaves every count, debt and
  storage as it was, whether the serializer succeeds or not.\<close>

theorem serialize_leaves_no_trace:
  assumes "settled w" and "holds_ptr True strong_rc a p w" and "0 < gens_left w"
    and "\<And>w1. vals (view strong_rc (sh w1)) = vals (view strong_rc (sh w)) \<Longrightarrow> ser (opt_arc p) w1 = (Inr r, w1)"
  shows "\<exists>w'. serialize (hybrid_Strategy OA cfg) ser a w = (Inr r, w') \<and>
    view strong_rc (sh w') = view strong_rc (sh w)"
proof -
  obtain w' where "serialize (hybrid_Strategy OA cfg) ser a w = (Inr r, w')"
    "view strong_rc (sh w') = view strong_rc (sh w)"
    by (rule option_hybrid.serialize_ok[where cfg = cfg and ser = ser, OF conjI[OF assms(1,2)] assms(3)])
      (simp_all add: assms(4))
  then show ?thesis by blast
qed

theorem serialize_leaves_no_trace_witness:
  "\<exists>w'. serialize (hybrid_Strategy OA DefaultConfig) (\<lambda>x. ret (Inr (as_ptr (OA :: (arc option, nat) RefCnt) x))) 256 demo =
     (Inr (Inr 16 :: nat + usize), w') \<and> view strong_rc (sh w') = view strong_rc (sh demo)"
  by (rule serialize_leaves_no_trace) (use demo_facts in simp_all)

section \<open>Pointers\<close>

text \<open>C40. Raw pointers round-trip: for every supported type the pointer to the allocation at \<open>p\<close> has the raw form \<open>p\<close>,
  whether it is read (\<open>as_ptr\<close>) or given away (\<open>into_ptr\<close>), and \<open>from_ptr\<close> makes the same pointer of it again; \<open>inc\<close>
  raises the counter the type goes by, strong or weak, by one and \<open>dec\<close> on the raw form takes it back exactly. The empty
  values, \<open>None\<close> and \<open>Weak::new()\<close>, do all this through null, where nothing is counted.\<close>

theorem raw_pointers_round_trip:
  assumes "0 < strong_rc h p" and "0 < weak_rc h p"
  shows "counted_form arc_RefCnt (Arc p) p strong_up h \<and> counted_form rc_RefCnt (Rc p) p strong_up h \<and>
    counted_form pin_arc_RefCnt (Pin (Arc p)) p strong_up h \<and> counted_form pin_rc_RefCnt (Pin (Rc p)) p strong_up h \<and>
    counted_form (option_RefCnt arc_RefCnt) (Some (Arc p)) p (unless_null strong_up) h \<and> counted_form (option_RefCnt arc_RefCnt) None 0 (unless_null strong_up) h \<and>
    counted_form (option_RefCnt rc_RefCnt) (Some (Rc p)) p (unless_null strong_up) h \<and> counted_form (option_RefCnt rc_RefCnt) None 0 (unless_null strong_up) h \<and>
    counted_form (option_RefCnt pin_arc_RefCnt) (Some (Pin (Arc p))) p (unless_null strong_up) h \<and> counted_form (option_RefCnt pin_arc_RefCnt) None 0 (unless_null strong_up) h \<and>
    counted_form (option_RefCnt pin_rc_RefCnt) (Some (Pin (Rc p))) p (unless_null strong_up) h \<and> counted_form (option_RefCnt pin_rc_RefCnt) None 0 (unless_null strong_up) h \<and>
    counted_form weak_RefCnt (WeakTo p) p (unless_null weak_up) h \<and> counted_form weak_RefCnt WeakNew 0 (unless_null weak_up) h \<and>
    counted_form rc_weak_RefCnt (RcWeakTo p) p (unless_null weak_up) h \<and> counted_form rc_weak_RefCnt RcWeakNew 0 (unless_null weak_up) h"
proof -
  have p: "p \<noteq> 0" using assms(1) by (auto simp: strong_rc_def)
  have l: "live_ptr n strong_rc h p" "live_ptr n weak_rc h p" "live_ptr True strong_rc h 0" "live_ptr True weak_rc h 0" for n
    using assms p by (simp_all add: live_ptr_def)
  show ?thesis
    using p l arc.raw_counted[of "Arc p" h] rc.raw_counted[of "Rc p" h]
      pin_arc.raw_counted[of "Pin (Arc p)" h] pin_rc.raw_counted[of "Pin (Rc p)" h]
      arc.opt.raw_counted[of "Some (Arc p)" h] arc.opt.raw_counted[of None h]
      rc.opt.raw_counted[of "Some (Rc p)" h] rc.opt.raw_counted[of None h]
      pin_arc.opt.raw_counted[of "Some (Pin (Arc p))" h] pin_arc.opt.raw_counted[of None h]
      pin_rc.opt.raw_counted[of "Some (Pin (Rc p))" h] pin_rc.opt.raw_counted[of None h]
      weak.raw_counted[of "WeakTo p" h] weak.raw_counted[of WeakNew h]
      rc_weak.raw_counted[of "RcWeakTo p" h] rc_weak.raw_counted[of RcWeakNew h]
    by (simp add: raw_values)
qed

theorem raw_pointers_round_trip_witness:
  "counted_form arc_RefCnt (Arc 16) 16 strong_up demo_counted \<and> counted_form rc_RefCnt (Rc 16) 16 strong_up demo_counted \<and>
    counted_form pin_arc_RefCnt (Pin (Arc 16)) 16 strong_up demo_counted \<and> counted_form pin_rc_RefCnt (Pin (Rc 16)) 16 strong_up demo_counted \<and>
    counted_form (option_RefCnt arc_RefCnt) (Some (Arc 16)) 16 (unless_null strong_up) demo_counted \<and> counted_form (option_RefCnt arc_RefCnt) None 0 (unless_null strong_up) demo_counted \<and>
    counted_form (option_RefCnt rc_RefCnt) (Some (Rc 16)) 16 (unless_null strong_up) demo_counted \<and> counted_form (option_RefCnt rc_RefCnt) None 0 (unless_null strong_up) demo_counted \<and>
    counted_form (option_RefCnt pin_arc_RefCnt) (Some (Pin (Arc 16))) 16 (unless_null strong_up) demo_counted \<and> counted_form (option_RefCnt pin_arc_RefCnt) None 0 (unless_null strong_up) demo_counted \<and>
    counted_form (option_RefCnt pin_rc_RefCnt) (Some (Pin (Rc 16))) 16 (unless_null strong_up) demo_counted \<and> counted_form (option_RefCnt pin_rc_RefCnt) None 0 (unless_null strong_up) demo_counted \<and>
    counted_form weak_RefCnt (WeakTo 16) 16 (unless_null weak_up) demo_counted \<and> counted_form weak_RefCnt WeakNew 0 (unless_null weak_up) demo_counted \<and>
    counted_form rc_weak_RefCnt (RcWeakTo 16) 16 (unless_null weak_up) demo_counted \<and> counted_form rc_weak_RefCnt RcWeakNew 0 (unless_null weak_up) demo_counted"
  by (rule raw_pointers_round_trip) (simp_all add: demo_counted_def strong_rc_def weak_rc_def)

text \<open>Taking a reference and giving it back restores the heap exactly, for strong and for weak
  pointers; on an address without a live allocation both are refused.\<close>

theorem inc_and_dec_cancel:
  fixes h :: "'v heap"
  assumes "live_ptr True strong_rc h p" and "live_ptr True weak_rc h q" and "r \<noteq> 0" and "strong_rc h r = 0"
  shows "(case inc OA (opt_arc p) h of Inl e \<Rightarrow> False | Inr (p', h') \<Rightarrow> dec OA p' h' = Inr h) \<and>
    (case inc weak_RefCnt (from_ptr (weak_RefCnt :: (weak_ptr, 'v) RefCnt) q) h of Inl e \<Rightarrow> False | Inr (q', h') \<Rightarrow> dec weak_RefCnt q' h' = Inr h) \<and>
    inc OA (opt_arc r) h = Inl UseAfterFree \<and> dec OA r h = Inl UseAfterFree"
proof -
  have dead: "\<not> live_ptr True strong_rc h r" using assms(3,4) by (simp add: live_ptr_def)
  show ?thesis
    using arc.opt.inc_dec_cancel[OF assms(1)] weak.inc_dec_cancel[OF assms(2)]
      arc.opt.inc_dead[OF _ dead] arc.opt.dec_dead[OF _ dead] by simp
qed

theorem inc_and_dec_cancel_witness:
  "(case inc OA (opt_arc 16) demo_heap of Inl e \<Rightarrow> False | Inr (p', h') \<Rightarrow> dec OA p' h' = Inr demo_heap) \<and>
    (case inc weak_RefCnt (from_ptr (weak_RefCnt :: (weak_ptr, nat) RefCnt) 32) demo_heap of Inl e \<Rightarrow> False
     | Inr (q', h') \<Rightarrow> dec weak_RefCnt q' h' = Inr demo_heap) \<and>
    inc OA (opt_arc 48) demo_heap = Inl UseAfterFree \<and> dec OA 48 demo_heap = Inl UseAfterFree"
  by (rule inc_and_dec_cancel) (simp_all add: demo_heap_def live_ptr_def strong_rc_def weak_rc_def)

end
